(* ===== verification/GoBase.thy ===== *)
theory GoBase
  imports Main "HOL-Library.Word" "HOL-Library.Signed_Division"
begin

text \<open>
  Prelude of the development: what every component takes from the Go language itself.
  It holds the run-time panics and the state-passing computations in which the effectful
  functions of the program are written, the machine integer type, and the facts on
  lists and maps that several components share.
\<close>

named_theorems gm_simps "unfolding rules of the state-passing computations"

section \<open>Machine integers\<close>

text \<open>
  Go's \<^verbatim>\<open>int\<close> is a two's complement integer of the platform's width; the development
  fixes the 64-bit platforms.
\<close>

type_synonym goint = "64 word"

section \<open>Panics\<close>

text \<open>
  A value given to \<^verbatim>\<open>panic\<close> is told apart by what \<^verbatim>\<open>recover\<close> can find out about it:
  a \<^verbatim>\<open>runtime.Error\<close>, another value of the interface type \<^verbatim>\<open>error\<close>, or any other value,
  of which only strings occur in the program.
\<close>

datatype runtime_error =
    DivideByZero
  | IndexOutOfRange
  | SliceOutOfRange
  | NilDereference
  | TypeAssertion
  | StackOverflow
  | AllAsleep

text \<open>
  Go's \<^verbatim>\<open>/\<close> and \<^verbatim>\<open>%\<close> truncate towards zero, panic on a zero divisor, and wrap like every other
  operation.
\<close>

definition quot :: "'w::len word \<Rightarrow> 'w word \<Rightarrow> runtime_error + 'w word" where
  "quot y x = (if x = 0 then Inl DivideByZero else Inr (word_of_int (sint y sdiv sint x)))"

definition remd :: "'w::len word \<Rightarrow> 'w word \<Rightarrow> runtime_error + 'w word" where
  "remd y x = (if x = 0 then Inl DivideByZero else Inr (word_of_int (sint y smod sint x)))"

text \<open>
  The values of \<open>i\<close> in the loop \<^verbatim>\<open>for i := beg; i <= end; i++\<close>; \<open>None\<close> if the loop never ends.
\<close>

partial_function (option) countUp :: "'w::len word \<Rightarrow> 'w word \<Rightarrow> 'w word list option" where
  "countUp i e =
     (if sint e < sint i then Some []
      else Option.bind (countUp (i + 1) e) (\<lambda>is. Some (i # is)))"

section \<open>State-passing computations\<close>

text \<open>
  A function of the program that reads or changes state and may fail is a function from the
  state to a result (\<open>Inl\<close> for the error or panic) and the state it leaves, also when it
  fails: the program keeps what was changed before a panic.
\<close>

type_synonym ('s, 'e, 'a) gm = "'s \<Rightarrow> ('e + 'a) \<times> 's"

definition ret :: "'a \<Rightarrow> ('s, 'e, 'a) gm" where
  "ret a = (\<lambda>s. (Inr a, s))"

definition raise :: "'e \<Rightarrow> ('s, 'e, 'a) gm" where
  "raise e = (\<lambda>s. (Inl e, s))"

definition andThen :: "('s, 'e, 'a) gm \<Rightarrow> ('a \<Rightarrow> ('s, 'e, 'b) gm) \<Rightarrow> ('s, 'e, 'b) gm" where
  "andThen m k = (\<lambda>s. case m s of (Inl e, t) \<Rightarrow> (Inl e, t) | (Inr a, t) \<Rightarrow> k a t)"

definition modify :: "('s \<Rightarrow> 's) \<Rightarrow> ('s, 'e, unit) gm" where
  "modify f = (\<lambda>s. (Inr (), f s))"

definition getState :: "('s, 'e, 's) gm" where
  "getState = (\<lambda>s. (Inr s, s))"

lemma ret_apply [simp, gm_simps]: "ret a s = (Inr a, s)"
  by (simp add: ret_def)

lemma raise_apply [simp, gm_simps]: "raise e s = (Inl e, s)"
  by (simp add: raise_def)

lemma modify_apply [simp, gm_simps]: "modify f s = (Inr (), f s)"
  by (simp add: modify_def)

lemma getState_apply [simp, gm_simps]: "getState s = (Inr s, s)"
  by (simp add: getState_def)

lemma andThen_apply [gm_simps]:
  "andThen m k s = (case m s of (Inl e, t) \<Rightarrow> (Inl e, t) | (Inr a, t) \<Rightarrow> k a t)"
  by (simp add: andThen_def)

lemma andThen_Inr [simp]: "m s = (Inr a, t) \<Longrightarrow> andThen m k s = k a t"
  by (simp add: andThen_def)

lemma andThen_Inl [simp]: "m s = (Inl e, t) \<Longrightarrow> andThen m k s = (Inl e, t)"
  by (simp add: andThen_def)

lemma andThen_assoc: "andThen (andThen m k) l = andThen m (\<lambda>a. andThen (k a) l)"
  by (rule ext) (simp add: andThen_def split: prod.splits sum.splits)

lemma andThen_ret [simp]: "andThen (ret a) k = k a"
  by (rule ext) (simp add: andThen_def)

lemma andThen_raise [simp]: "andThen (raise e) k = raise e"
  by (rule ext) (simp add: andThen_def)

lemma andThen_Inr_cases:
  assumes "andThen m k s = (Inr b, u)"
  obtains a t where "m s = (Inr a, t)" and "k a t = (Inr b, u)"
  using assms by (auto simp: andThen_def split: prod.splits sum.splits)

text \<open>Sequencing of results without a state.\<close>

definition bindE :: "'e + 'a \<Rightarrow> ('a \<Rightarrow> 'e + 'b) \<Rightarrow> 'e + 'b" where
  "bindE r k = (case r of Inl e \<Rightarrow> Inl e | Inr a \<Rightarrow> k a)"

lemma bindE_simps [simp]: "bindE (Inl e) k = Inl e" "bindE (Inr a) k = k a"
  by (simp_all add: bindE_def)

text \<open>
  Sequencing of outcomes that may be missing, for the functions that take fuel: \<open>None\<close> is
  no outcome within the fuel, and a panic keeps the state it left.
\<close>

definition thenE ::
  "(('p + unit) \<times> 's) option \<Rightarrow> ('s \<Rightarrow> (('p + unit) \<times> 's) option) \<Rightarrow> (('p + unit) \<times> 's) option"
  where
  "thenE r k = (case r of
     None \<Rightarrow> None
   | Some (Inl p, s) \<Rightarrow> Some (Inl p, s)
   | Some (Inr _, s) \<Rightarrow> k s)"

lemma thenE_simps [simp]:
  "thenE None k = None"
  "thenE (Some (Inl p, s)) k = Some (Inl p, s)"
  "thenE (Some (Inr u, s)) k = k s"
  by (simp_all add: thenE_def)

lemma thenE_cases:
  obtains (Missing) "r = None" | (Stop) p s where "r = Some (Inl p, s)"
    | (Go) s where "r = Some (Inr (), s)"
proof (cases r)
  case (Some x)
  then show ?thesis using that(2,3) by (cases x; cases "fst x") auto
qed (simp add: that(1))

lemma thenE_id [simp]: "thenE r (\<lambda>s. Some (Inr (), s)) = r"
  by (cases r rule: thenE_cases) auto

lemma thenE_assoc: "thenE (thenE r k) l = thenE r (\<lambda>s. thenE (k s) l)"
  by (cases r rule: thenE_cases) auto

lemma thenE_cong [fundef_cong]:
  "r = r' \<Longrightarrow> (\<And>s. r' = Some (Inr (), s) \<Longrightarrow> k s = k' s) \<Longrightarrow> thenE r k = thenE r' k'"
  by (cases r' rule: thenE_cases) auto

lemma thenE_SomeE:
  assumes "thenE r k = Some x"
  obtains (Stop) p s where "r = Some (Inl p, s)" and "x = (Inl p, s)"
    | (Go) s where "r = Some (Inr (), s)" and "k s = Some x"
  using assms by (cases r rule: thenE_cases) auto

section \<open>Lists and maps\<close>

lemma takeWhile_not_mem: "c \<notin> set xs \<Longrightarrow> takeWhile (\<lambda>x. x \<noteq> c) xs = xs"
  by (induction xs) auto

lemma dropWhile_not_mem: "c \<notin> set xs \<Longrightarrow> dropWhile (\<lambda>x. x \<noteq> c) xs = []"
  by (induction xs) auto

lemma takeWhile_append_sep:
  "c \<notin> set xs \<Longrightarrow> takeWhile (\<lambda>x. x \<noteq> c) (xs @ c # ys) = xs"
  by (induction xs) auto

lemma dropWhile_append_sep:
  "c \<notin> set xs \<Longrightarrow> dropWhile (\<lambda>x. x \<noteq> c) (xs @ c # ys) = c # ys"
  by (induction xs) auto

lemma mem_takeWhile_neq: "c \<notin> set (takeWhile (\<lambda>x. x \<noteq> c) xs)"
  by (induction xs) auto

end
