(* ===== verification/GoStrings.thy ===== *)
theory GoStrings
  imports GoBase
begin

text \<open>
  The parts of Go's \<^verbatim>\<open>strings\<close> and \<^verbatim>\<open>strconv\<close> packages that the program calls. A Go string is
  a sequence of bytes, here a list of characters. Separators are single bytes in every call
  of the program.
\<close>

section \<open>strings.Split and strings.SplitN\<close>

text \<open>
  \<^verbatim>\<open>Split(s, sep)\<close> and \<^verbatim>\<open>SplitN(s, sep, -1)\<close> give all the pieces (one more than separators,
  so \<open>[[]]\<close> on the empty string); \<^verbatim>\<open>SplitN(s, sep, 2)\<close> splits at the first separator only.
\<close>

fun split :: "char \<Rightarrow> string \<Rightarrow> string list" where
  "split c [] = [[]]"
| "split c (x # xs) =
     (if x = c then [] # split c xs
      else (case split c xs of [] \<Rightarrow> [[x]] | p # ps \<Rightarrow> (x # p) # ps))"

definition splitN2 :: "char \<Rightarrow> string \<Rightarrow> string list" where
  "splitN2 c s =
     (if c \<in> set s
      then [takeWhile (\<lambda>x. x \<noteq> c) s, tl (dropWhile (\<lambda>x. x \<noteq> c) s)]
      else [s])"

fun join :: "char \<Rightarrow> string list \<Rightarrow> string" where
  "join c [] = []"
| "join c [p] = p"
| "join c (p # q # ps) = p @ c # join c (q # ps)"

lemma split_not_Nil [simp]: "split c s \<noteq> []"
  by (cases s) (auto split: list.splits)

lemma length_split: "length (split c s) = Suc (count_list s c)"
proof (induction s)
  case (Cons x s)
  then show ?case by (cases "split c s") auto
qed simp

lemma split_pieces: "p \<in> set (split c s) \<Longrightarrow> c \<notin> set p"
proof (induction s arbitrary: p)
  case (Cons x s)
  then show ?case by (cases "split c s") (auto split: if_splits)
qed simp

lemma split_pieces_chars: "p \<in> set (split c s) \<Longrightarrow> set p \<subseteq> set s"
proof (induction s arbitrary: p)
  case (Cons x s)
  then show ?case by (cases "split c s") (fastforce split: if_splits)+
qed simp

lemma join_Cons: "ps \<noteq> [] \<Longrightarrow> join c (p # ps) = p @ c # join c ps"
  by (cases ps) auto

lemma join_split: "join c (split c s) = s"
proof (induction s)
  case (Cons x s)
  show ?case
  proof (cases "x = c")
    case True
    with Cons.IH show ?thesis by (simp add: join_Cons)
  next
    case False
    obtain p ps where s: "split c s = p # ps" by (cases "split c s") auto
    with False Cons.IH show ?thesis by (cases ps) auto
  qed
qed simp

lemma split_no_sep: "c \<notin> set s \<Longrightarrow> split c s = [s]"
  by (induction s) auto

lemma split_append_sep: "c \<notin> set p \<Longrightarrow> split c (p @ c # s) = p # split c s"
  by (induction p) auto

lemma split_join:
  "ps \<noteq> [] \<Longrightarrow> \<forall>p\<in>set ps. c \<notin> set p \<Longrightarrow> split c (join c ps) = ps"
proof (induction ps)
  case (Cons p ps)
  then show ?case
    by (cases ps) (auto simp: split_no_sep split_append_sep)
qed simp

lemma splitN2_no_sep [simp]: "c \<notin> set s \<Longrightarrow> splitN2 c s = [s]"
  by (simp add: splitN2_def)

lemma splitN2_append_sep [simp]: "c \<notin> set p \<Longrightarrow> splitN2 c (p @ c # s) = [p, s]"
  by (simp add: splitN2_def takeWhile_append_sep dropWhile_append_sep)

lemma splitN2_Nil [simp]: "splitN2 c [] = [[]]"
  by (simp add: splitN2_def)

lemma splitN2_not_Nil [simp]: "splitN2 c s \<noteq> []"
  by (simp add: splitN2_def)

lemma splitN2_cases:
  obtains "splitN2 c s = [s]" and "c \<notin> set s"
  | p r where "splitN2 c s = [p, r]" and "s = p @ c # r" and "c \<notin> set p"
proof (cases "c \<in> set s")
  case True
  then obtain p r where "s = p @ c # r" and "c \<notin> set p" by (auto dest: split_list_first)
  then show ?thesis by (simp add: that(2))
qed (simp add: that(1))

text \<open>
  What a client relies on when it splits what another part joined. Every separator of the
  program is an instance.
\<close>

locale separated =
  fixes sep :: char
    and pieces :: "string \<Rightarrow> string list"
    and glue :: "string list \<Rightarrow> string"
  assumes pieces_nonempty: "pieces s \<noteq> []"
    and pieces_free: "p \<in> set (pieces s) \<Longrightarrow> sep \<notin> set p"
    and glue_pieces: "glue (pieces s) = s"
    and pieces_glue: "ps \<noteq> [] \<Longrightarrow> \<forall>p\<in>set ps. sep \<notin> set p \<Longrightarrow> pieces (glue ps) = ps"
begin

lemma pieces_inj: "pieces s = pieces t \<longleftrightarrow> s = t"
  by (metis glue_pieces)

lemma glue_inj_on:
  assumes "ps \<noteq> []" "qs \<noteq> []" "\<forall>p\<in>set ps. sep \<notin> set p" "\<forall>q\<in>set qs. sep \<notin> set q"
    and "glue ps = glue qs"
  shows "ps = qs"
  using assms by (metis pieces_glue)

end

interpretation blank: separated "CHR '' ''" "split CHR '' ''" "join CHR '' ''"
  by unfold_locales (auto simp: split_pieces join_split split_join)

interpretation comma: separated "CHR '',''" "split CHR '',''" "join CHR '',''"
  by unfold_locales (auto simp: split_pieces join_split split_join)

interpretation colon: separated "CHR '':''" "split CHR '':''" "join CHR '':''"
  by unfold_locales (auto simp: split_pieces join_split split_join)

interpretation slash: separated "CHR ''/''" "split CHR ''/''" "join CHR ''/''"
  by unfold_locales (auto simp: split_pieces join_split split_join)

section \<open>strings.TrimLeft, TrimSpace, TrimRightFunc, HasSuffix\<close>

definition trimLeft :: "string \<Rightarrow> string \<Rightarrow> string" where
  "trimLeft s cutset = dropWhile (\<lambda>c. c \<in> set cutset) s"

definition hasSuffix :: "string \<Rightarrow> string \<Rightarrow> bool" where
  "hasSuffix s suf = (length suf \<le> length s \<and> drop (length s - length suf) s = suf)"

lemma hasSuffix_iff: "hasSuffix s suf \<longleftrightarrow> (\<exists>p. s = p @ suf)"
proof
  assume "hasSuffix s suf"
  then have "s = take (length s - length suf) s @ suf"
    unfolding hasSuffix_def by (metis append_take_drop_id)
  then show "\<exists>p. s = p @ suf" by blast
qed (auto simp: hasSuffix_def)

definition trimRightFunc :: "string \<Rightarrow> (char \<Rightarrow> bool) \<Rightarrow> string" where
  "trimRightFunc s f = rev (dropWhile f (rev s))"

text \<open>The UTF-8 encodings of the code points that \<^verbatim>\<open>unicode.IsSpace\<close> accepts.\<close>

definition spaceEncodings :: "string list" where
  "spaceEncodings =
     map (\<lambda>n. [char_of n]) [9, 10, 11, 12, 13, 32 :: nat] @
     map (map char_of)
       ([[0xC2, 0x85], [0xC2, 0xA0], [0xE1, 0x9A, 0x80]] @
        map (\<lambda>n. [0xE2, 0x80, n])
          [0x80, 0x81, 0x82, 0x83, 0x84, 0x85, 0x86, 0x87, 0x88, 0x89, 0x8A, 0xA8, 0xA9, 0xAF] @
        [[0xE2, 0x81, 0x9F], [0xE3, 0x80, 0x80 :: nat]])"

definition spacePrefix :: "string list \<Rightarrow> string \<Rightarrow> string option" where
  "spacePrefix encs s =
     List.find (\<lambda>e. e \<noteq> [] \<and> take (length e) s = e) encs"

lemma spacePrefix_Some:
  "spacePrefix encs s = Some e \<Longrightarrow> e \<noteq> [] \<and> take (length e) s = e"
  by (auto simp: spacePrefix_def find_Some_iff)

function stripSpaces :: "string list \<Rightarrow> string \<Rightarrow> string" where
  "stripSpaces encs s =
     (case spacePrefix encs s of None \<Rightarrow> s | Some e \<Rightarrow> stripSpaces encs (drop (length e) s))"
  by pat_completeness auto
termination
proof (relation "measure (\<lambda>(encs, s). length s)")
  fix encs s e assume "spacePrefix encs s = Some e"
  then have "e \<noteq> []" "take (length e) s = e" by (auto dest: spacePrefix_Some)
  then have "0 < length e" "s \<noteq> []" by auto
  then show "((encs, drop (length e) s), encs, s) \<in> measure (\<lambda>(encs, s). length s)" by simp
qed simp

declare stripSpaces.simps [simp del]

definition trimSpace :: "string \<Rightarrow> string" where
  "trimSpace s =
     rev (stripSpaces (map rev spaceEncodings) (rev (stripSpaces spaceEncodings s)))"

section \<open>strconv.Itoa and strconv.Atoi\<close>

fun digits :: "nat \<Rightarrow> string" where
  "digits n =
     (if n < 10 then [char_of (48 + n)] else digits (n div 10) @ [char_of (48 + n mod 10)])"

declare digits.simps [simp del]

definition isDigit :: "char \<Rightarrow> bool" where
  "isDigit c \<longleftrightarrow> 48 \<le> (of_char c :: nat) \<and> of_char c \<le> (57 :: nat)"

definition digitVal :: "char \<Rightarrow> nat" where
  "digitVal c = of_char c - 48"

definition itoa :: "'w::len word \<Rightarrow> string" where
  "itoa w = (if sint w < 0 then CHR ''-'' # digits (nat (- sint w)) else digits (nat (sint w)))"

datatype num_error = ErrSyntax | ErrRange

fun parseDigits :: "nat \<Rightarrow> nat \<Rightarrow> string \<Rightarrow> num_error + nat" where
  "parseDigits mx n [] = Inr n"
| "parseDigits mx n (c # cs) =
     (if isDigit c then
        (if 10 * n + digitVal c > mx then Inl ErrRange
         else parseDigits mx (10 * n + digitVal c) cs)
      else Inl ErrSyntax)"

definition parseUint :: "nat \<Rightarrow> string \<Rightarrow> num_error + nat" where
  "parseUint mx s = (if s = [] then Inl ErrSyntax else parseDigits mx 0 s)"

text \<open>
  \<^verbatim>\<open>Atoi\<close> returns a value and an error: zero with a syntax error, the nearest representable
  value with a range error. The program uses the value where it drops the error.
\<close>

definition signedNum :: "bool \<Rightarrow> nat \<Rightarrow> 'w::len word" where
  "signedNum neg n = (if neg then - word_of_int (int n) else word_of_int (int n))"

definition atoi :: "string \<Rightarrow> 'w::len word \<times> num_error option" where
  "atoi s =
     (let neg = (s \<noteq> [] \<and> hd s = CHR ''-'');
          ds = (if s \<noteq> [] \<and> (hd s = CHR ''+'' \<or> hd s = CHR ''-'') then tl s else s);
          cutoff = (2 :: nat) ^ (LENGTH('w) - 1);
          tooBig = (if neg then (signedNum True cutoff, Some ErrRange)
                    else (signedNum False (cutoff - 1), Some ErrRange))
      in case parseUint (2 ^ LENGTH('w) - 1) ds of
           Inl ErrSyntax \<Rightarrow> (0, Some ErrSyntax)
         | Inl ErrRange \<Rightarrow> tooBig
         | Inr un \<Rightarrow>
             if (\<not> neg \<and> cutoff \<le> un) \<or> (neg \<and> cutoff < un) then tooBig
             else (signedNum neg un, None))"

lemma digits_not_Nil [simp]: "digits n \<noteq> []"
  by (subst digits.simps) simp

lemma of_char_digit: "k < 10 \<Longrightarrow> of_char (char_of (48 + k) :: char) = (48 + k :: nat)"
  by simp

lemma isDigit_digits: "c \<in> set (digits n) \<Longrightarrow> isDigit c"
proof (induction n rule: digits.induct)
  case (1 n)
  have "isDigit (char_of (48 + k))" if "k < (10::nat)" for k
    using that by (simp add: isDigit_def of_char_digit)
  with 1 show ?case
    by (cases "n < 10") (auto simp: digits.simps [of n])
qed

text \<open>The number a digit string denotes, and what \<^verbatim>\<open>Atoi\<close> does on the output of \<^verbatim>\<open>Itoa\<close>.\<close>

fun digitsVal :: "nat \<Rightarrow> string \<Rightarrow> nat" where
  "digitsVal n [] = n"
| "digitsVal n (c # cs) = digitsVal (10 * n + digitVal c) cs"

lemma digitsVal_append: "digitsVal n (xs @ ys) = digitsVal (digitsVal n xs) ys"
  by (induction xs arbitrary: n) auto

lemma digitsVal_digits: "digitsVal 0 (digits n) = n"
proof (induction n rule: digits.induct)
  case (1 n)
  have d: "digitVal (char_of (48 + k)) = k" if "k < (10::nat)" for k
    using that by (simp add: digitVal_def of_char_digit)
  show ?case
  proof (cases "n < 10")
    case True
    then show ?thesis by (simp add: digits.simps [of n] d)
  next
    case False
    with 1 show ?thesis
      by (simp add: digits.simps [of n] d digitsVal_append mult.commute)
  qed
qed

lemma digitsVal_ge: "n \<le> digitsVal n cs"
  by (induction n cs rule: digitsVal.induct) (auto elim: order_trans [rotated])

lemma parseDigits_digitsVal:
  "\<forall>c\<in>set cs. isDigit c \<Longrightarrow> digitsVal n cs \<le> mx \<Longrightarrow> parseDigits mx n cs = Inr (digitsVal n cs)"
proof (induction cs arbitrary: n)
  case (Cons c cs)
  have "10 * n + digitVal c \<le> digitsVal (10 * n + digitVal c) cs" by (rule digitsVal_ge)
  with Cons show ?case by auto
qed simp

lemma parseUint_digits: "n \<le> mx \<Longrightarrow> parseUint mx (digits n) = Inr n"
  by (simp add: parseUint_def parseDigits_digitsVal isDigit_digits digitsVal_digits)

lemma hd_digits_isDigit: "isDigit (hd (digits n))"
  by (rule isDigit_digits [of _ n]) simp

lemma not_isDigit [simp]: "\<not> isDigit CHR ''-''" "\<not> isDigit CHR ''+''" "\<not> isDigit CHR '',''"
  "\<not> isDigit CHR ''/''" "\<not> isDigit CHR '' ''" "\<not> isDigit CHR '':''" "\<not> isDigit CHR ''.''"
  by (simp_all add: isDigit_def)

lemma atoi_digits:
  assumes "n < 2 ^ (LENGTH('w) - 1)"
  shows "(atoi (digits n) :: 'w::len word \<times> num_error option) = (word_of_int (int n), None)"
proof -
  have "(2::nat) ^ (LENGTH('w) - 1) \<le> 2 ^ LENGTH('w)" by (rule power_increasing) auto
  with assms have le: "n \<le> 2 ^ LENGTH('w) - Suc 0" by linarith
  have h: "hd (digits n) \<noteq> CHR ''-''" "hd (digits n) \<noteq> CHR ''+''"
    using hd_digits_isDigit [of n] by auto
  show ?thesis
    using assms h by (simp add: atoi_def parseUint_digits [OF le] signedNum_def Let_def)
qed

lemma atoi_neg_digits:
  assumes "n \<le> 2 ^ (LENGTH('w) - 1)"
  shows "(atoi (CHR ''-'' # digits n) :: 'w::len word \<times> num_error option) =
    (- word_of_int (int n), None)"
proof -
  have "(2::nat) ^ LENGTH('w) = 2 * 2 ^ (LENGTH('w) - 1)"
    by (metis len_gt_0 power_eq_if not_gr_zero)
  then have le: "n \<le> 2 ^ LENGTH('w) - Suc 0"
    using assms one_le_power [of "2::nat" "LENGTH('w) - 1"] by linarith
  show ?thesis
    using assms by (simp add: atoi_def parseUint_digits [OF le] signedNum_def Let_def)
qed

lemma atoi_itoa: "atoi (itoa w) = (w :: 'w::len word, None)"
proof (cases "sint w < 0")
  case True
  have "- sint w \<le> 2 ^ (LENGTH('w) - 1)"
    using sint_greater_eq [of w] by simp
  then have "nat (- sint w) \<le> 2 ^ (LENGTH('w) - 1)" by (simp add: nat_le_iff)
  with True show ?thesis by (simp add: itoa_def atoi_neg_digits)
next
  case False
  have "sint w < 2 ^ (LENGTH('w) - 1)" by (rule sint_lt)
  with False have "nat (sint w) < 2 ^ (LENGTH('w) - 1)" by (simp add: nat_less_iff)
  with False show ?thesis by (simp add: itoa_def atoi_digits)
qed

lemma itoa_inj: "itoa v = itoa w \<Longrightarrow> (v :: 'w::len word) = w"
  by (metis atoi_itoa prod.inject)

lemma itoa_not_Nil [simp]: "itoa w \<noteq> []"
  by (simp add: itoa_def)

lemma itoa_chars: "c \<in> set (itoa w) \<Longrightarrow> c = CHR ''-'' \<or> isDigit c"
  by (auto simp: itoa_def isDigit_digits split: if_splits)

lemma atoi_range:
  assumes "(atoi s :: 'w::len word \<times> num_error option) = (w, Some ErrRange)"
  shows "w = - (2 ^ (LENGTH('w) - 1)) \<or> w = 2 ^ (LENGTH('w) - 1) - 1"
  using assms
  by (auto simp: atoi_def signedNum_def Let_def of_nat_diff split: if_splits sum.splits num_error.splits)

lemma atoi_syntax: "(atoi s :: 'w::len word \<times> num_error option) = (w, Some ErrSyntax) \<Longrightarrow> w = 0"
  by (auto simp: atoi_def Let_def split: if_splits sum.splits num_error.splits)

text \<open>Numbers that fit: the machine operations agree with arithmetic.\<close>

lemma sint_of_fit:
  assumes "- (2 ^ (LENGTH('w) - 1)) \<le> k" and "k < 2 ^ (LENGTH('w) - 1)"
  shows "sint (word_of_int k :: 'w::len word) = k"
  using assms by (simp add: sint_sbintrunc' signed_take_bit_int_eq_self)

lemma sint_of_nat:
  "n < 2 ^ (LENGTH('w) - 1) \<Longrightarrow> sint (word_of_nat n :: 'w::len word) = int n"
  using sint_of_fit [of "int n", where 'w = 'w]
  by (simp add: order_trans [of _ 0])

lemma word_of_nat_eq_0:
  "n < 2 ^ (LENGTH('w) - 1) \<Longrightarrow> (word_of_nat n :: 'w::len word) = 0 \<longleftrightarrow> n = 0"
  using sint_of_nat [of n, where 'w = 'w] by auto

lemma quot_nat:
  assumes "m < 2 ^ (LENGTH('w) - 1)" "k < 2 ^ (LENGTH('w) - 1)" "k \<noteq> 0"
  shows "quot (word_of_nat m :: 'w::len word) (word_of_nat k) = Inr (word_of_nat (m div k))"
  using assms word_of_nat_eq_0 [of k, where 'w = 'w]
  by (simp add: quot_def sint_of_nat signed_divide_int_def sgn_if zdiv_int [symmetric])

lemma remd_nat:
  assumes "m < 2 ^ (LENGTH('w) - 1)" "k < 2 ^ (LENGTH('w) - 1)" "k \<noteq> 0"
  shows "remd (word_of_nat m :: 'w::len word) (word_of_nat k) = Inr (word_of_nat (m mod k))"
  using assms word_of_nat_eq_0 [of k, where 'w = 'w]
  by (simp add: remd_def sint_of_nat smod_mod_positive zmod_int [symmetric])

lemma itoa_nat:
  "n < 2 ^ (LENGTH('w) - 1) \<Longrightarrow> itoa (word_of_nat n :: 'w::len word) = digits n"
  by (simp add: itoa_def sint_of_nat)

lemma atoi_nat:
  "n < 2 ^ (LENGTH('w) - 1) \<Longrightarrow>
   (atoi (digits n) :: 'w::len word \<times> num_error option) = (word_of_nat n, None)"
  using atoi_digits [of n, where 'w = 'w] by simp

text \<open>The printed digits, for the evaluation of concrete commands.\<close>

lemma digitChars [simp]:
  "char_of (48 :: nat) = CHR ''0''" "char_of (49 :: nat) = CHR ''1''"
  "char_of (50 :: nat) = CHR ''2''" "char_of (51 :: nat) = CHR ''3''"
  "char_of (52 :: nat) = CHR ''4''" "char_of (53 :: nat) = CHR ''5''"
  "char_of (54 :: nat) = CHR ''6''" "char_of (55 :: nat) = CHR ''7''"
  "char_of (56 :: nat) = CHR ''8''" "char_of (57 :: nat) = CHR ''9''"
  by code_simp+

text \<open>
  The counting loop gives every value from its start to its end, unless the end is the
  greatest integer: then the counter wraps around below it and the loop never ends.
\<close>

lemma sint_Suc:
  assumes "sint (i :: 'w::len word) \<noteq> 2 ^ (LENGTH('w) - 1) - 1"
  shows "sint (i + 1) = sint i + 1"
proof -
  have "sint i + 1 < 2 ^ (LENGTH('w) - 1)"
    using sint_lt [of i] assms by linarith
  moreover have "- (2 ^ (LENGTH('w) - 1)) \<le> sint i + 1"
    using sint_ge [of i] by linarith
  ultimately have "sint (word_of_int (sint i + 1) :: 'w word) = sint i + 1"
    by (rule_tac sint_of_fit)
  then show ?thesis by simp
qed

lemma countUp_max:
  assumes "sint (e :: 'w::len word) = 2 ^ (LENGTH('w) - 1) - 1"
  shows "countUp i e = None"
proof -
  have "countUp i e = Some r \<Longrightarrow> sint e \<noteq> 2 ^ (LENGTH('w) - 1) - 1" for r and i e :: "'w word"
  proof (rule countUp.raw_induct [where P = "\<lambda>i e r. sint (e :: 'w word) \<noteq> 2 ^ (LENGTH('w) - 1) - 1"])
    fix f :: "'w word \<Rightarrow> 'w word \<Rightarrow> 'w word list option" and i e r
    assume IH: "\<And>i e r. f i e = Some r \<Longrightarrow> sint e \<noteq> 2 ^ (LENGTH('w) - 1) - 1"
      and eq: "(if sint e < sint i then Some []
        else Option.bind (f (i + 1) e) (\<lambda>is. Some (i # is))) = Some r"
    show "sint e \<noteq> 2 ^ (LENGTH('w) - 1) - 1"
    proof (cases "sint e < sint i")
      case True
      with sint_lt [of i] show ?thesis by linarith
    next
      case False
      with eq IH show ?thesis by (auto simp: bind_eq_Some_conv)
    qed
  qed
  with assms show ?thesis by (cases "countUp i e") auto
qed

lemma countUp_Some:
  assumes "sint (e :: 'w::len word) \<noteq> 2 ^ (LENGTH('w) - 1) - 1"
  shows "countUp i e = Some (map word_of_int [sint i..sint e])"
proof (induction "nat (sint e + 1 - sint i)" arbitrary: i)
  case 0
  then have "sint e < sint i" by simp
  then show ?case by (simp add: countUp.simps [of i e])
next
  case (Suc n)
  then have le: "sint i \<le> sint e" by linarith
  with assms sint_lt [of e] have "sint i \<noteq> 2 ^ (LENGTH('w) - 1) - 1" by linarith
  then have s: "sint (i + 1) = sint i + 1" by (rule sint_Suc)
  have "countUp (i + 1) e = Some (map word_of_int [sint (i + 1)..sint e])"
    by (rule Suc(1)) (use Suc(2) s in linarith)
  with le s show ?case by (simp add: countUp.simps [of i e] upto_rec1)
qed

lemma countUp_nat:
  assumes "n < 2 ^ (LENGTH('w) - 1) - 1" and "m < 2 ^ (LENGTH('w) - 1)"
  shows "countUp (word_of_nat m :: 'w::len word) (word_of_nat n) = Some (map word_of_nat [m..<Suc n])"
proof -
  have e: "sint (word_of_nat n :: 'w word) = int n" using assms(1) by (simp add: sint_of_nat)
  have i: "sint (word_of_nat m :: 'w word) = int m" using assms(2) by (simp add: sint_of_nat)
  have "int n < 2 ^ (LENGTH('w) - 1) - 1"
  proof -
    have "int n < int (2 ^ (LENGTH('w) - 1) - 1)" using assms(1) by (simp only: of_nat_less_iff)
    then show ?thesis by (simp add: of_nat_diff)
  qed
  with e have "sint (word_of_nat n :: 'w word) \<noteq> 2 ^ (LENGTH('w) - 1) - 1" by linarith
  from countUp_Some [OF this, of "word_of_nat m"] e i
  have "countUp (word_of_nat m :: 'w word) (word_of_nat n) = Some (map word_of_int [int m..int n])"
    by simp
  moreover have "[int m..int n] = map int [m..<Suc n]"
    by (rule nth_equalityI) (auto simp: nth_upt simp del: upt_Suc)
  ultimately show ?thesis by (simp add: comp_def del: upt_Suc)
qed

text \<open>Strings between printable ASCII characters keep their ends.\<close>

definition printable :: "char \<Rightarrow> bool" where
  "printable c \<longleftrightarrow> 33 \<le> (of_char c :: nat) \<and> of_char c \<le> (126 :: nat)"

lemma spaceEncodings_ends:
  "list_all (\<lambda>e. e \<noteq> [] \<and> \<not> printable (hd e) \<and> \<not> printable (last e)) spaceEncodings"
  by (simp add: spaceEncodings_def printable_def)

lemma stripSpaces_keep:
  assumes "s \<noteq> []" and "printable (hd s)" and "list_all (\<lambda>e. e \<noteq> [] \<and> \<not> printable (hd e)) encs"
  shows "stripSpaces encs s = s"
proof -
  have "spacePrefix encs s = None"
  proof (rule ccontr)
    assume "spacePrefix encs s \<noteq> None"
    then obtain e where e: "e \<in> set encs" "take (length e) s = e"
      by (auto simp: spacePrefix_def find_Some_iff) (metis nth_mem)
    with assms(3) have "e \<noteq> []" "\<not> printable (hd e)" by (auto simp: list_all_iff)
    moreover from this e(2) have "hd e = hd s" by (metis hd_take length_greater_0_conv)
    ultimately show False using assms(2) by simp
  qed
  then show ?thesis by (simp add: stripSpaces.simps [of encs s])
qed

lemma trimSpace_keep:
  assumes "s \<noteq> []" and "printable (hd s)" and "printable (last s)"
  shows "trimSpace s = s"
proof -
  have "stripSpaces spaceEncodings s = s"
    using assms(1,2) by (rule stripSpaces_keep) (use spaceEncodings_ends in \<open>auto simp: list_all_iff\<close>)
  moreover have "stripSpaces (map rev spaceEncodings) (rev s) = rev s"
    using assms(1,3) spaceEncodings_ends
    by (intro stripSpaces_keep) (auto simp: hd_rev list_all_iff)
  ultimately show ?thesis by (simp add: trimSpace_def)
qed

end
