(* ===== verification/Forth.thy ===== *)
theory Forth
  imports GoStrings
begin

text \<open>
  The postfix language of package \<^verbatim>\<open>forth\<close> (\<^verbatim>\<open>src/src/forth/forth.go\<close>), in which the command
  line gives a node its identifier, its address and its parent. The stack is a slice of
  strings with its top at the end; operators pop their arguments, also when they then fail,
  so an error leaves a changed stack behind. \<^verbatim>\<open>os.Hostname\<close> is the parameter \<open>host\<close>
  (\<open>None\<close> where it returns an error).
\<close>

section \<open>The stack\<close>

datatype forth_error = EmptyStack | NumError num_error string

datatype forth_panic =
    PRuntime runtime_error
  | PError forth_error
  | PString string

record forthstack =
  stack :: "string list"

type_synonym 'a forth = "(forthstack, forth_panic, 'a) gm"

definition New :: forthstack where
  "New = \<lparr>stack = []\<rparr>"

definition Reset :: "forthstack \<Rightarrow> forthstack" where
  "Reset f = f\<lparr>stack := take 0 (stack f)\<rparr>"

definition Push :: "string \<Rightarrow> unit forth" where
  "Push s = modify (\<lambda>f. f\<lparr>stack := stack f @ [s]\<rparr>)"

definition Pop :: "string forth" where
  "Pop = (\<lambda>f. if length (stack f) < 1 then (Inl (PError EmptyStack), f)
              else (Inr (last (stack f)), f\<lparr>stack := butlast (stack f)\<rparr>))"

definition Length :: "forthstack \<Rightarrow> nat" where
  "Length f = length (stack f)"

definition Empty :: "forthstack \<Rightarrow> bool" where
  "Empty f \<longleftrightarrow> length (stack f) = 0"

section \<open>The operators\<close>

definition toInt :: "goint forth" where
  "toInt = andThen Pop (\<lambda>s. case atoi s of
     (i, None) \<Rightarrow> ret i
   | (i, Some err) \<Rightarrow> raise (PError (NumError err s)))"

definition lift_rt :: "runtime_error + 'a \<Rightarrow> 'a forth" where
  "lift_rt r = (case r of Inl e \<Rightarrow> raise (PRuntime e) | Inr a \<Rightarrow> ret a)"

definition plus :: "unit forth" where
  "plus = andThen toInt (\<lambda>x. andThen toInt (\<lambda>y. Push (itoa (x + y))))"

definition times :: "unit forth" where
  "times = andThen toInt (\<lambda>x. andThen toInt (\<lambda>y. Push (itoa (x * y))))"

definition sub :: "unit forth" where
  "sub = andThen toInt (\<lambda>x. andThen toInt (\<lambda>y. Push (itoa (y - x))))"

definition divi :: "unit forth" where
  "divi = andThen toInt (\<lambda>x. andThen toInt (\<lambda>y.
     andThen (lift_rt (quot y x)) (\<lambda>z. Push (itoa z))))"

definition modu :: "unit forth" where
  "modu = andThen toInt (\<lambda>x. andThen toInt (\<lambda>y.
     andThen (lift_rt (remd y x)) (\<lambda>z. Push (itoa z))))"

definition roundup :: "unit forth" where
  "roundup = andThen toInt (\<lambda>rnd. andThen toInt (\<lambda>v.
     andThen (lift_rt (quot (v + rnd - 1) rnd)) (\<lambda>q. Push (itoa (q * rnd)))))"

definition swap :: "unit forth" where
  "swap = andThen Pop (\<lambda>x. andThen Pop (\<lambda>y. andThen (Push x) (\<lambda>_. Push y)))"

definition strcat :: "unit forth" where
  "strcat = andThen Pop (\<lambda>x. andThen Pop (\<lambda>y. Push (y @ x)))"

definition dup :: "unit forth" where
  "dup = andThen Pop (\<lambda>x. andThen (Push x) (\<lambda>_. Push x))"

definition ifelse :: "unit forth" where
  "ifelse = andThen toInt (\<lambda>x. andThen Pop (\<lambda>y. andThen Pop (\<lambda>z.
     if x \<noteq> 0 then Push y else Push z)))"

definition hostname :: "string option \<Rightarrow> unit forth" where
  "hostname host = (case host of None \<Rightarrow> raise (PString ''No hostname'') | Some h \<Rightarrow> Push h)"

definition hostbase :: "unit forth" where
  "hostbase = andThen Pop (\<lambda>host. Push (trimLeft host ''abcdefghijklmnopqrstuvwxyz -''))"

section \<open>The operator table\<close>

text \<open>
  \<^verbatim>\<open>opmap\<close> maps names to functions. A function is one of the built-in operators or the closure
  that \<^verbatim>\<open>NewWord\<close> makes, which evaluates its command again.
\<close>

datatype builtin =
  Plus | Sub | Times | Div | Mod | Swap | Ifelse | Hostname | Hostbase | Strcat | Roundup | Dup

datatype forthop = Builtin builtin | Word string

type_synonym opmap = "string \<rightharpoonup> forthop"

definition opmap0 :: opmap where
  "opmap0 = map_of
     [(''+'', Builtin Plus), (''-'', Builtin Sub), (''*'', Builtin Times), (''/'', Builtin Div),
      (''%'', Builtin Mod), (''swap'', Builtin Swap), (''ifelse'', Builtin Ifelse),
      (''hostname'', Builtin Hostname), (''hostbase'', Builtin Hostbase),
      (''strcat'', Builtin Strcat), (''roundup'', Builtin Roundup), (''dup'', Builtin Dup)]"

definition Newop :: "opmap \<Rightarrow> string \<Rightarrow> forthop \<Rightarrow> opmap" where
  "Newop om n op = om(n \<mapsto> op)"

definition NewWord :: "opmap \<Rightarrow> string \<Rightarrow> string \<Rightarrow> opmap" where
  "NewWord om name command = om(name \<mapsto> Word command)"

fun runBuiltin :: "string option \<Rightarrow> builtin \<Rightarrow> unit forth" where
  "runBuiltin host Plus = plus"
| "runBuiltin host Sub = sub"
| "runBuiltin host Times = times"
| "runBuiltin host Div = divi"
| "runBuiltin host Mod = modu"
| "runBuiltin host Swap = swap"
| "runBuiltin host Ifelse = ifelse"
| "runBuiltin host Hostname = hostname host"
| "runBuiltin host Hostbase = hostbase"
| "runBuiltin host Strcat = strcat"
| "runBuiltin host Roundup = roundup"
| "runBuiltin host Dup = dup"

section \<open>Evaluation\<close>

text \<open>
  The fuel counts how deep user-defined words may nest; a word without fuel left gives
  \<open>None\<close>. Words of a program that does not define any never spend fuel.
\<close>

fun iEvalToks ::
  "string option \<Rightarrow> opmap \<Rightarrow> nat \<Rightarrow> string list \<Rightarrow> forthstack
     \<Rightarrow> ((forth_panic + unit) \<times> forthstack) option" where
  "iEvalToks host om n [] f = Some (Inr (), f)"
| "iEvalToks host om n (val # vals) f =
     thenE
       (if length val = 0 \<or> val = '' '' then Some (Inr (), f)
        else (case om val of
          Some (Builtin b) \<Rightarrow> Some (runBuiltin host b f)
        | Some (Word command) \<Rightarrow>
            (case n of
               0 \<Rightarrow> None
             | Suc k \<Rightarrow> iEvalToks host om k (split CHR '' '' command) f)
        | None \<Rightarrow> Some (Push val f)))
       (\<lambda>g. iEvalToks host om n vals g)"

definition iEval ::
  "string option \<Rightarrow> opmap \<Rightarrow> nat \<Rightarrow> string \<Rightarrow> forthstack
     \<Rightarrow> ((forth_panic + unit) \<times> forthstack) option" where
  "iEval host om n s f = iEvalToks host om n (split CHR '' '' s) f"

text \<open>
  \<^verbatim>\<open>errRecover\<close> turns a panic into the returned error if its value is an \<^verbatim>\<open>error\<close> other than a
  \<^verbatim>\<open>runtime.Error\<close>. A run-time error is panicked again, and the type assertion
  \<^verbatim>\<open>e.(error)\<close> on any other value is a run-time error itself.
\<close>

datatype eval_result = Returned string "forth_error option" | Panicked forth_panic

fun errRecover :: "forth_panic \<Rightarrow> eval_result" where
  "errRecover (PRuntime e) = Panicked (PRuntime e)"
| "errRecover (PError e) = Returned [] (Some e)"
| "errRecover (PString s) = Panicked (PRuntime TypeAssertion)"

definition Eval ::
  "string option \<Rightarrow> opmap \<Rightarrow> nat \<Rightarrow> string \<Rightarrow> forthstack
     \<Rightarrow> (eval_result \<times> forthstack) option" where
  "Eval host om n s f =
     (case iEval host om n s f of
        None \<Rightarrow> None
      | Some (Inl p, g) \<Rightarrow> Some (errRecover p, g)
      | Some (Inr _, g) \<Rightarrow>
          (case Pop g of
             (Inl p, h) \<Rightarrow> Some (errRecover p, h)
           | (Inr r, h) \<Rightarrow> Some (Returned r None, h)))"

section \<open>Single steps\<close>

lemma Push_apply [simp, gm_simps]: "Push s f = (Inr (), f\<lparr>stack := stack f @ [s]\<rparr>)"
  by (simp add: Push_def)

lemma Pop_snoc [simp]: "stack f = st @ [s] \<Longrightarrow> Pop f = (Inr s, f\<lparr>stack := st\<rparr>)"
  by (simp add: Pop_def)

lemma Pop_empty [simp]: "stack f = [] \<Longrightarrow> Pop f = (Inl (PError EmptyStack), f)"
  by (simp add: Pop_def)

lemma toInt_snoc:
  "stack f = st @ [s] \<Longrightarrow>
   toInt f = (case atoi s of
     (i, None) \<Rightarrow> (Inr i, f\<lparr>stack := st\<rparr>)
   | (i, Some err) \<Rightarrow> (Inl (PError (NumError err s)), f\<lparr>stack := st\<rparr>))"
  by (auto simp: toInt_def andThen_def split: prod.splits option.splits)

lemma toInt_itoa [simp]:
  "stack f = st @ [itoa i] \<Longrightarrow> toInt f = (Inr i, f\<lparr>stack := st\<rparr>)"
  by (simp add: toInt_snoc atoi_itoa)

lemma toInt_empty [simp]: "stack f = [] \<Longrightarrow> toInt f = (Inl (PError EmptyStack), f)"
  by (simp add: toInt_def)

lemma lift_rt_simps [simp, gm_simps]:
  "lift_rt (Inl e) = raise (PRuntime e)" "lift_rt (Inr a) = ret a"
  by (simp_all add: lift_rt_def)

lemma forthstack_stack_eq [simp]: "f\<lparr>stack := stack f\<rparr> = (f :: forthstack)"
  by simp

lemmas op_defs =
  plus_def sub_def times_def divi_def modu_def roundup_def swap_def strcat_def dup_def
  ifelse_def hostname_def hostbase_def

lemma iEvalToks_append:
  "iEvalToks host om n (xs @ ys) f =
     thenE (iEvalToks host om n xs f) (\<lambda>g. iEvalToks host om n ys g)"
proof (induction xs arbitrary: f)
  case (Cons x xs)
  then have "iEvalToks host om n (xs @ ys) =
      (\<lambda>f. thenE (iEvalToks host om n xs f) (\<lambda>g. iEvalToks host om n ys g))"
    by (rule ext)
  then show ?case by (simp add: thenE_assoc)
qed simp

lemma iEvalToks_Cons:
  "iEvalToks host om n (x # xs) f =
     thenE (iEvalToks host om n [x] f) (\<lambda>g. iEvalToks host om n xs g)"
  using iEvalToks_append [of host om n "[x]" xs f] by simp

lemma iEvalToks_Nil: "iEvalToks host om n [] = (\<lambda>f. Some (Inr (), f))"
  by (rule ext) simp

lemma iEvalToks_skip:
  "x = [] \<or> x = '' '' \<Longrightarrow> iEvalToks host om n [x] f = Some (Inr (), f)"
  by simp

lemma iEvalToks_push:
  "om x = None \<Longrightarrow> x \<noteq> [] \<Longrightarrow> x \<noteq> '' '' \<Longrightarrow> iEvalToks host om n [x] f = Some (Push x f)"
  by (simp add: iEvalToks_Nil)

lemma iEvalToks_builtin:
  "om x = Some (Builtin b) \<Longrightarrow> x \<noteq> [] \<Longrightarrow> x \<noteq> '' '' \<Longrightarrow>
   iEvalToks host om n [x] f = Some (runBuiltin host b f)"
  by (simp add: iEvalToks_Nil)

lemma iEvalToks_word:
  "om x = Some (Word c) \<Longrightarrow> x \<noteq> [] \<Longrightarrow> x \<noteq> '' '' \<Longrightarrow>
   iEvalToks host om n [x] f =
     (case n of 0 \<Rightarrow> None | Suc k \<Rightarrow> iEvalToks host om k (split CHR '' '' c) f)"
  by (simp add: iEvalToks_Nil)

lemma token_cases:
  obtains (Skip) "x = [] \<or> x = '' ''"
    | (Push) "x \<noteq> []" "x \<noteq> '' ''" "om x = None"
    | (Builtin) b where "x \<noteq> []" "x \<noteq> '' ''" "om x = Some (Builtin b)"
    | (Word) c where "x \<noteq> []" "x \<noteq> '' ''" "om x = Some (Word c)"
  by (metis forthop.exhaust option.exhaust)

lemma iEvalToks_mono_Cons:
  assumes "\<And>f r. iEvalToks host om n [x] f = Some r \<Longrightarrow> iEvalToks host om m [x] f = Some r"
    and "\<And>f r. iEvalToks host om n xs f = Some r \<Longrightarrow> iEvalToks host om m xs f = Some r"
    and "iEvalToks host om n (x # xs) f = Some r"
  shows "iEvalToks host om m (x # xs) f = Some r"
  using assms(3) unfolding iEvalToks_Cons [of _ _ _ x xs]
  by (elim thenE_SomeE) (simp_all add: assms(1,2) del: iEvalToks.simps)

text \<open>More fuel never changes an outcome.\<close>

lemma iEvalToks_mono:
  "iEvalToks host om n toks f = Some r \<Longrightarrow> n \<le> m \<Longrightarrow> iEvalToks host om m toks f = Some r"
proof (induction n arbitrary: m toks f r)
  case 0
  from 0(1) show ?case
  proof (induction toks arbitrary: f r)
    case (Cons x toks)
    show ?case
      by (rule iEvalToks_mono_Cons [OF _ Cons.IH Cons.prems]; rule token_cases [where x = x and om = om])
        (simp_all add: iEvalToks_skip iEvalToks_push iEvalToks_builtin iEvalToks_word del: iEvalToks.simps(2))
  qed simp
next
  case (Suc n)
  from \<open>Suc n \<le> m\<close> obtain l where m: "m = Suc l" "n \<le> l" by (cases m) auto
  have one: "iEvalToks host om m [x] f = Some r"
    if r: "iEvalToks host om (Suc n) [x] f = Some r" for x f r
  proof (cases rule: token_cases [where x = x and om = om])
    case (Word c)
    with r have "iEvalToks host om n (split CHR '' '' c) f = Some r"
      by (simp add: iEvalToks_word del: iEvalToks.simps(2))
    then have "iEvalToks host om l (split CHR '' '' c) f = Some r"
      by (rule Suc.IH) (rule m(2))
    with Word show ?thesis by (simp add: iEvalToks_word m(1) del: iEvalToks.simps(2))
  qed (use r in \<open>simp_all add: iEvalToks_skip iEvalToks_push iEvalToks_builtin
    del: iEvalToks.simps(2)\<close>)
  from Suc.prems(1) show ?case
  proof (induction toks arbitrary: f r)
    case (Cons x toks)
    show ?case by (rule iEvalToks_mono_Cons [OF one Cons.IH Cons.prems])
  qed simp
qed

end
