(* ===== verification/ForthProps.thy ===== *)
theory ForthProps
  imports Forth
begin

text \<open>
  What the postfix evaluator of theory \<open>Forth\<close> guarantees: the stack effect of every
  operator and of whole commands, the value of a command that spells out an expression,
  the meaning of user-defined words, and which failures \<^verbatim>\<open>Eval\<close> reports and which it does not.
\<close>

section \<open>The operators on the stack they need\<close>

fun need :: "builtin \<Rightarrow> nat" where
  "need Hostname = 0"
| "need Hostbase = 1"
| "need Dup = 1"
| "need Ifelse = 3"
| "need _ = 2"

fun give :: "builtin \<Rightarrow> nat" where
  "give Swap = 2"
| "give Dup = 2"
| "give _ = 1"

lemma toInt2_snoc:
  "andThen toInt (\<lambda>x. andThen toInt (\<lambda>y. k x y)) \<lparr>stack = st @ [b, a]\<rparr> =
     (case atoi a of
        (x, Some e) \<Rightarrow> (Inl (PError (NumError e a)), \<lparr>stack = st @ [b]\<rparr>)
      | (x, None) \<Rightarrow>
          (case atoi b of
             (y, Some e) \<Rightarrow> (Inl (PError (NumError e b)), \<lparr>stack = st\<rparr>)
           | (y, None) \<Rightarrow> k x y \<lparr>stack = st\<rparr>))"
  by (simp add: toInt_snoc [of _ "st @ [b]" a] toInt_snoc [of _ st b] andThen_def
      split: prod.splits option.splits)

lemma toInt1_snoc:
  "andThen toInt k \<lparr>stack = st @ [a]\<rparr> =
     (case atoi a of
        (x, Some e) \<Rightarrow> (Inl (PError (NumError e a)), \<lparr>stack = st\<rparr>)
      | (x, None) \<Rightarrow> k x \<lparr>stack = st\<rparr>)"
  by (simp add: toInt_snoc [of _ st a] andThen_def split: prod.splits option.splits)

lemma Pop1_snoc: "andThen Pop k \<lparr>stack = st @ [a]\<rparr> = k a \<lparr>stack = st\<rparr>"
  by (simp add: andThen_def)

lemma Pop2_snoc:
  "andThen Pop (\<lambda>x. andThen Pop (\<lambda>y. k x y)) \<lparr>stack = st @ [b, a]\<rparr> = k a b \<lparr>stack = st\<rparr>"
  using Pop1_snoc [of "\<lambda>x. andThen Pop (\<lambda>y. k x y)" "st @ [b]" a] Pop1_snoc [of "k a" st b] by simp

lemma toInt_Pop2_snoc:
  "andThen toInt (\<lambda>x. andThen Pop (\<lambda>y. andThen Pop (\<lambda>z. k x y z))) \<lparr>stack = st @ [c, b, a]\<rparr> =
     (case atoi a of
        (x, Some e) \<Rightarrow> (Inl (PError (NumError e a)), \<lparr>stack = st @ [c, b]\<rparr>)
      | (x, None) \<Rightarrow> k x b c \<lparr>stack = st\<rparr>)"
  using toInt1_snoc [of "\<lambda>x. andThen Pop (\<lambda>y. andThen Pop (\<lambda>z. k x y z))" "st @ [c, b]" a]
  by (simp add: Pop2_snoc split: prod.splits option.splits)

lemma snoc_shapes:
  "1 \<le> length xs \<Longrightarrow> \<exists>st a. xs = st @ [a]"
  "2 \<le> length xs \<Longrightarrow> \<exists>st b a. xs = st @ [b, a]"
  "3 \<le> length xs \<Longrightarrow> \<exists>st c b a. xs = st @ [c, b, a]"
proof -
  have one: "\<exists>st a. xs = st @ [a]" if "1 \<le> length xs" for xs :: "'b list"
    using that by (cases xs rule: rev_cases) auto
  have two: "\<exists>st b a. xs = st @ [b, a]" if "2 \<le> length xs" for xs :: "'b list"
  proof -
    from that obtain st a where "xs = st @ [a]" using one [of xs] by auto
    moreover from this that obtain st' b where "st = st' @ [b]" using one [of st] by auto
    ultimately show ?thesis by auto
  qed
  show "1 \<le> length xs \<Longrightarrow> \<exists>st a. xs = st @ [a]" by (rule one)
  show "2 \<le> length xs \<Longrightarrow> \<exists>st b a. xs = st @ [b, a]" by (rule two)
  assume "3 \<le> length xs"
  then obtain st a where "xs = st @ [a]" using one [of xs] by auto
  moreover from this \<open>3 \<le> length xs\<close> obtain st' c b where "st = st' @ [c, b]"
    using two [of st] by auto
  ultimately show "\<exists>st c b a. xs = st @ [c, b, a]" by auto
qed

lemma andThen_Push [simp]: "andThen (Push s) k f = k () (f\<lparr>stack := stack f @ [s]\<rparr>)"
  by (simp add: andThen_def)

lemmas op_apply = toInt2_snoc toInt1_snoc Pop2_snoc Pop1_snoc toInt_Pop2_snoc

text \<open>
  The contract of an operator: on a stack that is deep enough it never finds the stack
  empty, it replaces what it needs by what it gives, and it neither reads nor changes what
  lies below.
\<close>

locale stack_machine =
  fixes exec :: "'op \<Rightarrow> unit forth"
    and needs gives :: "'op \<Rightarrow> nat"
  assumes frame: "needs b \<le> length xs \<Longrightarrow>
      exec b \<lparr>stack = ys @ xs\<rparr> =
        (fst (exec b \<lparr>stack = xs\<rparr>), \<lparr>stack = ys @ stack (snd (exec b \<lparr>stack = xs\<rparr>))\<rparr>)"
    and effect: "length xs = needs b \<Longrightarrow> exec b \<lparr>stack = xs\<rparr> = (Inr (), g) \<Longrightarrow>
      length (stack g) = gives b"
    and no_underflow: "length xs = needs b \<Longrightarrow> fst (exec b \<lparr>stack = xs\<rparr>) \<noteq> Inl (PError EmptyStack)"
begin

lemma exec_split:
  assumes "needs b \<le> length xs"
  obtains ys zs where "xs = ys @ zs" and "length zs = needs b"
    and "exec b \<lparr>stack = xs\<rparr> =
      (fst (exec b \<lparr>stack = zs\<rparr>), \<lparr>stack = ys @ stack (snd (exec b \<lparr>stack = zs\<rparr>))\<rparr>)"
proof -
  let ?ys = "take (length xs - needs b) xs" and ?zs = "drop (length xs - needs b) xs"
  have l: "length ?zs = needs b" using assms by simp
  show thesis
  proof (rule that)
    show "exec b \<lparr>stack = xs\<rparr> =
        (fst (exec b \<lparr>stack = ?zs\<rparr>), \<lparr>stack = ?ys @ stack (snd (exec b \<lparr>stack = ?zs\<rparr>))\<rparr>)"
      using frame [of b ?zs ?ys] l by simp
  qed (use l in simp_all)
qed

lemma exec_depth:
  assumes "needs b \<le> length xs" and "exec b \<lparr>stack = xs\<rparr> = (Inr u, g)"
  shows "length (stack g) = length xs - needs b + gives b"
proof -
  from assms(1) obtain ys zs where xs: "xs = ys @ zs" "length zs = needs b"
    and e: "exec b \<lparr>stack = xs\<rparr> =
      (fst (exec b \<lparr>stack = zs\<rparr>), \<lparr>stack = ys @ stack (snd (exec b \<lparr>stack = zs\<rparr>))\<rparr>)"
    by (rule exec_split)
  from e assms(2) have "exec b \<lparr>stack = zs\<rparr> = (Inr (), snd (exec b \<lparr>stack = zs\<rparr>))"
    and g: "g = \<lparr>stack = ys @ stack (snd (exec b \<lparr>stack = zs\<rparr>))\<rparr>"
    by (simp_all add: prod_eq_iff)
  with xs(2) have "length (stack (snd (exec b \<lparr>stack = zs\<rparr>))) = gives b" by (rule_tac effect)
  with g xs show ?thesis by simp
qed

lemma exec_no_underflow:
  assumes "needs b \<le> length xs" shows "fst (exec b \<lparr>stack = xs\<rparr>) \<noteq> Inl (PError EmptyStack)"
  using assms by (elim exec_split) (metis fst_conv no_underflow)

end

lemma builtin_frame:
  assumes "need b \<le> length xs"
  shows "runBuiltin host b \<lparr>stack = ys @ xs\<rparr> =
    (fst (runBuiltin host b \<lparr>stack = xs\<rparr>),
     \<lparr>stack = ys @ stack (snd (runBuiltin host b \<lparr>stack = xs\<rparr>))\<rparr>)"
proof -
  have two: ?thesis if "need b = 2"
  proof -
    from that assms obtain st c a where xs: "xs = st @ [c, a]"
      using snoc_shapes(2) [of xs] by auto
    from that show ?thesis
      by (cases b)
        (simp_all add: xs op_defs op_apply append_assoc [symmetric] lift_rt_def
          split: prod.splits option.splits sum.splits del: append_assoc)
  qed
  consider "need b = 0" | "need b = 1" | "need b = 2" | "need b = 3"
    by (cases b) auto
  then show ?thesis
  proof cases
    case 1
    then show ?thesis by (cases b) (simp_all add: op_defs split: option.splits)
  next
    case 2
    with assms obtain st a where xs: "xs = st @ [a]" using snoc_shapes(1) [of xs] by auto
    from 2 show ?thesis
      by (cases b)
        (simp_all add: xs op_defs op_apply append_assoc [symmetric] del: append_assoc)
  next
    case 4
    with assms obtain st d c a where xs: "xs = st @ [d, c, a]"
      using snoc_shapes(3) [of xs] by auto
    from 4 show ?thesis
      by (cases b)
        (simp_all add: xs op_defs op_apply append_assoc [symmetric]
          split: prod.splits option.splits del: append_assoc)
  qed (rule two)
qed

lemma list_of_length:
  "length xs = 1 \<Longrightarrow> \<exists>a. xs = [a]"
  "length xs = 2 \<Longrightarrow> \<exists>b a. xs = [b, a]"
  "length xs = 3 \<Longrightarrow> \<exists>c b a. xs = [c, b, a]"
  by (auto simp: length_Suc_conv numeral_2_eq_2 numeral_3_eq_3)

lemmas op_apply0 = op_apply [of _ "[]", simplified]

lemma builtin_result:
  assumes "length xs = need b"
  shows "case runBuiltin host b \<lparr>stack = xs\<rparr> of
      (Inr _, g) \<Rightarrow> length (stack g) = give b | (Inl p, g) \<Rightarrow> p \<noteq> PError EmptyStack"
proof -
  have two: ?thesis if "need b = 2"
  proof -
    from that assms obtain c a where xs: "xs = [c, a]" using list_of_length(2) [of xs] by auto
    from that show ?thesis
      by (cases b)
        (auto simp: xs op_defs op_apply0 lift_rt_def split: prod.splits option.splits sum.splits)
  qed
  consider "need b = 0" | "need b = 1" | "need b = 2" | "need b = 3" by (cases b) auto
  then show ?thesis
  proof cases
    case 1
    then show ?thesis using assms by (cases b) (simp_all add: op_defs split: option.splits)
  next
    case 2
    with assms obtain a where xs: "xs = [a]" using list_of_length(1) [of xs] by auto
    from 2 show ?thesis by (cases b) (simp_all add: xs op_defs op_apply0)
  next
    case 4
    with assms obtain d c a where xs: "xs = [d, c, a]" using list_of_length(3) [of xs] by auto
    from 4 show ?thesis
      by (cases b) (simp_all add: xs op_defs op_apply0 split: prod.splits option.splits)
  qed (rule two)
qed

interpretation builtins: stack_machine "runBuiltin host" need give for host
proof
  fix b :: builtin and xs :: "string list" and g :: forthstack
  assume "length xs = need b"
  note r = builtin_result [OF this, of host]
  show "runBuiltin host b \<lparr>stack = xs\<rparr> = (Inr (), g) \<Longrightarrow> length (stack g) = give b"
    using r by simp
  show "fst (runBuiltin host b \<lparr>stack = xs\<rparr>) \<noteq> Inl (PError EmptyStack)"
    using r by (auto split: prod.splits)
qed (rule builtin_frame)

section \<open>The stack effect of a command\<close>

text \<open>
  A static check of a command: the depth the stack has after it, if every operator finds the
  arguments it needs and words nest no deeper than the fuel.
\<close>

fun depthToks :: "opmap \<Rightarrow> nat \<Rightarrow> nat \<Rightarrow> string list \<Rightarrow> nat option" where
  "depthToks om n d [] = Some d"
| "depthToks om n d (val # vals) =
     (if length val = 0 \<or> val = '' '' then depthToks om n d vals
      else (case om val of
        None \<Rightarrow> depthToks om n (Suc d) vals
      | Some (Builtin b) \<Rightarrow>
          if d < need b then None else depthToks om n (d - need b + give b) vals
      | Some (Word command) \<Rightarrow>
          (case n of
             0 \<Rightarrow> None
           | Suc k \<Rightarrow>
               (case depthToks om k d (split CHR '' '' command) of
                  None \<Rightarrow> None
                | Some d2 \<Rightarrow> depthToks om n d2 vals))))"

definition depth_ok :: "((forth_panic + unit) \<times> forthstack) option \<Rightarrow> nat \<Rightarrow> bool" where
  "depth_ok r d \<longleftrightarrow> (case r of
     None \<Rightarrow> False
   | Some (Inr _, g) \<Rightarrow> length (stack g) = d
   | Some (Inl p, g) \<Rightarrow> p \<noteq> PError EmptyStack)"

lemma depth_ok_thenE:
  "depth_ok r d \<Longrightarrow> (\<And>g. length (stack g) = d \<Longrightarrow> depth_ok (k g) e) \<Longrightarrow> depth_ok (thenE r k) e"
  by (cases r rule: thenE_cases) (auto simp: depth_ok_def)

lemma depth_ok_builtin:
  assumes "need b \<le> length (stack f)"
  shows "depth_ok (Some (runBuiltin host b f)) (length (stack f) - need b + give b)"
proof -
  obtain xs where f: "f = \<lparr>stack = xs\<rparr>" by (cases f)
  show ?thesis
    using builtins.exec_depth [of b xs host] builtins.exec_no_underflow [of b xs host] assms
    by (cases "runBuiltin host b \<lparr>stack = xs\<rparr>") (auto simp: f depth_ok_def split: sum.splits)
qed

lemma depthToks_sound:
  "depthToks om n d toks = Some e \<Longrightarrow> length (stack f) = d \<Longrightarrow>
   depth_ok (iEvalToks host om n toks f) e"
proof (induction om n d toks arbitrary: e f rule: depthToks.induct)
  case (1 om n d)
  then show ?case by (simp add: depth_ok_def)
next
  case (2 om n d val vals)
  show ?case
  proof (cases rule: token_cases [where x = val and om = om])
    case Skip
    with 2 show ?thesis by auto
  next
    case Push
    with 2 show ?thesis by simp
  next
    case (Builtin b)
    with 2(6) have b: "need b \<le> d" "depthToks om n (d - need b + give b) vals = Some e"
      by (simp_all split: if_splits)
    have "depth_ok (Some (runBuiltin host b f)) (d - need b + give b)"
      using depth_ok_builtin [of b f host] b(1) 2(7) by simp
    then have "depth_ok (thenE (Some (runBuiltin host b f)) (iEvalToks host om n vals)) e"
      by (rule depth_ok_thenE) (use 2(3) Builtin b in simp)
    with Builtin show ?thesis by simp
  next
    case (Word c)
    with 2(6) obtain k d2 where k: "n = Suc k"
      and d2: "depthToks om k d (split CHR '' '' c) = Some d2" "depthToks om n d2 vals = Some e"
      by (auto split: nat.splits option.splits)
    have "depth_ok (iEvalToks host om k (split CHR '' '' c) f) d2"
      using 2(4) Word k d2(1) 2(7) by simp
    then have "depth_ok (thenE (iEvalToks host om k (split CHR '' '' c) f) (iEvalToks host om n vals)) e"
      by (rule depth_ok_thenE) (use 2(5) Word k d2 in simp)
    with Word k show ?thesis by simp
  qed
qed

section \<open>Commands that spell out expressions\<close>

text \<open>
  The expressions a node description denotes, their value, and their postfix form. The value
  of an operator's right argument is converted first, as the code pops it first.
\<close>

datatype fexp =
    Lit string
  | Host
  | HostBase fexp
  | Arith builtin fexp fexp
  | Concat fexp fexp
  | Cond fexp fexp fexp

fun opName :: "builtin \<Rightarrow> string" where
  "opName Plus = ''+''"
| "opName Sub = ''-''"
| "opName Times = ''*''"
| "opName Div = ''/''"
| "opName Mod = ''%''"
| "opName Swap = ''swap''"
| "opName Ifelse = ''ifelse''"
| "opName Hostname = ''hostname''"
| "opName Hostbase = ''hostbase''"
| "opName Strcat = ''strcat''"
| "opName Roundup = ''roundup''"
| "opName Dup = ''dup''"

fun compile :: "fexp \<Rightarrow> string list" where
  "compile (Lit s) = [s]"
| "compile Host = [opName Hostname]"
| "compile (HostBase e) = compile e @ [opName Hostbase]"
| "compile (Arith b y x) = compile y @ compile x @ [opName b]"
| "compile (Concat y x) = compile y @ compile x @ [opName Strcat]"
| "compile (Cond z y x) = compile z @ compile y @ compile x @ [opName Ifelse]"

fun arith :: "builtin \<Rightarrow> goint \<Rightarrow> goint \<Rightarrow> runtime_error + goint" where
  "arith Plus y x = Inr (y + x)"
| "arith Sub y x = Inr (y - x)"
| "arith Times y x = Inr (y * x)"
| "arith Div y x = quot y x"
| "arith Mod y x = remd y x"
| "arith Roundup y x = bindE (quot (y + x - 1) x) (\<lambda>q. Inr (q * x))"
| "arith _ y x = Inr 0"

definition isArith :: "builtin \<Rightarrow> bool" where
  "isArith b \<longleftrightarrow> b \<in> {Plus, Sub, Times, Div, Mod, Roundup}"

definition asInt :: "string \<Rightarrow> forth_panic + goint" where
  "asInt s = (case atoi s of
     (i, None) \<Rightarrow> Inr i | (i, Some e) \<Rightarrow> Inl (PError (NumError e s)))"

definition rt :: "runtime_error + 'a \<Rightarrow> forth_panic + 'a" where
  "rt r = (case r of Inl e \<Rightarrow> Inl (PRuntime e) | Inr a \<Rightarrow> Inr a)"

fun evalF :: "string option \<Rightarrow> fexp \<Rightarrow> forth_panic + string" where
  "evalF host (Lit s) = Inr s"
| "evalF host Host = (case host of None \<Rightarrow> Inl (PString ''No hostname'') | Some h \<Rightarrow> Inr h)"
| "evalF host (HostBase e) =
     bindE (evalF host e) (\<lambda>v. Inr (trimLeft v ''abcdefghijklmnopqrstuvwxyz -''))"
| "evalF host (Arith b e1 e2) =
     bindE (evalF host e1) (\<lambda>v1. bindE (evalF host e2) (\<lambda>v2.
     bindE (asInt v2) (\<lambda>x. bindE (asInt v1) (\<lambda>y.
     bindE (rt (arith b y x)) (\<lambda>z. Inr (itoa z))))))"
| "evalF host (Concat e1 e2) =
     bindE (evalF host e1) (\<lambda>v1. bindE (evalF host e2) (\<lambda>v2. Inr (v1 @ v2)))"
| "evalF host (Cond e1 e2 e3) =
     bindE (evalF host e1) (\<lambda>v1. bindE (evalF host e2) (\<lambda>v2. bindE (evalF host e3) (\<lambda>v3.
     bindE (asInt v3) (\<lambda>x. Inr (if x \<noteq> 0 then v2 else v1)))))"

definition stdops :: "opmap \<Rightarrow> bool" where
  "stdops om \<longleftrightarrow> (\<forall>b. om (opName b) = Some (Builtin b))"

fun wfexp :: "opmap \<Rightarrow> fexp \<Rightarrow> bool" where
  "wfexp om (Lit s) \<longleftrightarrow> s \<noteq> [] \<and> CHR '' '' \<notin> set s \<and> om s = None"
| "wfexp om Host \<longleftrightarrow> True"
| "wfexp om (HostBase e) \<longleftrightarrow> wfexp om e"
| "wfexp om (Arith b e1 e2) \<longleftrightarrow> isArith b \<and> wfexp om e1 \<and> wfexp om e2"
| "wfexp om (Concat e1 e2) \<longleftrightarrow> wfexp om e1 \<and> wfexp om e2"
| "wfexp om (Cond e1 e2 e3) \<longleftrightarrow> wfexp om e1 \<and> wfexp om e2 \<and> wfexp om e3"

lemma stdops_opmap0 [simp]: "stdops opmap0"
proof -
  have "opmap0 (opName b) = Some (Builtin b)" for b by (cases b) (simp_all add: opmap0_def)
  then show ?thesis by (simp add: stdops_def)
qed

lemma opName_token: "opName b \<noteq> []" "CHR '' '' \<notin> set (opName b)"
  by (cases b; simp)+

lemma iEvalToks_opName:
  "stdops om \<Longrightarrow> iEvalToks host om n [opName b] f = Some (runBuiltin host b f)"
  by (rule iEvalToks_builtin) (use opName_token [of b] in \<open>auto simp: stdops_def\<close>)

text \<open>The outcome of a command that computes one value on top of any stack.\<close>

definition computes :: "((forth_panic + unit) \<times> forthstack) option \<Rightarrow> string list \<Rightarrow> forth_panic + string \<Rightarrow> bool"
  where
  "computes r st v \<longleftrightarrow> (case v of
     Inr s \<Rightarrow> r = Some (Inr (), \<lparr>stack = st @ [s]\<rparr>)
   | Inl p \<Rightarrow> (\<exists>g. r = Some (Inl p, g)))"

lemma computes_thenE:
  "computes r st v \<Longrightarrow> (\<And>s. v = Inr s \<Longrightarrow> computes (k \<lparr>stack = st @ [s]\<rparr>) st' (w s)) \<Longrightarrow>
   computes (thenE r k) st' (bindE v w)"
  by (auto simp: computes_def split: sum.splits)

lemma runBuiltin_arith:
  assumes "isArith b"
  shows "computes (Some (runBuiltin host b \<lparr>stack = st @ [v1, v2]\<rparr>)) st
    (bindE (asInt v2) (\<lambda>x. bindE (asInt v1) (\<lambda>y. bindE (rt (arith b y x)) (\<lambda>z. Inr (itoa z)))))"
  using assms
  by (cases b)
    (auto simp: isArith_def computes_def op_defs op_apply asInt_def rt_def lift_rt_def add.commute
       mult.commute bindE_def split: prod.splits option.splits sum.splits)

lemma iEvalToks_compile:
  assumes "stdops om"
  shows "wfexp om e \<Longrightarrow> computes (iEvalToks host om n (compile e) \<lparr>stack = st\<rparr>) st (evalF host e)"
proof (induction e arbitrary: st)
  case (Lit s)
  then have "s \<noteq> '' ''" by auto
  with Lit show ?case by (simp add: computes_def iEvalToks_push del: iEvalToks.simps(2))
next
  case Host
  then show ?case
    by (simp add: computes_def iEvalToks_opName [OF assms] op_defs
        del: iEvalToks.simps(2) opName.simps split: option.splits)
next
  case (HostBase e)
  show ?case
    unfolding compile.simps evalF.simps iEvalToks_append [of _ _ _ "compile e"]
    by (rule computes_thenE [OF HostBase.IH])
      (use HostBase.prems in \<open>simp_all add: iEvalToks_opName [OF assms] computes_def op_defs
         Pop1_snoc del: iEvalToks.simps(2) opName.simps\<close>)
next
  case (Arith b e1 e2)
  show ?case
    unfolding compile.simps evalF.simps iEvalToks_append [of _ _ _ "compile e1"]
      iEvalToks_append [of _ _ _ "compile e2"]
    by (rule computes_thenE [OF Arith.IH(1)], simp add: Arith.prems [simplified],
        rule computes_thenE [OF Arith.IH(2)])
      (use Arith.prems runBuiltin_arith [of b host st] in
        \<open>simp_all add: iEvalToks_opName [OF assms] del: iEvalToks.simps(2)\<close>)
next
  case (Concat e1 e2)
  show ?case
    unfolding compile.simps evalF.simps iEvalToks_append [of _ _ _ "compile e1"]
      iEvalToks_append [of _ _ _ "compile e2"]
    by (rule computes_thenE [OF Concat.IH(1)], simp add: Concat.prems [simplified],
        rule computes_thenE [OF Concat.IH(2)])
      (use Concat.prems in \<open>simp_all add: iEvalToks_opName [OF assms] computes_def op_defs
         Pop2_snoc del: iEvalToks.simps(2) opName.simps\<close>)
next
  case (Cond e1 e2 e3)
  show ?case
    unfolding compile.simps evalF.simps iEvalToks_append [of _ _ _ "compile e1"]
      iEvalToks_append [of _ _ _ "compile e2"] iEvalToks_append [of _ _ _ "compile e3"]
    by (rule computes_thenE [OF Cond.IH(1)], simp add: Cond.prems [simplified],
        rule computes_thenE [OF Cond.IH(2)], simp add: Cond.prems [simplified],
        rule computes_thenE [OF Cond.IH(3)])
      (use Cond.prems in \<open>simp_all add: iEvalToks_opName [OF assms] computes_def op_defs
         toInt_Pop2_snoc asInt_def bindE_def del: iEvalToks.simps(2) opName.simps
         split: prod.splits option.splits\<close>)
qed

lemma compile_tokens: "wfexp om e \<Longrightarrow> t \<in> set (compile e) \<Longrightarrow> t \<noteq> [] \<and> CHR '' '' \<notin> set t"
  by (induction e) (auto simp: opName_token simp del: opName.simps)

lemma compile_not_Nil [simp]: "compile e \<noteq> []"
  by (induction e) auto

lemma iEval_join:
  "ts \<noteq> [] \<Longrightarrow> \<forall>t\<in>set ts. CHR '' '' \<notin> set t \<Longrightarrow>
   iEval host om n (join CHR '' '' ts) f = iEvalToks host om n ts f"
  by (simp add: iEval_def blank.pieces_glue)

lemma Eval_compile_value:
  assumes "stdops om" and "wfexp om e"
  shows "case evalF host e of
      Inr v \<Rightarrow> Eval host om n (join CHR '' '' (compile e)) f = Some (Returned v None, f)
    | Inl p \<Rightarrow> \<exists>g. Eval host om n (join CHR '' '' (compile e)) f = Some (errRecover p, g)"
proof -
  have "iEval host om n (join CHR '' '' (compile e)) f = iEvalToks host om n (compile e) f"
    using compile_tokens [OF assms(2)] by (simp add: iEval_join)
  moreover have "computes (iEvalToks host om n (compile e) f) (stack f) (evalF host e)"
    using iEvalToks_compile [OF assms, of host n "stack f"] by (cases f) simp
  ultimately show ?thesis
    by (cases f) (auto simp: computes_def Eval_def split: sum.splits)
qed

text \<open>
  C20. A command that is the postfix form of an expression has the value of the expression,
  leaves the stack below as it was, and reports the expression's first failure.
\<close>

theorem Eval_compile:
  assumes "stdops om" and "wfexp om e"
  shows "case evalF host e of
      Inr v \<Rightarrow> Eval host om n (join CHR '' '' (compile e)) f = Some (Returned v None, f)
    | Inl p \<Rightarrow> \<exists>g. Eval host om n (join CHR '' '' (compile e)) f = Some (errRecover p, g)"
  using assms by (rule Eval_compile_value)

theorem Eval_compile_witness:
  "Eval (Some ''sb43'') opmap0 0 ''hostname hostbase 20 %'' New = Some (Returned ''3'' None, New)"
proof -
  let ?e = "Arith Mod (HostBase Host) (Lit ''20'')"
  have wf: "wfexp opmap0 ?e" by (simp add: isArith_def opmap0_def)
  have j: "join CHR '' '' (compile ?e) = ''hostname hostbase 20 %''" by simp
  have v: "evalF (Some ''sb43'') ?e = Inr ''3''"
    by (simp add: trimLeft_def asInt_def rt_def atoi_def parseUint_def isDigit_def digitVal_def
        signedNum_def remd_def itoa_def digits.simps)
  show ?thesis using Eval_compile [OF stdops_opmap0 wf, of "Some ''sb43''" 0 New]
    unfolding j v by simp
qed

text \<open>
  C35. A command that passes the static check returns a value or reports an error other than
  the empty stack, and leaves as many elements as the check says.
\<close>

theorem Eval_depth:
  assumes "depthToks om n (length (stack f)) (split CHR '' '' s) = Some (Suc e)"
  shows "\<exists>r g. Eval host om n s f = Some (r, g) \<and> r \<noteq> Returned [] (Some EmptyStack) \<and>
    (\<forall>v. r = Returned v None \<longrightarrow> length (stack g) = e)"
proof -
  have d: "depth_ok (iEval host om n s f) (Suc e)"
    unfolding iEval_def by (rule depthToks_sound [OF assms refl])
  show ?thesis
  proof (cases "iEval host om n s f" rule: thenE_cases)
    case Missing
    with d show ?thesis by (simp add: depth_ok_def)
  next
    case (Stop p g)
    with d have "p \<noteq> PError EmptyStack" by (simp add: depth_ok_def)
    then have "errRecover p \<noteq> Returned [] (Some EmptyStack)" "errRecover p \<noteq> Returned v None" for v
      by (cases p; simp)+
    with Stop show ?thesis by (simp add: Eval_def)
  next
    case (Go g)
    with d have "length (stack g) = Suc e" by (simp add: depth_ok_def)
    moreover from this have "stack g \<noteq> []" by auto
    ultimately show ?thesis using Go by (simp add: Eval_def Pop_def)
  qed
qed

theorem Eval_depth_witness:
  "\<exists>r g. Eval None opmap0 0 ''12 dup 20 / swap 20 % dup ifelse'' New = Some (r, g) \<and>
     r \<noteq> Returned [] (Some EmptyStack) \<and> (\<forall>v. r = Returned v None \<longrightarrow> length (stack g) = 0)"
  by (rule Eval_depth) (simp add: New_def opmap0_def)

section \<open>Words\<close>

text \<open>
  Using a word that \<^verbatim>\<open>NewWord\<close> defined is the same as writing its command in its place,
  in any context that terminates.
\<close>

theorem NewWord_inline:
  assumes "w \<noteq> []" and "w \<noteq> '' ''"
  shows "(\<exists>n. iEvalToks host (NewWord om w c) n (xs @ w # ys) f = Some r) \<longleftrightarrow>
         (\<exists>n. iEvalToks host (NewWord om w c) n (xs @ split CHR '' '' c @ ys) f = Some r)"
    (is "?L \<longleftrightarrow> ?R")
proof -
  let ?om = "NewWord om w c"
  have w: "iEvalToks host ?om (Suc n) [w] g = iEvalToks host ?om n (split CHR '' '' c) g" for n g
    using assms by (simp add: iEvalToks_word NewWord_def del: iEvalToks.simps(2))
  have up: "iEvalToks host ?om (Suc n) (xs @ w # ys) f =
      thenE (iEvalToks host ?om (Suc n) xs f) (\<lambda>g.
      thenE (iEvalToks host ?om n (split CHR '' '' c) g) (\<lambda>h. iEvalToks host ?om (Suc n) ys h))" for n
    by (simp add: iEvalToks_append iEvalToks_Cons [of _ _ _ w ys] w del: iEvalToks.simps(2))
  have down: "iEvalToks host ?om n (xs @ split CHR '' '' c @ ys) f =
      thenE (iEvalToks host ?om n xs f) (\<lambda>g.
      thenE (iEvalToks host ?om n (split CHR '' '' c) g) (\<lambda>h. iEvalToks host ?om n ys h))" for n
    by (simp add: iEvalToks_append)
  show ?thesis
  proof
    assume ?L
    then obtain n where "iEvalToks host ?om n (xs @ w # ys) f = Some r" by blast
    then have "iEvalToks host ?om (Suc n) (xs @ w # ys) f = Some r"
      by (rule iEvalToks_mono) simp
    then have "iEvalToks host ?om (Suc n) (xs @ split CHR '' '' c @ ys) f = Some r"
      unfolding up down
      by (elim thenE_SomeE) (simp_all add: iEvalToks_mono [of _ _ n _ _ _ "Suc n"])
    then show ?R by blast
  next
    assume ?R
    then obtain n where "iEvalToks host ?om n (xs @ split CHR '' '' c @ ys) f = Some r" by blast
    then have "iEvalToks host ?om (Suc n) (xs @ w # ys) f = Some r"
      unfolding up down
      by (elim thenE_SomeE) (simp_all add: iEvalToks_mono [of _ _ n _ _ _ "Suc n"])
    then show ?L by blast
  qed
qed

theorem NewWord_inline_witness:
  "(\<exists>n. iEvalToks None (NewWord opmap0 ''dd'' ''dup'') n ([''1''] @ ''dd'' # [''+'']) New =
        Some (Inr (), \<lparr>stack = [''2'']\<rparr>)) \<longleftrightarrow>
   (\<exists>n. iEvalToks None (NewWord opmap0 ''dd'' ''dup'') n ([''1''] @ split CHR '' '' ''dup'' @ [''+'']) New =
        Some (Inr (), \<lparr>stack = [''2'']\<rparr>))"
  by (rule NewWord_inline) simp_all

definition isWord :: "opmap \<Rightarrow> string \<Rightarrow> bool" where
  "isWord om t \<longleftrightarrow> (\<exists>c. om t = Some (Word c))"

definition ranked :: "opmap \<Rightarrow> (string \<Rightarrow> nat) \<Rightarrow> bool" where
  "ranked om rk \<longleftrightarrow>
     (\<forall>w c. om w = Some (Word c) \<longrightarrow> (\<forall>t\<in>set (split CHR '' '' c). isWord om t \<longrightarrow> rk t < rk w))"

lemma thenE_total:
  "\<exists>x. r = Some x \<Longrightarrow> (\<And>g. \<exists>x. k g = Some x) \<Longrightarrow> \<exists>x. thenE r k = Some x"
  by (cases r rule: thenE_cases) auto

lemma iEvalToks_total_one:
  assumes "\<And>c f. om x = Some (Word c) \<Longrightarrow>
      \<exists>k. n = Suc k \<and> (\<exists>r. iEvalToks host om k (split CHR '' '' c) f = Some r)"
  shows "\<exists>r. iEvalToks host om n [x] f = Some r"
proof (cases rule: token_cases [where x = x and om = om])
  case (Word c)
  with assms [OF Word(3), of f] show ?thesis
    by (auto simp: iEvalToks_word simp del: iEvalToks.simps(2))
qed (simp_all add: iEvalToks_skip iEvalToks_push iEvalToks_builtin del: iEvalToks.simps(2))

text \<open>
  C38. Evaluation ends within the fuel when words are ranked: every word's command only uses
  words of lower rank.
\<close>

theorem iEvalToks_terminates:
  assumes "ranked om rk" and "\<forall>t\<in>set toks. isWord om t \<longrightarrow> rk t < n"
  shows "\<exists>r. iEvalToks host om n toks f = Some r"
  using assms(2)
proof (induction n arbitrary: toks f)
  case 0
  then show ?case
  proof (induction toks arbitrary: f)
    case (Cons x toks)
    show ?case unfolding iEvalToks_Cons [of _ _ _ x toks]
      by (rule thenE_total [OF iEvalToks_total_one Cons.IH])
        (use Cons.prems in \<open>auto simp: isWord_def\<close>)
  qed simp
next
  case (Suc n)
  from Suc.prems show ?case
  proof (induction toks arbitrary: f)
    case (Cons x toks)
    have "\<exists>k. Suc n = Suc k \<and> (\<exists>r. iEvalToks host om k (split CHR '' '' c) f = Some r)"
      if c: "om x = Some (Word c)" for c f
    proof -
      have "rk x < Suc n" using Cons.prems c by (auto simp: isWord_def)
      then have "\<forall>t\<in>set (split CHR '' '' c). isWord om t \<longrightarrow> rk t < n"
        using assms(1) c unfolding ranked_def by fastforce
      from Suc.IH [OF this] show ?thesis by simp
    qed
    then show ?case unfolding iEvalToks_Cons [of _ _ _ x toks]
      by (rule thenE_total [OF iEvalToks_total_one Cons.IH]) (use Cons.prems in auto)
  qed simp
qed

theorem iEvalToks_terminates_witness:
  "\<exists>r. iEvalToks None (NewWord opmap0 ''dd'' ''dup'') 1 [''1'', ''dd'', ''+''] New = Some r"
proof (rule iEvalToks_terminates)
  show "ranked (NewWord opmap0 ''dd'' ''dup'') (\<lambda>_. 0)"
    by (auto simp: ranked_def isWord_def NewWord_def opmap0_def)
qed simp

text \<open>
  A word whose command calls it again, after at most some literals, never returns: no amount
  of fuel is enough. In the program this recursion ends in a stack overflow.
\<close>

lemma NewWord_recursive_diverges:
  assumes "om w = Some (Word c)" "w \<noteq> []" "w \<noteq> '' ''"
    and "split CHR '' '' c = xs @ w # ys" and "\<forall>x\<in>set xs. om x = None"
  shows "iEvalToks host om n [w] f = None"
proof (induction n arbitrary: f)
  case 0
  with assms show ?case by (simp add: iEvalToks_word del: iEvalToks.simps(2))
next
  case (Suc n)
  have "\<exists>g. iEvalToks host om n xs f = Some (Inr (), g)" for f
    using assms(5) by (induction xs arbitrary: f) auto
  then obtain g where "iEvalToks host om n xs f = Some (Inr (), g)" by blast
  then have "iEvalToks host om n (xs @ w # ys) f = None"
    by (simp add: iEvalToks_append iEvalToks_Cons [of _ _ _ w ys] Suc del: iEvalToks.simps(2))
  with assms show ?case by (simp add: iEvalToks_word del: iEvalToks.simps(2))
qed

section \<open>Failures\<close>

lemma builtin_panics:
  assumes "runBuiltin host b f = (Inl p, g)"
  shows "(\<exists>e. p = PError e) \<or> p = PRuntime DivideByZero \<or> (p = PString ''No hostname'' \<and> host = None)"
proof -
  have int: "toInt f = (Inl p, g) \<Longrightarrow> \<exists>e. p = PError e" for f g
    by (auto simp: toInt_def andThen_def Pop_def split: prod.splits sum.splits option.splits if_splits)
  have pop: "Pop f = (Inl p, g) \<Longrightarrow> \<exists>e. p = PError e" for f g
    by (auto simp: Pop_def split: if_splits)
  have quot: "quot y x = Inl e \<Longrightarrow> e = DivideByZero" for y x :: goint and e
    by (auto simp: quot_def split: if_splits)
  have remd: "remd y x = Inl e \<Longrightarrow> e = DivideByZero" for y x :: goint and e
    by (auto simp: remd_def split: if_splits)
  show ?thesis
    using assms
    by (cases b)
      (auto simp: op_defs andThen_def lift_rt_def dest: int pop quot remd
        split: prod.splits sum.splits option.splits if_splits)
qed

lemma iEvalToks_panics:
  "iEvalToks host om n toks f = Some (Inl p, g) \<Longrightarrow>
   (\<exists>e. p = PError e) \<or> p = PRuntime DivideByZero \<or> (p = PString ''No hostname'' \<and> host = None)"
proof (induction host om n toks f arbitrary: g rule: iEvalToks.induct)
  case (2 host om n val vals f)
  from 2(3) consider
      (head) "iEvalToks host om n [val] f = Some (Inl p, g)"
    | (rest) h where "iEvalToks host om n [val] f = Some (Inr (), h)"
        "iEvalToks host om n vals h = Some (Inl p, g)"
    unfolding iEvalToks_Cons [of _ _ _ val vals] by (elim thenE_SomeE) auto
  then show ?case
  proof cases
    case head
    then show ?thesis
    proof (cases rule: token_cases [where x = val and om = om])
      case (Builtin b)
      with head show ?thesis
        by (simp add: iEvalToks_builtin builtin_panics del: iEvalToks.simps(2))
    next
      case (Word c)
      with head obtain k where "n = Suc k" "iEvalToks host om k (split CHR '' '' c) f = Some (Inl p, g)"
        by (auto simp: iEvalToks_word simp del: iEvalToks.simps(2) split: nat.splits)
      with Word 2(1) show ?thesis by auto
    qed (simp_all add: iEvalToks_skip iEvalToks_push del: iEvalToks.simps(2))
  next
    case rest
    then show ?thesis
      using 2(2) [of h] by (simp add: iEvalToks_Nil)
  qed
qed simp


text \<open>A host without a name ends the program with a failed type assertion.\<close>

lemma Eval_no_hostname:
  "Eval None opmap0 n ''hostname'' f = Some (Panicked (PRuntime TypeAssertion), f)"
  by (simp add: Eval_def iEval_def opmap0_def hostname_def)

lemma Eval_div_zero:
  "\<exists>g. Eval host opmap0 n ''1 0 /'' New = Some (Panicked (PRuntime DivideByZero), g)"
proof -
  have "toInt \<lparr>stack = [''1'', ''0'']\<rparr> = (Inr 0, \<lparr>stack = [''1'']\<rparr>)"
    by (simp add: toInt_snoc [of _ "[''1'']" "''0''"] atoi_def parseUint_def isDigit_def digitVal_def
        signedNum_def)
  moreover have "toInt \<lparr>stack = [''1'']\<rparr> = (Inr 1, \<lparr>stack = []\<rparr>)"
    by (simp add: toInt_snoc [of _ "[]" "''1''"] atoi_def parseUint_def isDigit_def digitVal_def
        signedNum_def)
  ultimately show ?thesis
    by (simp add: Eval_def iEval_def opmap0_def divi_def New_def quot_def)
qed


section \<open>Arithmetic on node numbers\<close>

lemma asInt_digits: "n < 2 ^ 63 \<Longrightarrow> asInt (digits n) = Inr (word_of_nat n)"
  using atoi_nat [of n, where 'w = 64] by (simp add: asInt_def)

lemma arith_roundup_nat:
  assumes "0 < r" and "r < 2 ^ 63" and "v + r - 1 < 2 ^ 63"
  shows "arith Roundup (word_of_nat v) (word_of_nat r) = Inr (word_of_nat ((v + r - 1) div r * r))"
proof -
  have "(word_of_nat v + word_of_nat r - 1 :: goint) = word_of_nat (v + r - 1)"
    using assms(1) by (simp add: of_nat_diff)
  then show ?thesis
    using quot_nat [of "v + r - 1" r, where 'w = 64] assms by simp
qed

lemma roundup_least:
  assumes "0 < (r :: nat)"
  shows "r dvd (v + r - 1) div r * r" "v \<le> (v + r - 1) div r * r" "(v + r - 1) div r * r < v + r"
proof -
  have "(v + r - 1) div r * r + (v + r - 1) mod r = v + r - 1" by (rule div_mult_mod_eq)
  moreover have "(v + r - 1) mod r < r" using assms by simp
  ultimately show "v \<le> (v + r - 1) div r * r" "(v + r - 1) div r * r < v + r"
    using assms by linarith+
qed simp

text \<open>
  \<^verbatim>\<open>roundup\<close> replaces a number and a block size by the least multiple of the block size
  that is not below the number, as long as the numbers fit the machine word.
\<close>

theorem roundup_correct:
  assumes "0 < r" and "r < 2 ^ 63" and "v + r - 1 < 2 ^ 63"
  shows "\<exists>m. roundup \<lparr>stack = st @ [digits v, digits r]\<rparr> = (Inr (), \<lparr>stack = st @ [digits m]\<rparr>) \<and>
    r dvd m \<and> v \<le> m \<and> m < v + r"
proof -
  let ?m = "(v + r - 1) div r * r"
  have b: "v < 2 ^ 63" "r < 2 ^ 63" using assms by linarith+
  have "?m \<le> v + r - 1" by simp
  then have m: "?m < 2 ^ 63" using assms(3) by linarith
  have "computes (Some (runBuiltin None Roundup \<lparr>stack = st @ [digits v, digits r]\<rparr>)) st
      (Inr (itoa (word_of_nat ?m :: goint)))"
    using runBuiltin_arith [of Roundup None st "digits v" "digits r"] arith_roundup_nat [OF assms]
    by (simp add: isArith_def asInt_digits [OF b(1)] asInt_digits [OF b(2)] rt_def
        del: arith.simps)
  then have "roundup \<lparr>stack = st @ [digits v, digits r]\<rparr> = (Inr (), \<lparr>stack = st @ [digits ?m]\<rparr>)"
    using itoa_nat [of ?m, where 'w = 64] m by (simp add: computes_def)
  with roundup_least [OF assms(1)] show ?thesis by blast
qed

theorem roundup_correct_witness:
  "\<exists>m. roundup \<lparr>stack = [] @ [digits 4097, digits 8192]\<rparr> = (Inr (), \<lparr>stack = [] @ [digits m]\<rparr>) \<and>
     8192 dvd m \<and> 4097 \<le> m \<and> m < 4097 + 8192"
  by (rule roundup_correct) simp_all

end
