(* ===== verification/NodeList.thy ===== *)
theory NodeList
  imports GoStrings
begin

text \<open>
  The node lists of the command line: \<^verbatim>\<open>parseNodeList\<close> of \<^verbatim>\<open>src/src/gproc/common.go\<close>. A list
  is broken apart at commas, each part at its first slash into the nodes of this level and
  the text for the levels below, and the former at its first hyphen into a range.
\<close>

record nodeExecList =
  Nodes :: "string list"
  Subnodes :: string

definition BadRangeErr :: string where
  "BadRangeErr = ''bad range format''"

text \<open>
  The body of the loop for one part: \<open>Inl\<close> is the jump to \<^verbatim>\<open>BadRange\<close>, \<open>None\<close> a loop over
  the range that never ends. The slice \<^verbatim>\<open>ne.Nodes\<close> starts with one empty string, which a
  single node overwrites and a range is appended to. The errors of \<^verbatim>\<open>Atoi\<close> are dropped.
\<close>

definition parseOne :: "string \<Rightarrow> (string + nodeExecList) option" where
  "parseOne n =
     (let l = splitN2 CHR ''/'' n;
          be = splitN2 CHR ''-'' (l ! 0);
          subnodes = (if length l > 1 then l ! 1 else [])
      in if length be = 1 then
           Some (Inr \<lparr>Nodes = [[]][0 := be ! 0], Subnodes = subnodes\<rparr>)
         else
           (let beg = fst (atoi (be ! 0) :: goint \<times> num_error option);
                end = fst (atoi (be ! 1) :: goint \<times> num_error option)
            in if sint end < sint beg then Some (Inl BadRangeErr)
               else map_option
                 (\<lambda>is. Inr \<lparr>Nodes = [[]] @ map itoa is, Subnodes = subnodes\<rparr>)
                 (countUp beg end)))"

fun parseRanges ::
  "string list \<Rightarrow> nodeExecList list \<Rightarrow> (nodeExecList list \<times> string option) option" where
  "parseRanges [] rl = Some (rl, None)"
| "parseRanges (n # ranges) rl =
     (case parseOne n of
        None \<Rightarrow> None
      | Some (Inl err) \<Rightarrow> Some (rl, Some err)
      | Some (Inr ne) \<Rightarrow> parseRanges ranges (rl @ [ne]))"

definition parseNodeList :: "string \<Rightarrow> (nodeExecList list \<times> string option) option" where
  "parseNodeList l = parseRanges (split CHR '','' l) []"

section \<open>What one part denotes\<close>

definition rangeEnds :: "string \<Rightarrow> (int \<times> int) option" where
  "rangeEnds n =
     (let h = splitN2 CHR ''/'' n ! 0; be = splitN2 CHR ''-'' h
      in if CHR ''-'' \<in> set h
         then Some (sint (fst (atoi (be ! 0) :: goint \<times> num_error option)),
                    sint (fst (atoi (be ! 1) :: goint \<times> num_error option)))
         else None)"

definition reversed :: "string \<Rightarrow> bool" where
  "reversed n \<longleftrightarrow> (case rangeEnds n of None \<Rightarrow> False | Some (b, e) \<Rightarrow> e < b)"

definition endless :: "string \<Rightarrow> bool" where
  "endless n \<longleftrightarrow> (case rangeEnds n of None \<Rightarrow> False | Some (b, e) \<Rightarrow> e = 2 ^ 63 - 1)"

definition entry :: "string \<Rightarrow> nodeExecList" where
  "entry n =
     \<lparr>Nodes = (case rangeEnds n of
         None \<Rightarrow> [splitN2 CHR ''/'' n ! 0]
       | Some (b, e) \<Rightarrow> [] # map (\<lambda>i. itoa (word_of_int i :: goint)) [b..e]),
      Subnodes = (if CHR ''/'' \<in> set n then tl (dropWhile (\<lambda>c. c \<noteq> CHR ''/'') n) else [])\<rparr>"

lemma length_splitN2: "length (splitN2 c s) = (if c \<in> set s then 2 else 1)"
  by (simp add: splitN2_def)

lemma endless_not_reversed: "endless n \<Longrightarrow> \<not> reversed n"
proof
  assume "endless n" "reversed n"
  then obtain w :: goint where "2 ^ 63 - 1 < sint w"
    by (auto simp: endless_def reversed_def rangeEnds_def Let_def split: if_splits option.splits)
  moreover have "sint w < 2 ^ 63" using sint_lt [of w] by simp
  ultimately show False by linarith
qed

lemma splitN2_no_sep_nth: "c \<notin> set s \<Longrightarrow> splitN2 c s ! 0 = s"
  by simp

lemma parseOne_eq:
  "parseOne n =
     (if endless n then None
      else if reversed n then Some (Inl BadRangeErr)
      else Some (Inr (entry n)))"
proof -
  let ?h = "splitN2 CHR ''/'' n ! 0"
  let ?b = "fst (atoi (splitN2 CHR ''-'' ?h ! 0) :: goint \<times> num_error option)"
  let ?e = "fst (atoi (splitN2 CHR ''-'' ?h ! 1) :: goint \<times> num_error option)"
  have sub: "(if length (splitN2 CHR ''/'' n) > 1 then splitN2 CHR ''/'' n ! 1 else []) =
      Subnodes (entry n)"
    by (simp add: entry_def splitN2_def)
  show ?thesis
  proof (cases "CHR ''-'' \<in> set ?h")
    case False
    then have r: "rangeEnds n = None" by (simp add: rangeEnds_def Let_def)
    with False sub show ?thesis
      by (simp add: parseOne_def Let_def length_splitN2 reversed_def endless_def entry_def)
  next
    case True
    then have r: "rangeEnds n = Some (sint ?b, sint ?e)" by (simp add: rangeEnds_def Let_def)
    show ?thesis
    proof (cases "sint ?e = 2 ^ 63 - 1")
      case e: True
      then have en: "endless n" by (simp add: endless_def r)
      from endless_not_reversed [OF this] have "\<not> sint ?e < sint ?b" by (simp add: reversed_def r)
      with True countUp_max [of ?e ?b] e en show ?thesis
        by (simp add: parseOne_def Let_def length_splitN2)
    next
      case False
      then have en: "\<not> endless n" by (simp add: endless_def r)
      have c: "countUp ?b ?e = Some (map word_of_int [sint ?b..sint ?e])"
        using False by (intro countUp_Some) simp
      have "Nodes (entry n) = [] # map (\<lambda>i. itoa (word_of_int i :: goint)) [sint ?b..sint ?e]"
        by (simp add: entry_def r)
      then have "\<lparr>Nodes = [] # map (\<lambda>i. itoa (word_of_int i :: goint)) [sint ?b..sint ?e],
          Subnodes = Subnodes (entry n)\<rparr> = entry n"
        by simp
      with True c sub en show ?thesis
        by (auto simp: parseOne_def Let_def length_splitN2 reversed_def r comp_def)
    qed
  qed
qed

section \<open>The whole list\<close>

lemma parseRanges_eq:
  "parseRanges ns rl =
     (case List.find (\<lambda>n. endless n \<or> reversed n) ns of
        None \<Rightarrow> Some (rl @ map entry ns, None)
      | Some n \<Rightarrow>
          if endless n then None
          else Some (rl @ map entry (takeWhile (\<lambda>n. \<not> (endless n \<or> reversed n)) ns), Some BadRangeErr))"
  by (induction ns arbitrary: rl) (simp_all add: parseOne_eq split: option.split)

lemma parseNodeList_parts:
  "parseNodeList l =
     (case List.find (\<lambda>n. endless n \<or> reversed n) (split CHR '','' l) of
        None \<Rightarrow> Some (map entry (split CHR '','' l), None)
      | Some n \<Rightarrow>
          if endless n then None
          else Some (map entry (takeWhile (\<lambda>n. \<not> (endless n \<or> reversed n)) (split CHR '','' l)),
                     Some BadRangeErr))"
  by (simp add: parseNodeList_def parseRanges_eq split: option.split)

text \<open>
  C14. The parser reads the parts in order and stops at the first bad one: it returns the
  entries of the parts before it with the range error if that range is reversed, and never
  returns if its end is the greatest integer; without a bad part it returns every entry.
\<close>

theorem parseNodeList_eq:
  "parseNodeList l =
     (case List.find (\<lambda>n. endless n \<or> reversed n) (split CHR '','' l) of
        None \<Rightarrow> Some (map entry (split CHR '','' l), None)
      | Some n \<Rightarrow>
          if endless n then None
          else Some (map entry (takeWhile (\<lambda>n. \<not> (endless n \<or> reversed n)) (split CHR '','' l)),
                     Some BadRangeErr))"
  by (rule parseNodeList_parts)

lemma parseNodeList_entries:
  assumes "parseNodeList l = Some (rl, err)" and "ne \<in> set rl"
  obtains n where "n \<in> set (split CHR '','' l)" and "ne = entry n"
proof -
  have "\<exists>n\<in>set (split CHR '','' l). ne = entry n"
    using assms
    by (fastforce simp: parseNodeList_def parseRanges_eq split: option.splits if_splits
        dest: set_takeWhileD)
  with that show thesis by blast
qed

lemma entry_Nodes [simp]: "Nodes (entry n) \<noteq> []"
  by (simp add: entry_def split: option.splits)

lemma entry_no_comma:
  assumes "CHR '','' \<notin> set n" shows "CHR '','' \<notin> set (Subnodes (entry n))"
proof -
  have "set (tl xs) \<subseteq> set xs" for xs :: string by (cases xs) auto
  moreover have "set (dropWhile (\<lambda>c. c \<noteq> CHR ''/'') n) \<subseteq> set n" by (auto dest: set_dropWhileD)
  ultimately have "set (tl (dropWhile (\<lambda>c. c \<noteq> CHR ''/'') n)) \<subseteq> set n" by blast
  then show ?thesis using assms by (auto simp: entry_def)
qed

text \<open>
  What is left for the levels below contains no comma, so a node below parses it into at
  most one entry: it loses nothing by looking at the first entry only.
\<close>

theorem Subnodes_single:
  assumes "parseNodeList l = Some (rl, err)" and "ne \<in> set rl"
  shows "CHR '','' \<notin> set (Subnodes ne) \<and>
    (parseNodeList (Subnodes ne) = None \<or>
     parseNodeList (Subnodes ne) = Some ([], Some BadRangeErr) \<or>
     parseNodeList (Subnodes ne) = Some ([entry (Subnodes ne)], None))"
proof -
  from assms obtain n where "n \<in> set (split CHR '','' l)" and ne: "ne = entry n"
    by (rule parseNodeList_entries)
  then have "CHR '','' \<notin> set n" by (simp add: split_pieces)
  then have "CHR '','' \<notin> set (Subnodes ne)" by (simp add: ne entry_no_comma)
  then show ?thesis by (simp add: parseNodeList_def parseRanges_eq split_no_sep)
qed

theorem Subnodes_single_witness:
  "CHR '','' \<notin> set (Subnodes \<lparr>Nodes = [''1''], Subnodes = ''2/3''\<rparr>) \<and>
    (parseNodeList (Subnodes \<lparr>Nodes = [''1''], Subnodes = ''2/3''\<rparr>) = None \<or>
     parseNodeList (Subnodes \<lparr>Nodes = [''1''], Subnodes = ''2/3''\<rparr>) = Some ([], Some BadRangeErr) \<or>
     parseNodeList (Subnodes \<lparr>Nodes = [''1''], Subnodes = ''2/3''\<rparr>) =
       Some ([entry (Subnodes \<lparr>Nodes = [''1''], Subnodes = ''2/3''\<rparr>)], None))"
  by (rule Subnodes_single [of "''1/2/3''" "[\<lparr>Nodes = [''1''], Subnodes = ''2/3''\<rparr>]" None])
    (simp_all add: parseNodeList_def parseOne_def splitN2_def)

section \<open>Printing\<close>

text \<open>The lists the user means, how they are written, and what they denote.\<close>

datatype nodeset = One string | Span nat nat

type_synonym nodespec = "nodeset \<times> string option"

fun printSet :: "nodeset \<Rightarrow> string" where
  "printSet (One s) = s"
| "printSet (Span a b) = digits a @ CHR ''-'' # digits b"

fun printSpec :: "nodespec \<Rightarrow> string" where
  "printSpec (ns, None) = printSet ns"
| "printSpec (ns, Some rest) = printSet ns @ CHR ''/'' # rest"

fun wfSet :: "nodeset \<Rightarrow> bool" where
  "wfSet (One s) \<longleftrightarrow> CHR ''-'' \<notin> set s \<and> CHR ''/'' \<notin> set s \<and> CHR '','' \<notin> set s"
| "wfSet (Span a b) \<longleftrightarrow> a \<le> b \<and> b < 2 ^ 63 - 1"

fun wfSpec :: "nodespec \<Rightarrow> bool" where
  "wfSpec (ns, rest) \<longleftrightarrow> wfSet ns \<and> (case rest of None \<Rightarrow> True | Some r \<Rightarrow> CHR '','' \<notin> set r)"

fun denoteSet :: "nodeset \<Rightarrow> string list" where
  "denoteSet (One s) = [s]"
| "denoteSet (Span a b) = [] # map digits [a..<Suc b]"

fun denoteSpec :: "nodespec \<Rightarrow> nodeExecList" where
  "denoteSpec (ns, rest) =
     \<lparr>Nodes = denoteSet ns, Subnodes = (case rest of None \<Rightarrow> [] | Some r \<Rightarrow> r)\<rparr>"

lemma digits_chars: "\<not> isDigit c \<Longrightarrow> c \<notin> set (digits n)"
  by (metis isDigit_digits)

lemma printSet_chars:
  "wfSet ns \<Longrightarrow> CHR ''/'' \<notin> set (printSet ns) \<and> CHR '','' \<notin> set (printSet ns)"
  by (cases ns) (auto simp: digits_chars)

lemma printSpec_split:
  "wfSpec sp \<Longrightarrow>
   splitN2 CHR ''/'' (printSpec sp) = printSet (fst sp) # (case snd sp of None \<Rightarrow> [] | Some r \<Rightarrow> [r])"
  by (cases sp rule: printSpec.cases) (auto simp: printSet_chars)

lemma rangeEnds_printSpec:
  assumes "wfSpec sp"
  shows "rangeEnds (printSpec sp) =
    (case fst sp of One s \<Rightarrow> None | Span a b \<Rightarrow> Some (int a, int b))"
proof (cases "fst sp")
  case (One s)
  with assms show ?thesis
    by (cases sp) (simp add: rangeEnds_def printSpec_split)
next
  case (Span a b)
  with assms have ab: "a < 2 ^ 63" "b < 2 ^ 63" by (cases sp; simp)+
  have "splitN2 CHR ''-'' (digits a @ CHR ''-'' # digits b) = [digits a, digits b]"
    by (simp add: digits_chars)
  moreover have "sint (fst (atoi (digits k) :: goint \<times> num_error option)) = int k" if "k < 2 ^ 63" for k
    using atoi_nat [of k, where 'w = 64] sint_of_nat [of k, where 'w = 64] that by simp
  ultimately show ?thesis
    using Span ab assms by (simp add: rangeEnds_def printSpec_split)
qed

lemma entry_printSpec:
  assumes "wfSpec sp" shows "entry (printSpec sp) = denoteSpec sp"
proof -
  have sub: "(if CHR ''/'' \<in> set (printSpec sp)
      then tl (dropWhile (\<lambda>c. c \<noteq> CHR ''/'') (printSpec sp)) else []) =
      (case snd sp of None \<Rightarrow> [] | Some r \<Rightarrow> r)"
    using assms by (cases sp rule: printSpec.cases) (auto simp: printSet_chars dropWhile_append_sep)
  have nodes: "map (\<lambda>i. itoa (word_of_int i :: goint)) [int a..int b] = map digits [a..<Suc b]"
    if "b < 2 ^ 63" for a b
  proof -
    have "[int a..int b] = map int [a..<Suc b]"
      by (rule nth_equalityI) (auto simp: nth_upt simp del: upt_Suc)
    moreover have "itoa (word_of_nat k :: goint) = digits k" if "k \<in> set [a..<Suc b]" for k
      using that \<open>b < 2 ^ 63\<close> itoa_nat [of k, where 'w = 64] by auto
    ultimately show ?thesis by (simp del: upt_Suc)
  qed
  obtain ns rest where sp: "sp = (ns, rest)" by (cases sp)
  show ?thesis
  proof (rule nodeExecList.equality)
    show "Subnodes (entry (printSpec sp)) = Subnodes (denoteSpec sp)"
      using sub unfolding sp entry_def by simp
    show "Nodes (entry (printSpec sp)) = Nodes (denoteSpec sp)"
    proof (cases ns)
      case (One s)
      with assms show ?thesis
        using rangeEnds_printSpec [OF assms] printSpec_split [OF assms] by (simp add: entry_def sp)
    next
      case (Span a b)
      with assms have "b < 2 ^ 63" by (simp add: sp)
      from nodes [OF this, of a] Span show ?thesis
        using rangeEnds_printSpec [OF assms] by (simp add: entry_def sp del: upt_Suc)
    qed
  qed simp
qed

lemma printSpec_good:
  assumes "wfSpec sp" shows "\<not> endless (printSpec sp) \<and> \<not> reversed (printSpec sp)"
proof (cases "fst sp")
  case (One s)
  with assms show ?thesis by (simp add: endless_def reversed_def rangeEnds_printSpec)
next
  case (Span a b)
  with assms have "a \<le> b" "b < 2 ^ 63 - 1" by (cases sp; simp)+
  with assms Span show ?thesis by (simp add: endless_def reversed_def rangeEnds_printSpec)
qed

lemma printSpec_no_comma: "wfSpec sp \<Longrightarrow> CHR '','' \<notin> set (printSpec sp)"
  by (cases sp rule: printSpec.cases) (auto simp: printSet_chars)

lemma parse_specs:
  assumes "specs \<noteq> []" and "\<forall>sp\<in>set specs. wfSpec sp"
  shows "parseNodeList (join CHR '','' (map printSpec specs)) = Some (map denoteSpec specs, None)"
proof -
  have s: "split CHR '','' (join CHR '','' (map printSpec specs)) = map printSpec specs"
    using assms by (intro comma.pieces_glue) (auto simp: printSpec_no_comma)
  have "List.find (\<lambda>n. endless n \<or> reversed n) (map printSpec specs) = None"
    using assms(2) by (auto simp: find_None_iff printSpec_good)
  moreover have "map entry (map printSpec specs) = map denoteSpec specs"
    using assms(2) by (simp add: entry_printSpec)
  ultimately show ?thesis by (simp add: parseNodeList_def parseRanges_eq s)
qed

text \<open>
  C16. Parsing a printed list of node specifications gives back what it denotes. A range
  denotes its numbers behind an empty name.
\<close>

theorem parse_print:
  assumes "specs \<noteq> []" and "\<forall>sp\<in>set specs. wfSpec sp"
  shows "parseNodeList (join CHR '','' (map printSpec specs)) = Some (map denoteSpec specs, None)"
  using assms by (rule parse_specs)

theorem parse_print_witness:
  "parseNodeList (join CHR '','' (map printSpec [(Span 1 2, Some ''3-4''), (One ''.'', None)])) =
     Some (map denoteSpec [(Span 1 2, Some ''3-4''), (One ''.'', None)], None)"
  by (rule parse_print) simp_all

end
