(* ===== verification/Registry.thy ===== *)
theory Registry
  imports NodeList
begin

text \<open>
  The registry in which a node keeps the slaves below it: \<^verbatim>\<open>Slaves\<close> with \<^verbatim>\<open>Add\<close>, \<^verbatim>\<open>Remove\<close>,
  \<^verbatim>\<open>Get\<close> and \<^verbatim>\<open>ServIntersect\<close> of \<^verbatim>\<open>src/src/gproc/common.go\<close>. It has two maps, from
  identifiers to slaves and from server addresses to identifiers. A connection to a slave is
  a value of the type parameter. Go iterates over a map in an order of its own choice: the
  order is an argument here, and a theorem assumes no more of it than that it enumerates
  the keys.
\<close>

section \<open>Data\<close>

text \<open>What a slave tells its parent about itself, and what a master tells its users.\<close>

record vitalData =
  vdHostReady :: bool
  vdError :: string
  vdHostAddr :: string
  vdParentAddr :: string
  vdServerAddr :: string
  vdId :: string
  vdNodes :: "string list"
  vdExceptlist :: "string \<rightharpoonup> bool"

record 'c slaveInfo =
  siId :: string
  siAddr :: string
  siServer :: string
  siNodes :: "string list"
  siRpc :: 'c

record 'c slaves =
  Slaves :: "string \<rightharpoonup> 'c slaveInfo"
  Addr2id :: "string \<rightharpoonup> string"

definition newSlaves :: "'c slaves" where
  "newSlaves = \<lparr>Slaves = Map.empty, Addr2id = Map.empty\<rparr>"

section \<open>Operations\<close>

definition mkSlave :: "vitalData \<Rightarrow> 'c \<Rightarrow> 'c slaveInfo" where
  "mkSlave vd r =
     \<lparr>siId = vdId vd, siAddr = vdHostAddr vd, siServer = vdServerAddr vd, siNodes = vdNodes vd,
      siRpc = r\<rparr>"

text \<open>\<^verbatim>\<open>Add\<close> also returns the response for the slave, which carries its identifier.\<close>

definition Add :: "'c slaves \<Rightarrow> vitalData \<Rightarrow> 'c \<Rightarrow> string \<times> 'c slaves" where
  "Add sv vd r =
     (let s = mkSlave vd r
      in (siId s,
          sv\<lparr>Slaves := (Slaves sv)(siId s \<mapsto> s),
             Addr2id := (Addr2id sv)(siServer s \<mapsto> siId s)\<rparr>))"

definition Remove :: "'c slaves \<Rightarrow> 'c slaveInfo \<Rightarrow> 'c slaves" where
  "Remove sv s =
     sv\<lparr>Slaves := (Slaves sv)(siId s := None), Addr2id := (Addr2id sv)(siServer s := None)\<rparr>"

text \<open>Reading a missing key of a Go map of strings gives the empty string.\<close>

definition Get :: "'c slaves \<Rightarrow> string \<Rightarrow> 'c slaveInfo option" where
  "Get sv n =
     (case Slaves sv n of
        Some s \<Rightarrow> Some s
      | None \<Rightarrow> Slaves sv (case Addr2id sv n of None \<Rightarrow> [] | Some i \<Rightarrow> i))"

fun gets :: "'c slaves \<Rightarrow> string list \<Rightarrow> string list" where
  "gets sv [] = []"
| "gets sv (n # ns) =
     (case Get sv n of
        None \<Rightarrow> gets sv ns
      | Some s \<Rightarrow> siServer s # gets sv ns)"

fun ServIntersect :: "string list \<Rightarrow> 'c slaves \<Rightarrow> string list \<Rightarrow> runtime_error + string list" where
  "ServIntersect order sv [] = Inl IndexOutOfRange"
| "ServIntersect order sv (n # ns) =
     (if n = ''.'' then Inr (map (\<lambda>k. siServer (the (Slaves sv k))) order)
      else Inr (gets sv (n # ns)))"

abbreviation keyOrder :: "string list \<Rightarrow> (string \<rightharpoonup> 'v) \<Rightarrow> bool" where
  "keyOrder order m \<equiv> distinct order \<and> set order = dom m"

section \<open>The invariant\<close>

text \<open>
  The two maps describe the same set of slaves, identifiers are not empty, and no identifier
  is also an address.
\<close>

definition slaves_inv :: "'c slaves \<Rightarrow> bool" where
  "slaves_inv sv \<longleftrightarrow>
     (\<forall>k s. Slaves sv k = Some s \<longrightarrow> siId s = k \<and> k \<noteq> [] \<and> Addr2id sv (siServer s) = Some k) \<and>
     (\<forall>a k. Addr2id sv a = Some k \<longrightarrow> (\<exists>s. Slaves sv k = Some s \<and> siServer s = a)) \<and>
     dom (Slaves sv) \<inter> dom (Addr2id sv) = {} \<and> finite (dom (Slaves sv))"

text \<open>What a new slave must not share with the registered ones for the registry to stay exact.\<close>

definition fresh :: "'c slaves \<Rightarrow> vitalData \<Rightarrow> bool" where
  "fresh sv vd \<longleftrightarrow>
     vdId vd \<noteq> [] \<and> vdId vd \<noteq> vdServerAddr vd \<and>
     {vdId vd, vdServerAddr vd} \<inter> (dom (Slaves sv) \<union> dom (Addr2id sv)) = {}"

lemma slaves_invD:
  assumes "slaves_inv sv"
  shows "Slaves sv k = Some s \<Longrightarrow> siId s = k"
    and "Slaves sv k = Some s \<Longrightarrow> k \<noteq> []"
    and "Slaves sv k = Some s \<Longrightarrow> Addr2id sv (siServer s) = Some k"
    and "Addr2id sv a = Some k \<Longrightarrow> \<exists>s. Slaves sv k = Some s \<and> siServer s = a"
    and "Slaves sv k = Some s \<Longrightarrow> Addr2id sv k = None"
    and "Addr2id sv a = Some k \<Longrightarrow> Slaves sv a = None"
    and "finite (dom (Slaves sv))"
  using assms unfolding slaves_inv_def by blast+

lemma slaves_inv_new [simp]: "slaves_inv newSlaves"
  by (simp add: slaves_inv_def newSlaves_def)

lemma siId_mkSlave [simp]: "siId (mkSlave vd r) = vdId vd" "siServer (mkSlave vd r) = vdServerAddr vd"
  by (simp_all add: mkSlave_def)

lemma slaves_invI:
  assumes "\<And>k s. Slaves sv k = Some s \<Longrightarrow> siId s = k"
    and "\<And>k s. Slaves sv k = Some s \<Longrightarrow> k \<noteq> []"
    and "\<And>k s. Slaves sv k = Some s \<Longrightarrow> Addr2id sv (siServer s) = Some k"
    and "\<And>a k. Addr2id sv a = Some k \<Longrightarrow> \<exists>s. Slaves sv k = Some s \<and> siServer s = a"
    and "\<And>k s. Slaves sv k = Some s \<Longrightarrow> Addr2id sv k = None"
    and "finite (dom (Slaves sv))"
  shows "slaves_inv sv"
proof -
  have "dom (Slaves sv) \<inter> dom (Addr2id sv) = {}"
    using assms(5) by (metis disjoint_iff domD domIff)
  then show ?thesis unfolding slaves_inv_def using assms(1-4,6) by blast
qed

lemma freshD:
  assumes "fresh sv vd"
  shows "vdId vd \<noteq> []" "vdId vd \<noteq> vdServerAddr vd" "Slaves sv (vdId vd) = None"
    "Addr2id sv (vdServerAddr vd) = None" "Slaves sv (vdServerAddr vd) = None"
    "Addr2id sv (vdId vd) = None"
  using assms by (auto simp: fresh_def)

lemma Add_Slaves [simp]:
  "Slaves (snd (Add sv vd r)) = (Slaves sv)(vdId vd \<mapsto> mkSlave vd r)"
  "Addr2id (snd (Add sv vd r)) = (Addr2id sv)(vdServerAddr vd \<mapsto> vdId vd)"
  by (simp_all add: Add_def Let_def)

lemma Remove_Slaves [simp]:
  "Slaves (Remove sv s) = (Slaves sv)(siId s := None)"
  "Addr2id (Remove sv s) = (Addr2id sv)(siServer s := None)"
  by (simp_all add: Remove_def)

lemma Add_inv:
  assumes "slaves_inv sv" and "fresh sv vd"
  shows "slaves_inv (snd (Add sv vd r))"
proof (rule slaves_invI)
  note d = slaves_invD [OF assms(1)] and f = freshD [OF assms(2)]
  fix k and s :: "'a slaveInfo"
  assume s: "Slaves (snd (Add sv vd r)) k = Some s"
  show "siId s = k" "k \<noteq> []"
    using s d(1,2) f(1) by (auto split: if_splits)
  have "siServer s \<noteq> vdServerAddr vd" if "Slaves sv k = Some s"
    using d(3) [OF that] f(4) by auto
  with s d(3) show "Addr2id (snd (Add sv vd r)) (siServer s) = Some k"
    by (auto split: if_splits)
  have "k \<noteq> vdServerAddr vd" if "Slaves sv k = Some s" using that f(5) by auto
  with s d(5) f(2,6) show "Addr2id (snd (Add sv vd r)) k = None" by (auto split: if_splits)
next
  note d = slaves_invD [OF assms(1)] and f = freshD [OF assms(2)]
  fix a k assume a: "Addr2id (snd (Add sv vd r)) a = Some k"
  have "k \<noteq> vdId vd" if "Addr2id sv a = Some k" using d(4) [OF that] f(3) by auto
  with a d(4) show "\<exists>s. Slaves (snd (Add sv vd r)) k = Some s \<and> siServer s = a"
    by (auto split: if_splits)
qed (simp add: slaves_invD(7) [OF assms(1)])

lemma Remove_inv:
  assumes "slaves_inv sv" and "Slaves sv (siId s) = Some s"
  shows "slaves_inv (Remove sv s)"
proof (rule slaves_invI)
  note d = slaves_invD [OF assms(1)]
  fix k and t :: "'a slaveInfo"
  assume t: "Slaves (Remove sv s) k = Some t"
  then have t': "Slaves sv k = Some t" "k \<noteq> siId s" by (auto split: if_splits)
  show "siId t = k" "k \<noteq> []" using d(1,2) t'(1) by auto
  have "siServer t \<noteq> siServer s" using d(3) [OF t'(1)] d(3) [OF assms(2)] t'(2) by auto
  with d(3) [OF t'(1)] show "Addr2id (Remove sv s) (siServer t) = Some k" by simp
  show "Addr2id (Remove sv s) k = None" using d(5) [OF t'(1)] by simp
next
  note d = slaves_invD [OF assms(1)]
  fix a k assume a: "Addr2id (Remove sv s) a = Some k"
  then have a': "Addr2id sv a = Some k" "a \<noteq> siServer s" by (auto split: if_splits)
  from d(4) [OF a'(1)] obtain t where t: "Slaves sv k = Some t" "siServer t = a" by blast
  with a'(2) assms(2) have "k \<noteq> siId s" by auto
  with t show "\<exists>t. Slaves (Remove sv s) k = Some t \<and> siServer t = a" by simp
qed (simp add: slaves_invD(7) [OF assms(1)])

text \<open>Under the invariant, \<^verbatim>\<open>Get\<close> finds a slave under its identifier and under its address.\<close>

lemma Get_iff:
  assumes "slaves_inv sv"
  shows "Get sv n = Some s \<longleftrightarrow> Slaves sv (siId s) = Some s \<and> (siId s = n \<or> siServer s = n)"
proof (cases "Slaves sv n")
  case (Some t)
  have t: "siId t = n" "Addr2id sv n = None" using slaves_invD(1,5) [OF assms Some] by simp_all
  have g: "Get sv n = Some t" using Some by (simp add: Get_def)
  show ?thesis
  proof
    assume "Get sv n = Some s"
    with g t Some show "Slaves sv (siId s) = Some s \<and> (siId s = n \<or> siServer s = n)" by simp
  next
    assume s: "Slaves sv (siId s) = Some s \<and> (siId s = n \<or> siServer s = n)"
    then have "siServer s \<noteq> n" using slaves_invD(3) [OF assms, of "siId s" s] t(2) by auto
    with s have "siId s = n" by simp
    with s Some have "t = s" by simp
    with g show "Get sv n = Some s" by simp
  qed
next
  case None
  show ?thesis
  proof (cases "Addr2id sv n")
    case (Some k)
    from slaves_invD(4) [OF assms Some] obtain t where t: "Slaves sv k = Some t" "siServer t = n"
      by blast
    from slaves_invD(1) [OF assms t(1)] have "siId t = k" .
    have st: "s = t" if "Slaves sv (siId s) = Some s" "siServer s = n"
    proof -
      from slaves_invD(3) [OF assms that(1)] that(2) Some have "siId s = k" by simp
      with that(1) t(1) show ?thesis by simp
    qed
    have g: "Get sv n = Some t" using None Some t(1) by (simp add: Get_def)
    show ?thesis
    proof
      assume "Get sv n = Some s"
      with g t \<open>siId t = k\<close> show "Slaves sv (siId s) = Some s \<and> (siId s = n \<or> siServer s = n)"
        by simp
    next
      assume s: "Slaves sv (siId s) = Some s \<and> (siId s = n \<or> siServer s = n)"
      with None have "siServer s = n" by auto
      with s have "s = t" by (intro st) simp_all
      with g show "Get sv n = Some s" by simp
    qed
  next
    case addr: None
    have "Slaves sv [] = None" using slaves_invD(2) [OF assms, of "[]"] by (cases "Slaves sv []") auto
    moreover have "siServer s \<noteq> n" if "Slaves sv (siId s) = Some s"
      using slaves_invD(3) [OF assms that] addr by auto
    ultimately show ?thesis using None addr by (auto simp: Get_def)
  qed
qed

section \<open>The contract of a registry\<close>

text \<open>
  What the senders of commands rely on: a registry is a set of members, each found under its
  identifier and its address, and dropping a member takes away that member only.
\<close>

locale registry =
  fixes inv :: "'s \<Rightarrow> bool"
    and mem :: "'s \<Rightarrow> 'i \<Rightarrow> bool"
    and lookup :: "'s \<Rightarrow> string \<Rightarrow> 'i option"
    and drop :: "'s \<Rightarrow> 'i \<Rightarrow> 's"
    and named :: "'i \<Rightarrow> string \<Rightarrow> bool"
  assumes lookup_iff: "inv s \<Longrightarrow> lookup s n = Some i \<longleftrightarrow> mem s i \<and> named i n"
    and drop_inv: "inv s \<Longrightarrow> mem s i \<Longrightarrow> inv (drop s i)"
    and drop_mem: "inv s \<Longrightarrow> mem s i \<Longrightarrow> mem (drop s i) j \<longleftrightarrow> mem s j \<and> j \<noteq> i"
begin

lemma lookup_drop:
  assumes "inv s" and "mem s i"
  shows "lookup (drop s i) n = (if named i n then None else lookup s n)"
proof (cases "lookup (drop s i) n")
  case (Some j)
  then have j: "mem s j" "j \<noteq> i" "named j n"
    using assms by (simp_all add: lookup_iff drop_inv drop_mem)
  with assms(1) have "lookup s n = Some j" by (simp add: lookup_iff)
  moreover from this have "\<not> named i n" using assms j(2) lookup_iff [of s n i] by auto
  ultimately show ?thesis using Some by simp
next
  case None
  have "lookup s n = None" if "\<not> named i n"
  proof (cases "lookup s n")
    case (Some j)
    with assms(1) have "mem s j" "named j n" by (simp_all add: lookup_iff)
    with that have "j \<noteq> i" by auto
    with \<open>mem s j\<close> \<open>named j n\<close> assms have "lookup (drop s i) n = Some j"
      by (simp add: lookup_iff drop_inv drop_mem)
    with None show ?thesis by simp
  qed
  with None show ?thesis by simp
qed

text \<open>Looking up and dropping a list of names takes away exactly the members so named.\<close>

lemma drop_names:
  assumes "inv s"
  defines "step \<equiv> \<lambda>n s. case lookup s n of None \<Rightarrow> s | Some i \<Rightarrow> drop s i"
  shows "inv (fold step ns s) \<and>
    (\<forall>j. mem (fold step ns s) j \<longleftrightarrow> mem s j \<and> (\<forall>n\<in>set ns. \<not> named j n))"
  using assms(1)
proof (induction ns arbitrary: s)
  case (Cons n ns)
  have one: "inv (step n s) \<and> (\<forall>j. mem (step n s) j \<longleftrightarrow> mem s j \<and> \<not> named j n)"
  proof (cases "lookup s n")
    case None
    then have "\<not> (mem s j \<and> named j n)" for j using Cons.prems lookup_iff [of s n j] by auto
    with None Cons.prems show ?thesis by (auto simp: step_def)
  next
    case (Some i)
    then have i: "mem s i" "named i n" using Cons.prems by (simp_all add: lookup_iff)
    have "mem (drop s i) j \<longleftrightarrow> mem s j \<and> \<not> named j n" for j
      using Some Cons.prems i lookup_iff [of s n j] drop_mem [of s i j] by auto
    with Some i Cons.prems show ?thesis by (simp add: step_def drop_inv)
  qed
  then have "inv (fold step ns (step n s)) \<and>
      (\<forall>j. mem (fold step ns (step n s)) j \<longleftrightarrow> mem (step n s) j \<and> (\<forall>n\<in>set ns. \<not> named j n))"
    by (intro Cons.IH) simp
  with one show ?case by simp
qed simp

end

definition member :: "'c slaves \<Rightarrow> 'c slaveInfo \<Rightarrow> bool" where
  "member sv s \<longleftrightarrow> Slaves sv (siId s) = Some s"

definition named :: "'c slaveInfo \<Rightarrow> string \<Rightarrow> bool" where
  "named s n \<longleftrightarrow> siId s = n \<or> siServer s = n"

interpretation reg: registry slaves_inv member Get Remove named
proof
  fix sv :: "'c slaves" and n and s
  assume "slaves_inv sv"
  then show "(Get sv n = Some s) = (member sv s \<and> named s n)"
    by (simp add: Get_iff member_def named_def)
next
  fix sv :: "'c slaves" and s t
  assume inv: "slaves_inv sv" and "member sv s"
  then show "slaves_inv (Remove sv s)" by (simp add: Remove_inv member_def)
  show "member (Remove sv s) t = (member sv t \<and> t \<noteq> s)"
    using \<open>member sv s\<close> by (auto simp: member_def)
qed

section \<open>The registry as a set of nodes\<close>

definition nodesOf :: "'c slaves \<Rightarrow> (string \<times> string) set" where
  "nodesOf sv = {(siId s, siServer s) | s. member sv s}"

lemma nodesOf_new [simp]: "nodesOf newSlaves = {}"
  by (simp add: nodesOf_def member_def newSlaves_def)

lemma nodesOf_inj:
  assumes "slaves_inv sv" "member sv s" "member sv t" "siId s = siId t"
  shows "s = t"
  using assms by (simp add: member_def)

lemma nodesOf_Add:
  assumes "fresh sv vd"
  shows "nodesOf (snd (Add sv vd r)) = insert (vdId vd, vdServerAddr vd) (nodesOf sv)"
proof -
  have m: "member (snd (Add sv vd r)) s \<longleftrightarrow> s = mkSlave vd r \<or> member sv s" for s
    using freshD(3) [OF assms] by (auto simp: member_def)
  show ?thesis unfolding nodesOf_def m by force
qed

text \<open>
  C6. Registering a slave that shares neither name with another one is, on the set of pairs
  of an identifier and an address that the registry stands for, the insertion of its pair.
\<close>

theorem Add_refines:
  assumes "slaves_inv sv" and "fresh sv vd"
  shows "fst (Add sv vd r) = vdId vd \<and> slaves_inv (snd (Add sv vd r)) \<and>
    nodesOf (snd (Add sv vd r)) = insert (vdId vd, vdServerAddr vd) (nodesOf sv)"
proof -
  have "fst (Add sv vd r) = vdId vd" by (simp add: Add_def Let_def)
  then show ?thesis using Add_inv [OF assms] nodesOf_Add [OF assms(2)] by blast
qed

definition vd1 :: vitalData where
  "vd1 = \<lparr>vdHostReady = True, vdError = [], vdHostAddr = ''10.0.0.1:4000'',
     vdParentAddr = ''10.0.0.9:6666'', vdServerAddr = ''10.0.0.1:5000'', vdId = ''1'', vdNodes = [],
     vdExceptlist = Map.empty\<rparr>"

lemma fresh_vd1: "fresh newSlaves vd1"
  by (simp add: fresh_def newSlaves_def vd1_def)

theorem Add_refines_witness:
  "fst (Add newSlaves vd1 ()) = vdId vd1 \<and> slaves_inv (snd (Add newSlaves vd1 ())) \<and>
    nodesOf (snd (Add newSlaves vd1 ())) = insert (vdId vd1, vdServerAddr vd1) (nodesOf (newSlaves :: unit slaves))"
  by (rule Add_refines [OF slaves_inv_new fresh_vd1])

text \<open>
  C36. Removing a registered slave is the deletion of its pair, and neither its identifier
  nor its address finds anything afterwards.
\<close>

theorem Remove_refines:
  assumes "slaves_inv sv" and "Get sv n = Some s"
  shows "slaves_inv (Remove sv s) \<and> nodesOf (Remove sv s) = nodesOf sv - {(siId s, siServer s)} \<and>
    Get (Remove sv s) (siId s) = None \<and> Get (Remove sv s) (siServer s) = None"
proof -
  have m: "member sv s" using assms by (simp add: reg.lookup_iff)
  have "t = s" if "member sv t" "siId t = siId s" for t
    using nodesOf_inj [OF assms(1) that(1) m that(2)] .
  then have "nodesOf (Remove sv s) = nodesOf sv - {(siId s, siServer s)}"
    unfolding nodesOf_def using reg.drop_mem [OF assms(1) m] by force
  moreover have "Get (Remove sv s) (siId s) = None \<and> Get (Remove sv s) (siServer s) = None"
    using reg.lookup_drop [OF assms(1) m] by (simp add: named_def)
  ultimately show ?thesis using reg.drop_inv [OF assms(1) m] by blast
qed

theorem Remove_refines_witness:
  "\<exists>s. slaves_inv (Remove (snd (Add newSlaves vd1 ())) s) \<and>
     nodesOf (Remove (snd (Add newSlaves vd1 ())) s) =
       nodesOf (snd (Add newSlaves vd1 ())) - {(siId s, siServer s)} \<and>
     Get (Remove (snd (Add newSlaves vd1 ())) s) (siId s) = None \<and>
     Get (Remove (snd (Add newSlaves vd1 ())) s) (siServer s) = None"
proof
  have "Get (snd (Add newSlaves vd1 ())) ''1'' = Some (mkSlave vd1 ())"
    by (simp add: Get_def vd1_def)
  with Add_inv [OF slaves_inv_new fresh_vd1]
  show "slaves_inv (Remove (snd (Add newSlaves vd1 ())) (mkSlave vd1 ())) \<and>
     nodesOf (Remove (snd (Add newSlaves vd1 ())) (mkSlave vd1 ())) =
       nodesOf (snd (Add newSlaves vd1 ())) - {(siId (mkSlave vd1 ()), siServer (mkSlave vd1 ()))} \<and>
     Get (Remove (snd (Add newSlaves vd1 ())) (mkSlave vd1 ())) (siId (mkSlave vd1 ())) = None \<and>
     Get (Remove (snd (Add newSlaves vd1 ())) (mkSlave vd1 ())) (siServer (mkSlave vd1 ())) = None"
    by (rule Remove_refines)
qed

section \<open>Selecting servers\<close>

lemma gets_filter: "gets sv ns = map siServer (List.map_filter (Get sv) ns)"
  by (induction ns) (auto simp: List.map_filter_simps split: option.split)

lemma gets_append: "gets sv (xs @ ys) = gets sv xs @ gets sv ys"
  by (induction xs) (auto split: option.splits)

lemma Get_blank:
  assumes "slaves_inv sv" and "[] \<notin> dom (Addr2id sv)" shows "Get sv [] = None"
proof -
  have "Slaves sv [] = None" using slaves_invD(2) [OF assms(1), of "[]"] by (cases "Slaves sv []") auto
  with assms(2) show ?thesis by (simp add: Get_def domIff)
qed

text \<open>The name for all slaves.\<close>

lemma ServIntersect_dot:
  assumes "slaves_inv sv" and "keyOrder order (Slaves sv)"
  shows "\<exists>ss. ServIntersect order sv (''.'' # ns) = Inr ss \<and> distinct ss \<and> set ss = snd ` nodesOf sv"
proof -
  let ?f = "\<lambda>k. siServer (the (Slaves sv k))"
  have img: "?f ` set order = snd ` nodesOf sv"
  proof -
    have "?f k \<in> snd ` nodesOf sv" if "k \<in> dom (Slaves sv)" for k
      using that slaves_invD(1) [OF assms(1)] by (force simp: nodesOf_def member_def)
    moreover have "siServer s \<in> ?f ` dom (Slaves sv)" if "member sv s" for s
      using that by (force simp: member_def)
    ultimately show ?thesis using assms(2) by (force simp: nodesOf_def)
  qed
  have "inj_on ?f (dom (Slaves sv))"
  proof (rule inj_onI)
    fix j k assume "j \<in> dom (Slaves sv)" "k \<in> dom (Slaves sv)" and eq: "?f j = ?f k"
    then obtain s t where s: "Slaves sv j = Some s" and t: "Slaves sv k = Some t" by blast
    with eq slaves_invD(3) [OF assms(1) s] slaves_invD(3) [OF assms(1) t] show "j = k" by simp
  qed
  then have "distinct (map ?f order)" using assms(2) by (simp add: distinct_map)
  with img show ?thesis by simp
qed

text \<open>
  C22. Selecting the nodes of a parsed list never fails and gives addresses of registered
  slaves only: all of them, once each, for a dot; otherwise those of the names that are
  registered, in the order of the list. In particular the empty name in front of a range
  selects nothing.
\<close>

theorem ServIntersect_entries:
  assumes "slaves_inv sv" and "keyOrder order (Slaves sv)" and "[] \<notin> dom (Addr2id sv)"
    and "parseNodeList l = Some (rl, err)" and "ne \<in> set rl"
  shows "\<exists>ss. ServIntersect order sv (Nodes ne) = Inr ss \<and> set ss \<subseteq> snd ` nodesOf sv \<and>
    (hd (Nodes ne) = ''.'' \<longrightarrow> distinct ss \<and> set ss = snd ` nodesOf sv) \<and>
    (hd (Nodes ne) \<noteq> ''.'' \<longrightarrow>
       ss = map siServer (List.map_filter (Get sv) (filter (\<lambda>n. n \<noteq> []) (Nodes ne))))"
proof -
  obtain n ns where ne: "Nodes ne = n # ns"
    using assms(4,5) by (metis entry_Nodes list.exhaust parseNodeList_entries)
  show ?thesis
  proof (cases "n = ''.''")
    case True
    with ne ServIntersect_dot [OF assms(1,2), of ns] show ?thesis by auto
  next
    case False
    let ?ss = "gets sv (n # ns)"
    have g1: "gets sv xs = map siServer (List.map_filter (Get sv) (filter (\<lambda>n. n \<noteq> []) xs))" for xs
      using Get_blank [OF assms(1,3)]
      by (induction xs) (auto simp: List.map_filter_simps split: option.split)
    have g2: "set (gets sv xs) \<subseteq> snd ` nodesOf sv" for xs
    proof (induction xs)
      case (Cons x xs)
      have "siServer s \<in> snd ` nodesOf sv" if "Get sv x = Some s" for s
        using that reg.lookup_iff [OF assms(1)] by (force simp: nodesOf_def)
      with Cons show ?case by (auto split: option.splits)
    qed simp
    have "ServIntersect order sv (Nodes ne) = Inr ?ss" using False ne by simp
    moreover have "?ss = map siServer (List.map_filter (Get sv) (filter (\<lambda>n. n \<noteq> []) (Nodes ne)))"
      unfolding ne by (rule g1)
    moreover have "hd (Nodes ne) \<noteq> ''.''" using False ne by simp
    ultimately show ?thesis using g2 [of "n # ns"] by blast
  qed
qed

theorem ServIntersect_entries_witness:
  "\<exists>ss. ServIntersect [''1''] (snd (Add newSlaves vd1 ())) (Nodes (entry ''1-2'')) = Inr ss \<and>
    set ss \<subseteq> snd ` nodesOf (snd (Add newSlaves vd1 ())) \<and>
    (hd (Nodes (entry ''1-2'')) = ''.'' \<longrightarrow>
       distinct ss \<and> set ss = snd ` nodesOf (snd (Add newSlaves vd1 ()))) \<and>
    (hd (Nodes (entry ''1-2'')) \<noteq> ''.'' \<longrightarrow>
       ss = map siServer (List.map_filter (Get (snd (Add newSlaves vd1 ())))
              (filter (\<lambda>n. n \<noteq> []) (Nodes (entry ''1-2'')))))"
proof (rule ServIntersect_entries [OF Add_inv [OF slaves_inv_new fresh_vd1]])
  have "wfSpec (Span 1 2, None)" by simp
  then have "\<not> endless ''1-2'' \<and> \<not> reversed ''1-2''"
    using printSpec_good [of "(Span 1 2, None)"] by (simp add: digits.simps)
  then show "parseNodeList ''1-2'' = Some ([entry ''1-2''], None)"
    by (simp add: parseNodeList_def parseOne_eq)
qed (simp_all add: newSlaves_def vd1_def)

text \<open>
  A slave that registers again under its identifier from another address leaves its old
  address behind in the second map, where \<^verbatim>\<open>Remove\<close> never looks: the invariant is lost, and
  the map the info command counts has two entries for one slave.
\<close>

lemma reregister_stale:
  fixes vd vd' :: vitalData and r r' :: 'c
  assumes "vdId vd' = vdId vd" and "vdServerAddr vd' \<noteq> vdServerAddr vd"
  defines "sv \<equiv> snd (Add (snd (Add newSlaves vd r)) vd' r')"
  shows "\<not> slaves_inv sv" and "card (dom (Slaves sv)) = 1" and "card (dom (Addr2id sv)) = 2"
    and "Addr2id (Remove sv (mkSlave vd' r')) (vdServerAddr vd) = Some (vdId vd)"
proof -
  have sv: "Slaves sv = [vdId vd \<mapsto> mkSlave vd' r']"
    "Addr2id sv = [vdServerAddr vd \<mapsto> vdId vd, vdServerAddr vd' \<mapsto> vdId vd]"
    using assms(1) by (simp_all add: sv_def newSlaves_def)
  show "\<not> slaves_inv sv"
    using slaves_invD(4) [of sv "vdServerAddr vd" "vdId vd"] assms(2) sv by auto
  show "card (dom (Slaves sv)) = 1" "card (dom (Addr2id sv)) = 2"
    "Addr2id (Remove sv (mkSlave vd' r')) (vdServerAddr vd) = Some (vdId vd)"
    using assms(2) sv by simp_all
qed

end
