(* ===== verification/GoPath.thy ===== *)
theory GoPath
  imports GoStrings
begin

text \<open>
  The functions of Go's \<^verbatim>\<open>path\<close> package that the program calls. They are lexical:
  they never look at a file system.
\<close>

section \<open>path.Clean, path.Join and path.Split\<close>

text \<open>
  \<^verbatim>\<open>Clean\<close> walks over the elements between slashes and keeps a stack of those to print: it
  drops empty elements and dots, and a double dot takes back the element before it. At the
  start of a rooted path a double dot is dropped, at the start of any other it stays.
\<close>

definition dot :: string where "dot = ''.''"

definition dotdot :: string where "dotdot = ''..''"

fun cleanStep :: "bool \<Rightarrow> string list \<Rightarrow> string \<Rightarrow> string list" where
  "cleanStep rooted st e =
     (if e = [] \<or> e = dot then st
      else if e = dotdot then
        (if st \<noteq> [] \<and> hd st \<noteq> dotdot then tl st
         else if rooted then st
         else e # st)
      else e # st)"

definition cleanElems :: "bool \<Rightarrow> string list \<Rightarrow> string list" where
  "cleanElems rooted es = rev (foldl (cleanStep rooted) [] es)"

definition isAbs :: "string \<Rightarrow> bool" where
  "isAbs p \<longleftrightarrow> p \<noteq> [] \<and> hd p = CHR ''/''"

definition clean :: "string \<Rightarrow> string" where
  "clean p =
     (let es = cleanElems (isAbs p) (split CHR ''/'' p)
      in if isAbs p then CHR ''/'' # join CHR ''/'' es
         else if es = [] then dot
         else join CHR ''/'' es)"

definition pathJoin :: "string list \<Rightarrow> string" where
  "pathJoin elems =
     (case dropWhile (\<lambda>e. e = []) elems of
        [] \<Rightarrow> []
      | es \<Rightarrow> clean (join CHR ''/'' es))"

text \<open>\<^verbatim>\<open>Split\<close> cuts a path after its last slash.\<close>

definition pathSplit :: "string \<Rightarrow> string \<times> string" where
  "pathSplit p =
     (rev (dropWhile (\<lambda>c. c \<noteq> CHR ''/'') (rev p)),
      rev (takeWhile (\<lambda>c. c \<noteq> CHR ''/'') (rev p)))"

lemma pathSplit_append: "fst (pathSplit p) @ snd (pathSplit p) = p"
  by (simp add: pathSplit_def rev_append [symmetric] del: rev_append)

lemma pathSplit_file: "CHR ''/'' \<notin> set (snd (pathSplit p))"
  by (simp add: pathSplit_def mem_takeWhile_neq)

lemma pathSplit_dir: "fst (pathSplit p) = [] \<or> hasSuffix (fst (pathSplit p)) ''/''"
proof -
  let ?P = "\<lambda>c. c \<noteq> CHR ''/''"
  show ?thesis
  proof (cases "dropWhile ?P (rev p)")
    case (Cons c cs)
    then have "c = CHR ''/''" using hd_dropWhile [of ?P "rev p"] by auto
    with Cons show ?thesis by (auto simp: pathSplit_def hasSuffix_iff)
  qed (simp add: pathSplit_def)
qed

lemma isAbs_append [simp]: "isAbs p \<Longrightarrow> isAbs (p @ q)"
  by (simp add: isAbs_def)

lemma isAbs_Cons [simp]: "isAbs (c # p) \<longleftrightarrow> c = CHR ''/''"
  by (simp add: isAbs_def)

lemma not_isAbs_Nil [simp]: "\<not> isAbs []"
  by (simp add: isAbs_def)

subsection \<open>Clean paths\<close>

text \<open>
  The elements \<^verbatim>\<open>Clean\<close> leaves: no empty element, no dot, and double dots only at the front
  of a path that is not rooted.
\<close>

definition plain :: "string \<Rightarrow> bool" where
  "plain e \<longleftrightarrow> e \<noteq> [] \<and> e \<noteq> dot \<and> e \<noteq> dotdot"

definition cleaned :: "bool \<Rightarrow> string list \<Rightarrow> bool" where
  "cleaned rooted st \<longleftrightarrow>
     (\<exists>es n. st = es @ replicate n dotdot \<and> (\<forall>e\<in>set es. plain e) \<and> (rooted \<longrightarrow> n = 0))"

lemma dotdot_facts [simp]:
  "dotdot \<noteq> []" "dotdot \<noteq> dot" "dot \<noteq> []" "\<not> plain dotdot" "\<not> plain []" "\<not> plain dot"
  by (auto simp: dot_def dotdot_def plain_def)

lemma cleaned_Nil [simp]: "cleaned r []"
  by (auto simp: cleaned_def)

lemma cleanStep_cleaned: "cleaned r st \<Longrightarrow> cleaned r (cleanStep r st e)"
proof -
  assume "cleaned r st"
  then obtain es n where st: "st = es @ replicate n dotdot" and es: "\<forall>e\<in>set es. plain e"
    and n: "r \<longrightarrow> n = 0"
    by (auto simp: cleaned_def)
  consider "e = [] \<or> e = dot" | "e = dotdot" | "plain e" by (auto simp: plain_def)
  then show ?thesis
  proof cases
    case 1
    with \<open>cleaned r st\<close> show ?thesis by auto
  next
    case 2
    show ?thesis
    proof (cases es)
      case Nil
      have "cleaned r (replicate (Suc n) dotdot)" if "\<not> r"
        using that unfolding cleaned_def
        by (intro exI [of _ "[]"] exI [of _ "Suc n"]) simp
      with 2 Nil st n \<open>cleaned r st\<close> show ?thesis by (cases n) auto
    next
      case (Cons f fs)
      with 2 st es n show ?thesis by (auto simp: cleaned_def plain_def)
    qed
  next
    case 3
    then have "cleanStep r st e = (e # es) @ replicate n dotdot"
      by (simp add: st plain_def)
    with 3 es n show ?thesis unfolding cleaned_def by (metis set_ConsD)
  qed
qed

lemma foldl_cleaned: "cleaned r st \<Longrightarrow> cleaned r (foldl (cleanStep r) st es)"
  by (induction es arbitrary: st) (auto simp: cleanStep_cleaned simp del: cleanStep.simps)

lemma foldl_cleanStep_plain:
  "\<forall>e\<in>set es. plain e \<Longrightarrow> foldl (cleanStep r) st es = rev es @ st"
  by (induction es arbitrary: st) (auto simp: plain_def)

lemma foldl_cleanStep_dotdots:
  "foldl (cleanStep False) (replicate m dotdot) (replicate n dotdot) = replicate (m + n) dotdot"
proof (induction n arbitrary: m)
  case (Suc n)
  have "cleanStep False (replicate m dotdot) dotdot = replicate (Suc m) dotdot"
    by (cases m) auto
  then show ?case using Suc [of "Suc m"] by simp
qed simp

lemma cleanElems_idem_aux:
  assumes "cleaned r st"
  shows "foldl (cleanStep r) [] (rev st) = st"
proof -
  obtain es n where st: "st = es @ replicate n dotdot" and es: "\<forall>e\<in>set es. plain e"
    and n: "r \<longrightarrow> n = 0"
    using assms by (auto simp: cleaned_def)
  have "foldl (cleanStep r) [] (replicate n dotdot) = replicate n dotdot"
    using n foldl_cleanStep_dotdots [of 0 n] by (cases r) auto
  with es show ?thesis by (simp add: st foldl_cleanStep_plain)
qed

lemma cleanElems_cleaned: "cleaned r (rev (cleanElems r es))"
  by (simp add: cleanElems_def foldl_cleaned del: cleanStep.simps)

lemma cleanElems_idem: "cleanElems r (cleanElems r es) = cleanElems r es"
  using cleanElems_idem_aux [OF cleanElems_cleaned [of r es]]
  by (simp add: cleanElems_def del: cleanStep.simps)

lemma cleanElems_skip [simp]: "cleanElems r ([] # es) = cleanElems r es"
  by (simp add: cleanElems_def)

lemma cleaned_nonempty: "cleaned r st \<Longrightarrow> e \<in> set st \<Longrightarrow> e \<noteq> []"
  by (force simp: cleaned_def plain_def dotdot_def)

lemma cleanElems_nonempty: "e \<in> set (cleanElems r es) \<Longrightarrow> e \<noteq> []"
  using cleaned_nonempty [OF cleanElems_cleaned] by simp

lemma cleanStep_subset: "set (cleanStep r st e) \<subseteq> set st \<union> {e}"
  by (auto dest: list.set_sel(2))

lemma foldl_cleanStep_subset: "set (foldl (cleanStep r) st es) \<subseteq> set st \<union> set es"
proof (induction es arbitrary: st)
  case (Cons e es)
  have "set (foldl (cleanStep r) (cleanStep r st e) es) \<subseteq> set (cleanStep r st e) \<union> set es"
    by (rule Cons.IH)
  with cleanStep_subset [of r st e] show ?case by (auto simp del: cleanStep.simps)
qed simp

lemma cleanElems_subset: "set (cleanElems r es) \<subseteq> set es"
  using foldl_cleanStep_subset [of r "[]" es] by (simp add: cleanElems_def)

lemma join_Nil_iff: "\<forall>e\<in>set es. e \<noteq> [] \<Longrightarrow> join c es = [] \<longleftrightarrow> es = []"
  by (cases es; cases "tl es") auto

lemma hd_join: "es \<noteq> [] \<Longrightarrow> hd es \<noteq> [] \<Longrightarrow> hd (join c es) = hd (hd es)"
  by (cases es; cases "tl es") auto

lemma clean_not_Nil [simp]: "clean p \<noteq> []"
  by (simp add: clean_def Let_def join_Nil_iff cleanElems_nonempty)

lemma isAbs_join:
  assumes "\<forall>e\<in>set es. e \<noteq> [] \<and> CHR ''/'' \<notin> set e" shows "\<not> isAbs (join CHR ''/'' es)"
proof (cases es)
  case (Cons e fs)
  with assms have "hd (join CHR ''/'' es) = hd e" "hd e \<in> set e"
    using hd_in_set [of e] by (auto simp: hd_join)
  with assms Cons show ?thesis unfolding isAbs_def by (metis list.set_intros(1))
qed simp

lemma isAbs_clean [simp]: "isAbs (clean p) \<longleftrightarrow> isAbs p"
proof -
  let ?es = "cleanElems (isAbs p) (split CHR ''/'' p)"
  have "\<forall>e\<in>set ?es. e \<noteq> [] \<and> CHR ''/'' \<notin> set e"
    using cleanElems_nonempty cleanElems_subset split_pieces by blast
  then have "\<not> isAbs (join CHR ''/'' ?es)" by (rule isAbs_join)
  then show ?thesis by (cases "isAbs p") (simp_all add: clean_def Let_def dot_def)
qed

lemma split_clean:
  "split CHR ''/'' (clean p) =
     (let es = cleanElems (isAbs p) (split CHR ''/'' p)
      in if isAbs p then (if es = [] then [[], []] else [] # es)
         else if es = [] then [dot] else es)"
proof -
  let ?es = "cleanElems (isAbs p) (split CHR ''/'' p)"
  have "\<forall>e\<in>set ?es. CHR ''/'' \<notin> set e"
    using cleanElems_subset split_pieces by blast
  then have "?es \<noteq> [] \<Longrightarrow> split CHR ''/'' (join CHR ''/'' ?es) = ?es"
    by (simp add: split_join)
  moreover have "split CHR ''/'' dot = [dot]" by (simp add: dot_def)
  ultimately show ?thesis by (cases "isAbs p") (simp_all add: clean_def Let_def)
qed

lemma clean_idem: "clean (clean p) = clean p"
proof -
  let ?es = "cleanElems (isAbs p) (split CHR ''/'' p)"
  have "cleanElems r [] = []" "cleanElems r [dot] = []" for r
    by (simp_all add: cleanElems_def)
  then have "cleanElems (isAbs p) (split CHR ''/'' (clean p)) = ?es"
    by (simp add: split_clean Let_def cleanElems_idem)
  then show ?thesis by (simp add: clean_def [of "clean p"]) (simp add: clean_def)
qed

lemma pathJoin_clean: "pathJoin ps = [] \<or> clean (pathJoin ps) = pathJoin ps"
  by (auto simp: pathJoin_def clean_idem split: list.splits)

lemma pathJoin_abs: "isAbs p \<Longrightarrow> isAbs (pathJoin (p # ps))"
proof -
  assume "isAbs p"
  then have "p \<noteq> []" "isAbs (join CHR ''/'' (p # ps))"
    by (auto simp: isAbs_def) (cases ps; auto simp: isAbs_def)+
  then show ?thesis by (simp add: pathJoin_def)
qed

lemma pathJoin_Nil_Cons [simp]: "pathJoin ([] # ps) = pathJoin ps"
  by (simp add: pathJoin_def)

lemma pathJoin_single: "p \<noteq> [] \<Longrightarrow> pathJoin [p] = clean p"
  by (simp add: pathJoin_def)

end
