(* ===== verification/FileMarshal.thy ===== *)
theory FileMarshal
  imports GoPath
begin

unbundle bit_operations_syntax

text \<open>
  Package \<^verbatim>\<open>filemarshal\<close> (\<^verbatim>\<open>src/src/filemarshal/filemarshal.go\<close>): values that contain files
  travel as the value, the list of the file names in it, and the contents of the regular
  files as chunks, each file closed by an empty chunk. The underlying encoder is the
  parameter \<open>enc\<close>, a computation on the state of the connection that may fail; the files on
  the sender's disk are the parameter \<open>disk\<close>. The receiver reads a list of messages, at
  whose end the connection is gone, and acts on its node through the system calls \<open>os\<close>.
\<close>

section \<open>Data\<close>

type_synonym byte = "8 word"

record fmFile =
  CurrentName :: string
  DestName :: string
  SymlinkTarget :: string
  Uid :: goint
  Gid :: goint
  Ftype :: goint
  Perm :: "32 word"

text \<open>A message of the underlying encoder carries its type; decoding into another one fails.\<close>

datatype 'x gobmsg = GVal 'x | GNames "string list" | GBytes "byte list"

text \<open>
  A file that can be opened has contents, of which reading may fail from some offset on.
\<close>

record diskfile =
  dContent :: "byte list"
  dFailAt :: "nat option"

type_synonym disk = "string \<rightharpoonup> diskfile"

datatype ioerr = IoEOF | IoError

datatype encerr = EncodeError | OpenError string

section \<open>Encoding\<close>

definition readable :: "diskfile \<Rightarrow> byte list" where
  "readable f = (case dFailAt f of None \<Rightarrow> dContent f | Some n \<Rightarrow> take n (dContent f))"

text \<open>
  \<^verbatim>\<open>ReadAt\<close> fills the buffer unless the file ends or fails before, and gives an error
  exactly when it does not fill it.
\<close>

definition readAt :: "diskfile \<Rightarrow> nat \<Rightarrow> nat \<Rightarrow> byte list \<times> ioerr option" where
  "readAt f len off =
     (let chunk = take len (drop off (readable f))
      in (chunk,
          if length chunk = len then None
          else if readable f = dContent f then Some IoEOF
          else Some IoError))"

definition bufSize :: nat where
  "bufSize = 8192"

text \<open>
  The loop over one file. The error of \<^verbatim>\<open>ReadAt\<close> is overwritten by that of \<^verbatim>\<open>Encode\<close> when
  bytes were read, so only a read that gives nothing ends the loop; a read error then
  counts as the end of the file.
\<close>

function sendChunks :: "('x gobmsg \<Rightarrow> ('w, encerr, unit) gm) \<Rightarrow> diskfile \<Rightarrow> nat \<Rightarrow> ('w, encerr, unit) gm"
  where
  "sendChunks enc f off =
     (let (chunk, err) = readAt f bufSize off
      in if length chunk > 0
         then andThen (enc (GBytes chunk)) (\<lambda>_. sendChunks enc f (off + length chunk))
         else ret ())"
  by pat_completeness auto
termination
  by (relation "measure (\<lambda>(enc, f, off). length (readable f) - off)")
    (auto simp: readAt_def Let_def)

declare sendChunks.simps [simp del]

text \<open>The names in the value, each once, with the first file of each name.\<close>

fun collect :: "fmFile list \<Rightarrow> string list \<times> (string \<rightharpoonup> fmFile) \<Rightarrow> string list \<times> (string \<rightharpoonup> fmFile)" where
  "collect [] acc = acc"
| "collect (f # fs) (names, files) =
     (if CurrentName f \<noteq> [] \<and> files (CurrentName f) = None
      then collect fs (names @ [CurrentName f], files(CurrentName f \<mapsto> f))
      else collect fs (names, files))"

fun sendFiles ::
  "('x gobmsg \<Rightarrow> ('w, encerr, unit) gm) \<Rightarrow> disk \<Rightarrow> (string \<rightharpoonup> fmFile) \<Rightarrow> string list
     \<Rightarrow> ('w, encerr, unit) gm" where
  "sendFiles enc disk files [] = ret ()"
| "sendFiles enc disk files (name # names) =
     (let f = the (files name)
      in if Ftype f \<noteq> 0 then sendFiles enc disk files names
         else (case disk (CurrentName f) of
           None \<Rightarrow> raise (OpenError (CurrentName f))
         | Some d \<Rightarrow>
             andThen (sendChunks enc d 0) (\<lambda>_.
             andThen (enc (GBytes [])) (\<lambda>_.
             sendFiles enc disk files names))))"

definition Encode ::
  "('x gobmsg \<Rightarrow> ('w, encerr, unit) gm) \<Rightarrow> disk \<Rightarrow> ('x \<Rightarrow> fmFile list) \<Rightarrow> 'x \<Rightarrow> ('w, encerr, unit) gm"
  where
  "Encode enc disk filesOf x =
     andThen (enc (GVal x)) (\<lambda>_.
       (let (names, files) = collect (filesOf x) ([], Map.empty)
        in andThen (enc (GNames names)) (\<lambda>_. sendFiles enc disk files names)))"

section \<open>Decoding\<close>

datatype oscall =
    MkdirAll string "32 word"
  | Chown string goint goint
  | Lstat string
  | SymlinkAt string string
  | OpenRdwrCreate string
  | WriteTo string "byte list"
  | CloseFile string

datatype 'e decerr = DecodeError | OsError 'e | DecodePanic runtime_error

type_synonym ('o, 'e) os = "oscall \<Rightarrow> ('o, 'e, unit) gm"

text \<open>A call whose result is dropped.\<close>

definition ignore :: "('o, 'e, unit) gm \<Rightarrow> 'o \<Rightarrow> 'o" where
  "ignore m s = snd (m s)"

text \<open>\<^verbatim>\<open>Lstat\<close> on the parent directory, and \<^verbatim>\<open>MkdirAll\<close> where it is missing.\<close>

definition ensureDir :: "('o, 'e) os \<Rightarrow> string \<Rightarrow> 'o \<Rightarrow> 'o" where
  "ensureDir os dir s =
     (case os (Lstat dir) s of
        (Inl _, t) \<Rightarrow> ignore (os (MkdirAll dir 0x1FF)) t
      | (Inr _, t) \<Rightarrow> t)"

fun recvChunks ::
  "('o, 'e) os \<Rightarrow> string \<Rightarrow> 'x gobmsg list \<Rightarrow> 'o \<Rightarrow> ('e decerr + unit) \<times> 'x gobmsg list \<times> 'o" where
  "recvChunks os dest (GBytes buf # ms) s =
     (if length buf = 0 then (Inr (), ms, s)
      else (case os (WriteTo dest buf) s of
        (Inl e, t) \<Rightarrow> (Inl (OsError e), ms, t)
      | (Inr _, t) \<Rightarrow> recvChunks os dest ms t))"
| "recvChunks os dest ms s = (Inl DecodeError, tl ms, s)"

text \<open>
  The body of the loop for the first file of a name; it may change the file's record, which
  is then copied over the other files of the name.
\<close>

definition recvDir :: "('o, 'e) os \<Rightarrow> string \<Rightarrow> fmFile \<Rightarrow> 'o \<Rightarrow> 'o" where
  "recvDir os destname f s =
     (case os (MkdirAll destname (Perm f AND 0x1FF)) s of
        (Inl _, t) \<Rightarrow> ignore (os (Chown destname (Uid f) (Gid f))) t
      | (Inr _, t) \<Rightarrow> t)"

definition recvSymlink ::
  "('o, 'e) os \<Rightarrow> string \<Rightarrow> string \<Rightarrow> fmFile \<Rightarrow> 'o \<Rightarrow> ('e decerr + fmFile) \<times> 'o" where
  "recvSymlink os destDir destname f s =
     (let s1 = ensureDir os (fst (pathSplit destname)) s
      in if SymlinkTarget f = [] then (Inl (DecodePanic IndexOutOfRange), s1)
         else
           (let g = (if hd (SymlinkTarget f) = CHR ''/''
                     then f\<lparr>SymlinkTarget := destDir @ SymlinkTarget f\<rparr> else f)
            in (Inr g, ignore (os (SymlinkAt (SymlinkTarget g) destname)) s1)))"

definition recvRegular ::
  "('o, 'e) os \<Rightarrow> string \<Rightarrow> fmFile \<Rightarrow> 'x gobmsg list \<Rightarrow> 'o
     \<Rightarrow> ('e decerr + unit) \<times> 'x gobmsg list \<times> 'o" where
  "recvRegular os destname f ms s =
     (let s1 = ensureDir os (fst (pathSplit destname)) s
      in case os (OpenRdwrCreate destname) s1 of
           (Inl e, s2) \<Rightarrow> (Inl (OsError e), ms, s2)
         | (Inr _, s2) \<Rightarrow>
             (case recvChunks os destname ms (ignore (os (Chown destname (Uid f) (Gid f))) s2) of
                (Inl e, ms', s3) \<Rightarrow> (Inl e, ms', s3)
              | (Inr _, ms', s3) \<Rightarrow>
                  (case os (CloseFile destname) s3 of
                     (Inl e, s4) \<Rightarrow> (Inl (OsError e), ms', s4)
                   | (Inr _, s4) \<Rightarrow> (Inr (), ms', s4))))"

definition recvFile ::
  "('o, 'e) os \<Rightarrow> string \<Rightarrow> fmFile \<Rightarrow> 'x gobmsg list \<Rightarrow> 'o
     \<Rightarrow> ('e decerr + fmFile) \<times> 'x gobmsg list \<times> 'o" where
  "recvFile os destDir f ms s =
     (let destname = destDir @ DestName f
      in if Ftype f = 1 then (Inr f, ms, recvDir os destname f s)
         else if Ftype f = 2 then
           (case recvSymlink os destDir destname f s of (r, t) \<Rightarrow> (r, ms, t))
         else if Ftype f = 0 then
           (case recvRegular os destname f ms s of
              (Inl e, ms', t) \<Rightarrow> (Inl e, ms', t)
            | (Inr _, ms', t) \<Rightarrow> (Inr f, ms', t))
         else (Inr f, ms, s))"

text \<open>
  The loop over the names. The files of the received value are a list here; all those of
  one name are overwritten by the first of them.
\<close>

definition overwrite :: "string \<Rightarrow> fmFile \<Rightarrow> fmFile list \<Rightarrow> fmFile list" where
  "overwrite name g fs = map (\<lambda>f. if CurrentName f = name then g else f) fs"

fun recvFiles ::
  "('o, 'e) os \<Rightarrow> string \<Rightarrow> string list \<Rightarrow> fmFile list \<Rightarrow> 'x gobmsg list \<Rightarrow> 'o
     \<Rightarrow> ('e decerr + fmFile list) \<times> 'x gobmsg list \<times> 'o" where
  "recvFiles os destDir [] fs ms s = (Inr fs, ms, s)"
| "recvFiles os destDir (name # names) fs ms s =
     (case List.find (\<lambda>f. CurrentName f \<noteq> [] \<and> CurrentName f = name) fs of
        None \<Rightarrow> recvFiles os destDir names fs ms s
      | Some f \<Rightarrow>
          (case recvFile os destDir f ms s of
             (Inl e, ms', t) \<Rightarrow> (Inl e, ms', t)
           | (Inr g, ms', t) \<Rightarrow> recvFiles os destDir names (overwrite name g fs) ms' t))"

text \<open>\<^verbatim>\<open>Decode\<close> gives the value and its files as it leaves them.\<close>

fun Decode ::
  "('o, 'e) os \<Rightarrow> string \<Rightarrow> ('x \<Rightarrow> fmFile list) \<Rightarrow> 'x gobmsg list \<Rightarrow> 'o
     \<Rightarrow> ('e decerr + 'x \<times> fmFile list) \<times> 'x gobmsg list \<times> 'o" where
  "Decode os destDir filesOf (GVal x # GNames names # ms) s =
     (case recvFiles os destDir names (filesOf x) ms s of
        (Inl e, ms', t) \<Rightarrow> (Inl e, ms', t)
      | (Inr fs, ms', t) \<Rightarrow> (Inr (x, fs), ms', t))"
| "Decode os destDir filesOf (GVal x # ms) s = (Inl DecodeError, tl ms, s)"
| "Decode os destDir filesOf ms s = (Inl DecodeError, tl ms, s)"

end
