(* ===== verification/Requests.thy ===== *)
theory Requests
  imports Registry FileMarshal
begin

text \<open>
  The messages of gproc: the request to start a command, the files it brings along and the
  responses (\<^verbatim>\<open>StartReq\<close>, \<^verbatim>\<open>cmdToExec\<close>, \<^verbatim>\<open>Resp\<close>, \<^verbatim>\<open>newStartReq\<close> and the first part of
  \<^verbatim>\<open>cacheRelayFilesAndDelegateExec\<close>, \<^verbatim>\<open>src/src/gproc/common.go\<close>).
\<close>

record cmdToExec =
  cmCurrentName :: string
  cmDestName :: string
  cmSymlinkTarget :: string
  cmLocal :: goint
  cmUid :: goint
  cmGid :: goint
  cmFtype :: goint
  cmPerm :: "32 word"

record startReq =
  rqCommand :: string
  rqNodes :: string
  rqPeers :: "string list"
  rqThisNode :: bool
  rqLocalBin :: bool
  rqArgs :: "string list"
  rqEnv :: "string list"
  rqLibList :: "string list"
  rqPath :: string
  rqLfam :: string
  rqLserver :: string
  rqBytesToTransfer :: "64 word"
  rqUid :: goint
  rqGid :: goint
  rqCmds :: "cmdToExec list"
  rqPeerGroupSize :: goint
  rqCwd :: string
  rqFiles :: "fmFile list"

record resp =
  rsNumNodes :: goint
  rsMsg :: string

text \<open>\<^verbatim>\<open>Resp.String\<close>.\<close>

definition respString :: "resp \<Rightarrow> string" where
  "respString r = (if length (rsMsg r) = 0 then ''<nil>'' else rsMsg r)"

text \<open>The zero value, from which a composite literal leaves the fields it does not name.\<close>

definition zeroReq :: startReq where
  "zeroReq =
     \<lparr>rqCommand = [], rqNodes = [], rqPeers = [], rqThisNode = False, rqLocalBin = False,
      rqArgs = [], rqEnv = [], rqLibList = [], rqPath = [], rqLfam = [], rqLserver = [],
      rqBytesToTransfer = 0, rqUid = 0, rqGid = 0, rqCmds = [], rqPeerGroupSize = 0, rqCwd = [],
      rqFiles = []\<rparr>"

definition newStartReq :: "startReq \<Rightarrow> startReq" where
  "newStartReq arg =
     zeroReq\<lparr>rqCommand := rqCommand arg, rqNodes := rqNodes arg, rqThisNode := True,
       rqLocalBin := rqLocalBin arg, rqPeers := rqPeers arg, rqArgs := rqArgs arg,
       rqEnv := rqEnv arg, rqLibList := rqLibList arg, rqPath := rqPath arg, rqLfam := rqLfam arg,
       rqLserver := rqLserver arg, rqCmds := rqCmds arg,
       rqBytesToTransfer := rqBytesToTransfer arg, rqCwd := rqCwd arg\<rparr>"

text \<open>The file that stands for a command entry: read under \<open>root\<close>, stored under its own name.\<close>

definition cmdFile :: "string \<Rightarrow> cmdToExec \<Rightarrow> fmFile" where
  "cmdFile root c =
     \<lparr>CurrentName = root @ cmDestName c, DestName = cmDestName c,
      SymlinkTarget = cmSymlinkTarget c, Uid = cmUid c, Gid = cmGid c, Ftype = cmFtype c,
      Perm = cmPerm c\<rparr>"

fun addFiles :: "string \<Rightarrow> cmdToExec list \<Rightarrow> fmFile list \<Rightarrow> fmFile list" where
  "addFiles root [] files = files"
| "addFiles root (c # cs) files =
     (if sint (cmFtype c) \<le> 2 then addFiles root cs (files @ [cmdFile root c])
      else addFiles root cs files)"

definition relayReq :: "startReq \<Rightarrow> string \<Rightarrow> startReq" where
  "relayReq arg root =
     (let larg = newStartReq arg
      in larg\<lparr>rqFiles := addFiles root (rqCmds larg) (rqFiles larg)\<rparr>)"

lemma addFiles_eq:
  "addFiles root cs files = files @ map (cmdFile root) (filter (\<lambda>c. sint (cmFtype c) \<le> 2) cs)"
  by (induction cs arbitrary: files) auto

lemma relayReq_simps [simp]:
  "rqNodes (relayReq arg root) = rqNodes arg"
  "rqCmds (relayReq arg root) = rqCmds arg"
  "rqArgs (relayReq arg root) = rqArgs arg"
  "rqFiles (relayReq arg root) = map (cmdFile root) (filter (\<lambda>c. sint (cmFtype c) \<le> 2) (rqCmds arg))"
  "rqThisNode (relayReq arg root)"
  by (simp_all add: relayReq_def newStartReq_def zeroReq_def addFiles_eq)

text \<open>
  Relaying forgets only the request's own files, its identity and its group size, so a
  request that was relayed once is relayed unchanged from then on.
\<close>

lemma relayReq_relayReq [simp]: "relayReq (relayReq arg root) root' = relayReq arg root'"
  by (simp add: relayReq_def newStartReq_def addFiles_eq zeroReq_def Let_def)

lemma relayReq_Nodes: "relayReq (arg\<lparr>rqNodes := ns\<rparr>) root = (relayReq arg root)\<lparr>rqNodes := ns\<rparr>"
  by (simp add: relayReq_def newStartReq_def zeroReq_def Let_def)

end
