(* ===== verification/Pack.thy ===== *)
theory Pack
  imports Requests
begin

text \<open>
  Gathering the files of a command: \<^verbatim>\<open>packVisitor\<close>, \<^verbatim>\<open>VisitDir\<close>, \<^verbatim>\<open>VisitFile\<close>, \<^verbatim>\<open>resolveLink\<close> and
  \<^verbatim>\<open>walkFunc\<close> of \<^verbatim>\<open>src/src/gproc/mexec.go\<close>, driven by \<^verbatim>\<open>filepath.Walk\<close>. The file system is an
  argument and does not change; the fuel counts how deep directories and links nest.
\<close>

section \<open>The file system\<close>

datatype fkind = Regular | Directory | Symlink | Special

record finfo =
  fiKind :: fkind
  fiPerm :: "32 word"
  fiUid :: "32 word"
  fiGid :: "32 word"
  fiSize :: "64 word"

text \<open>\<^verbatim>\<open>Lstat\<close>, the sorted names in a directory, and \<^verbatim>\<open>Readlink\<close>; \<open>None\<close> is an error.\<close>

record fsys =
  fsLstat :: "string \<Rightarrow> finfo option"
  fsReaddir :: "string \<Rightarrow> string list option"
  fsReadlink :: "string \<Rightarrow> string option"

section \<open>The visitor\<close>

record packVisitor =
  pvCmds :: "cmdToExec list"
  pvVisited :: "string set"
  pvBytes :: "64 word"

definition newPackVisitor :: packVisitor where
  "newPackVisitor = \<lparr>pvCmds = [], pvVisited = {}, pvBytes = 0\<rparr>"

definition isNull :: "char \<Rightarrow> bool" where
  "isNull c \<longleftrightarrow> c = CHR 0x00"

definition trimPath :: "string \<Rightarrow> string" where
  "trimPath p = trimRightFunc (trimSpace p) isNull"

fun ftypeOf :: "fkind \<Rightarrow> goint" where
  "ftypeOf Regular = 0"
| "ftypeOf Directory = 1"
| "ftypeOf Symlink = 2"
| "ftypeOf Special = 3"

definition mkCmd :: "string \<Rightarrow> finfo \<Rightarrow> cmdToExec" where
  "mkCmd filePath f =
     \<lparr>cmCurrentName = filePath, cmDestName = filePath, cmSymlinkTarget = [], cmLocal = 0,
      cmUid = ucast (fiUid f), cmGid = ucast (fiGid f), cmFtype = ftypeOf (fiKind f), cmPerm = fiPerm f\<rparr>"

text \<open>The result says whether to go down into the directory.\<close>

definition VisitDir :: "string \<Rightarrow> finfo \<Rightarrow> packVisitor \<Rightarrow> bool \<times> packVisitor" where
  "VisitDir path f p =
     (let filePath = trimPath path
      in if filePath \<in> pvVisited p then (False, p)
         else
           (let p1 = p\<lparr>pvCmds := pvCmds p @ [mkCmd filePath f], pvVisited := insert filePath (pvVisited p)\<rparr>
            in if hasSuffix filePath ''/.'' then (False, p1) else (True, p1)))"

text \<open>\<open>Inl\<close> is the panic of \<^verbatim>\<open>log_error\<close> when the link cannot be read.\<close>

definition resolveLink :: "fsys \<Rightarrow> string \<Rightarrow> string + string \<times> string" where
  "resolveLink fs filePath =
     (let linkPath = (case fsReadlink fs filePath of None \<Rightarrow> [] | Some l \<Rightarrow> l);
          (linkDir, linkFile) = pathSplit linkPath;
          linkDir' =
            (if linkDir = [] then fst (pathSplit filePath)
             else if linkDir ! 0 \<noteq> CHR ''/'' then pathJoin [fst (pathSplit filePath), linkDir]
             else linkDir)
      in if fsReadlink fs filePath = None then Inl ''VisitFile: readlink: ''
         else Inr (linkPath, pathJoin [linkDir', linkFile]))"

text \<open>
  \<open>walk\<close> is \<^verbatim>\<open>filepath.Walk\<close> behind its \<^verbatim>\<open>Lstat\<close>, with \<^verbatim>\<open>walkFunc\<close> as the function; \<open>VisitFile\<close> walks
  again from the target of a link, and marks the link as visited only then.
\<close>

function (sequential) walk ::
    "fsys \<Rightarrow> nat \<Rightarrow> string \<Rightarrow> finfo \<Rightarrow> packVisitor \<Rightarrow> ((string + unit) \<times> packVisitor) option"
  and walkNames ::
    "fsys \<Rightarrow> nat \<Rightarrow> string \<Rightarrow> string list \<Rightarrow> packVisitor \<Rightarrow> ((string + unit) \<times> packVisitor) option"
  and VisitFile ::
    "fsys \<Rightarrow> nat \<Rightarrow> string \<Rightarrow> finfo \<Rightarrow> packVisitor \<Rightarrow> ((string + unit) \<times> packVisitor) option"
  and Walk :: "fsys \<Rightarrow> nat \<Rightarrow> string \<Rightarrow> packVisitor \<Rightarrow> ((string + unit) \<times> packVisitor) option"
  where
  "walk fs n path info p =
     (if fiKind info = Directory then
        (case VisitDir path info p of
           (False, p1) \<Rightarrow> Some (Inr (), p1)
         | (True, p1) \<Rightarrow>
             (case fsReaddir fs path of
                None \<Rightarrow> Some (Inr (), p1)
              | Some names \<Rightarrow> walkNames fs n path names p1))
      else VisitFile fs n path info p)"
| "walkNames fs n path [] p = Some (Inr (), p)"
| "walkNames fs n path (name # names) p =
     thenE
       (case fsLstat fs (pathJoin [path, name]) of
          None \<Rightarrow> Some (Inr (), p)
        | Some info \<Rightarrow>
            (case n of 0 \<Rightarrow> None | Suc k \<Rightarrow> walk fs k (pathJoin [path, name]) info p))
       (\<lambda>p1. walkNames fs n path names p1)"
| "VisitFile fs n path f p =
     (let filePath = trimPath path
      in if filePath \<in> pvVisited p then Some (Inr (), p)
         else
           (let c = mkCmd filePath f
            in case fiKind f of
                 Regular \<Rightarrow>
                   Some (Inr (), p\<lparr>pvCmds := pvCmds p @ [c], pvBytes := pvBytes p + fiSize f,
                                   pvVisited := insert filePath (pvVisited p)\<rparr>)
               | Symlink \<Rightarrow>
                   (case resolveLink fs filePath of
                      Inl e \<Rightarrow> Some (Inl e, p\<lparr>pvCmds := pvCmds p @ [c]\<rparr>)
                    | Inr (target, walkPath) \<Rightarrow>
                        thenE
                          (case n of
                             0 \<Rightarrow> None
                           | Suc k \<Rightarrow>
                               Walk fs k walkPath
                                 (p\<lparr>pvCmds := pvCmds p @ [c\<lparr>cmSymlinkTarget := target\<rparr>]\<rparr>))
                          (\<lambda>p1. Some (Inr (), p1\<lparr>pvVisited := insert filePath (pvVisited p1)\<rparr>)))
               | _ \<Rightarrow>
                   Some (Inr (), p\<lparr>pvCmds := pvCmds p @ [c],
                                   pvVisited := insert filePath (pvVisited p)\<rparr>)))"
| "Walk fs n root p =
     (case fsLstat fs root of
        None \<Rightarrow> Some (Inr (), p)
      | Some info \<Rightarrow> walk fs n root info p)"
  by pat_completeness auto
termination
  by (relation "measures
      [\<lambda>x. case x of Inl (Inl (fs, n, path, info, p)) \<Rightarrow> n | Inl (Inr (fs, n, path, names, p)) \<Rightarrow> n
         | Inr (Inl (fs, n, path, f, p)) \<Rightarrow> n | Inr (Inr (fs, n, root, p)) \<Rightarrow> n,
       \<lambda>x. case x of Inl (Inl _) \<Rightarrow> 1 | Inl (Inr (fs, n, path, names, p)) \<Rightarrow> 0
         | Inr (Inl _) \<Rightarrow> 0 | Inr (Inr _) \<Rightarrow> 2,
       \<lambda>x. case x of Inl (Inr (fs, n, path, names, p)) \<Rightarrow> length names | _ \<Rightarrow> 0]")
    auto

declare walk.simps [simp del] VisitFile.simps [simp del] Walk.simps [simp del]

section \<open>What a walk leaves\<close>

text \<open>
  The places a place leads to: the entries of a directory, unless it is given as \<^verbatim>\<open>dir/.\<close>, and
  the target of a link.
\<close>

definition leadsTo :: "fsys \<Rightarrow> string \<Rightarrow> string set" where
  "leadsTo fs x =
     (case fsLstat fs x of
        None \<Rightarrow> {}
      | Some info \<Rightarrow>
          (if fiKind info = Directory then
             (if hasSuffix x ''/.'' then {}
              else case fsReaddir fs x of None \<Rightarrow> {} | Some names \<Rightarrow>
                {y \<in> (\<lambda>nm. pathJoin [x, nm]) ` set names. fsLstat fs y \<noteq> None})
           else if fiKind info = Symlink then
             (case resolveLink fs x of Inl e \<Rightarrow> {} | Inr (target, y) \<Rightarrow>
                (if fsLstat fs y = None then {} else {y}))
           else {}))"

text \<open>The names of the file system are such that trimming leaves them alone.\<close>

definition trimmed :: "fsys \<Rightarrow> bool" where
  "trimmed fs \<longleftrightarrow> (\<forall>x. fsLstat fs x \<noteq> None \<longrightarrow> trimPath x = x)"

text \<open>
  A walk from \<open>p\<close> to \<open>q\<close>: it only adds, what it adds exists and has all it leads to, and every
  place that was added to the visited ones has its entry.
\<close>

definition cmdFor :: "fsys \<Rightarrow> string \<Rightarrow> cmdToExec option" where
  "cmdFor fs x =
     (case fsLstat fs x of
        None \<Rightarrow> None
      | Some f \<Rightarrow>
          Some ((mkCmd x f)\<lparr>cmSymlinkTarget :=
             (if fiKind f = Symlink then (case fsReadlink fs x of None \<Rightarrow> [] | Some l \<Rightarrow> l) else [])\<rparr>))"

definition extends :: "fsys \<Rightarrow> packVisitor \<Rightarrow> packVisitor \<Rightarrow> bool" where
  "extends fs p q \<longleftrightarrow>
     pvVisited p \<subseteq> pvVisited q \<and>
     (\<forall>x\<in>pvVisited q - pvVisited p. leadsTo fs x \<subseteq> pvVisited q \<and> fsLstat fs x \<noteq> None) \<and>
     (\<exists>cs. pvCmds q = pvCmds p @ cs \<and> (\<forall>c\<in>set cs. cmdFor fs (cmDestName c) = Some c \<and> cmDestName c \<in> pvVisited q) \<and>
        pvVisited q - pvVisited p \<subseteq> cmDestName ` set cs)"

lemma extends_refl: "extends fs p p"
  by (simp add: extends_def)

lemma extends_trans:
  assumes "extends fs p q" and "extends fs q r" shows "extends fs p r"
proof -
  from assms obtain cs ds where
    c: "pvCmds q = pvCmds p @ cs" "\<forall>c\<in>set cs. cmdFor fs (cmDestName c) = Some c \<and> cmDestName c \<in> pvVisited q"
      "pvVisited q - pvVisited p \<subseteq> cmDestName ` set cs"
    and d: "pvCmds r = pvCmds q @ ds" "\<forall>c\<in>set ds. cmdFor fs (cmDestName c) = Some c \<and> cmDestName c \<in> pvVisited r"
      "pvVisited r - pvVisited q \<subseteq> cmDestName ` set ds"
    and v: "pvVisited p \<subseteq> pvVisited q" "pvVisited q \<subseteq> pvVisited r"
      "\<forall>x\<in>pvVisited q - pvVisited p. leadsTo fs x \<subseteq> pvVisited q \<and> fsLstat fs x \<noteq> None"
      "\<forall>x\<in>pvVisited r - pvVisited q. leadsTo fs x \<subseteq> pvVisited r \<and> fsLstat fs x \<noteq> None"
    unfolding extends_def by blast
  have "pvCmds r = pvCmds p @ cs @ ds" using c(1) d(1) by simp
  moreover have "\<forall>c\<in>set (cs @ ds). cmdFor fs (cmDestName c) = Some c \<and> cmDestName c \<in> pvVisited r"
    using c(2) d(2) v(2) unfolding set_append by blast
  moreover have "pvVisited r - pvVisited p \<subseteq> cmDestName ` set (cs @ ds)" using c(3) d(3) by auto
  moreover have "\<forall>x\<in>pvVisited r - pvVisited p. leadsTo fs x \<subseteq> pvVisited r \<and> fsLstat fs x \<noteq> None"
    using v by blast
  ultimately show ?thesis unfolding extends_def using v(1,2) by blast
qed

lemma cmDestName_mkCmd [simp]: "cmDestName (mkCmd x f) = x" "cmSymlinkTarget (mkCmd x f) = []"
  by (simp_all add: mkCmd_def)

lemma extends_one:
  assumes "pvVisited q = insert x (pvVisited p)" and "pvCmds q = pvCmds p @ [c]"
    and "cmdFor fs x = Some c" and "cmDestName c = x" and "leadsTo fs x \<subseteq> pvVisited q"
  shows "extends fs p q"
  using assms unfolding extends_def by (auto simp: cmdFor_def split: option.splits)

text \<open>A place is entered, then what it leads to is walked, then it counts as visited.\<close>

lemma extends_enter:
  assumes e: "extends fs p1 q1" and p1: "pvVisited p1 \<subseteq> insert x (pvVisited p)" "pvVisited p \<subseteq> pvVisited p1"
      "pvCmds p1 = pvCmds p @ [c]"
    and q: "pvVisited q = insert x (pvVisited q1)" "pvCmds q = pvCmds q1"
    and c: "cmdFor fs x = Some c" "cmDestName c = x" and "leadsTo fs x \<subseteq> pvVisited q"
  shows "extends fs p q"
proof -
  from e obtain cs where v: "pvVisited p1 \<subseteq> pvVisited q1"
    and l: "\<forall>y\<in>pvVisited q1 - pvVisited p1. leadsTo fs y \<subseteq> pvVisited q1 \<and> fsLstat fs y \<noteq> None"
    and cs: "pvCmds q1 = pvCmds p1 @ cs"
      "\<forall>c\<in>set cs. cmdFor fs (cmDestName c) = Some c \<and> cmDestName c \<in> pvVisited q1"
      "pvVisited q1 - pvVisited p1 \<subseteq> cmDestName ` set cs" unfolding extends_def by blast
  have new: "pvVisited q - pvVisited p \<subseteq> insert x (pvVisited q1 - pvVisited p1)" using p1 q(1) by blast
  have "fsLstat fs x \<noteq> None" using c(1) by (auto simp: cmdFor_def split: option.splits)
  with new l assms(9) q(1) have "\<forall>y\<in>pvVisited q - pvVisited p. leadsTo fs y \<subseteq> pvVisited q \<and> fsLstat fs y \<noteq> None"
    by blast
  moreover have "pvCmds q = pvCmds p @ c # cs" using cs(1) p1(3) q(2) by simp
  moreover have "\<forall>c\<in>set (c # cs). cmdFor fs (cmDestName c) = Some c \<and> cmDestName c \<in> pvVisited q"
    using cs(2) c q(1) by auto
  moreover have "pvVisited q - pvVisited p \<subseteq> cmDestName ` set (c # cs)" using new cs(3) c(2) by auto
  ultimately show ?thesis unfolding extends_def using p1(2) v q(1) by blast
qed

lemma resolveLink_Inr:
  "resolveLink fs x = Inr (target, y) \<Longrightarrow> fsReadlink fs x = Some target"
  by (auto simp: resolveLink_def Let_def split: prod.splits if_splits)

lemma leadsTo_dir:
  assumes "fsLstat fs x = Some info" and "fiKind info = Directory"
  shows "leadsTo fs x = (if hasSuffix x ''/.'' then {}
     else case fsReaddir fs x of None \<Rightarrow> {} | Some names \<Rightarrow>
       {y \<in> (\<lambda>nm. pathJoin [x, nm]) ` set names. fsLstat fs y \<noteq> None})"
  using assms by (simp add: leadsTo_def)

lemma walk_extends:
  shows "trimmed fs \<Longrightarrow> walk fs n path info p = Some (Inr (), q) \<Longrightarrow> fsLstat fs path = Some info \<Longrightarrow>
      extends fs p q \<and> path \<in> pvVisited q"
    and "trimmed fs \<Longrightarrow> walkNames fs n path names p = Some (Inr (), q) \<Longrightarrow>
      extends fs p q \<and> (\<forall>nm\<in>set names. fsLstat fs (pathJoin [path, nm]) \<noteq> None \<longrightarrow> pathJoin [path, nm] \<in> pvVisited q)"
    and "trimmed fs \<Longrightarrow> VisitFile fs n path info p = Some (Inr (), q) \<Longrightarrow> fsLstat fs path = Some info \<Longrightarrow>
      fiKind info \<noteq> Directory \<Longrightarrow> extends fs p q \<and> path \<in> pvVisited q"
    and "trimmed fs \<Longrightarrow> Walk fs n path p = Some (Inr (), q) \<Longrightarrow>
      extends fs p q \<and> (fsLstat fs path \<noteq> None \<longrightarrow> path \<in> pvVisited q)"
proof (induction fs n path info p and fs n path names p and fs n path info p and fs n path p
    arbitrary: q and q and q and q rule: walk_walkNames_VisitFile_Walk.induct)
  case (1 fs n path info p)
  from 1(3,5) have t: "trimPath path = path" by (simp add: trimmed_def)
  show ?case
  proof (cases "fiKind info = Directory")
    case False
    with 1(2) [OF False 1(3)] 1(4,5) show ?thesis by (simp add: walk.simps)
  next
    case True
    let ?p1 = "p\<lparr>pvCmds := pvCmds p @ [mkCmd path info], pvVisited := insert path (pvVisited p)\<rparr>"
    have cf: "cmdFor fs path = Some (mkCmd path info)" using 1(5) True by (simp add: cmdFor_def mkCmd_def)
    show ?thesis
    proof (cases "path \<in> pvVisited p")
      case vis: True
      with True t 1(4) have "q = p" by (simp add: walk.simps VisitDir_def Let_def)
      with vis show ?thesis by (simp add: extends_refl)
    next
      case new: False
      show ?thesis
      proof (cases "hasSuffix path ''/.'' \<or> fsReaddir fs path = None")
        case stop: True
        with True t new 1(4) have q: "q = ?p1"
          by (auto simp: walk.simps VisitDir_def Let_def split: if_splits)
        have "leadsTo fs path = {}" using leadsTo_dir [OF 1(5) True] stop by auto
        with cf show ?thesis unfolding q by (auto intro: extends_one)
      next
        case go: False
        then obtain names where names: "fsReaddir fs path = Some names" by auto
        have vd: "VisitDir path info p = (True, ?p1)" using go new t by (simp add: VisitDir_def Let_def)
        with True names 1(4) have "walkNames fs n path names ?p1 = Some (Inr (), q)"
          by (simp add: walk.simps)
        from 1(1) [OF True vd [symmetric] refl names 1(3) this]
        have e: "extends fs ?p1 q" and all: "\<forall>nm\<in>set names. fsLstat fs (pathJoin [path, nm]) \<noteq> None \<longrightarrow> pathJoin [path, nm] \<in> pvVisited q"
          by blast+
        from e have pv: "path \<in> pvVisited q" by (auto simp: extends_def)
        have "leadsTo fs path \<subseteq> pvVisited q" using leadsTo_dir [OF 1(5) True] go names all by auto
        with extends_enter [OF e, of path p "mkCmd path info" q] cf pv show ?thesis
          by (simp add: insert_absorb subset_insertI)
      qed
    qed
  qed
next
  case (2 fs n path p)
  then show ?case by (simp add: extends_refl)
next
  case (3 fs n path name names p)
  let ?y = "pathJoin [path, name]"
  show ?case
  proof (cases "fsLstat fs ?y")
    case None
    with 3(4) have "walkNames fs n path names p = Some (Inr (), q)" by simp
    with 3(2) [OF _ 3(3) this] None show ?thesis by simp
  next
    case (Some info)
    with 3(4) obtain k p1 where n: "n = Suc k" and w: "walk fs k ?y info p = Some (Inr (), p1)"
      and r: "walkNames fs n path names p1 = Some (Inr (), q)"
      by (auto elim!: thenE_SomeE split: nat.splits)
    from 3(1) [OF Some n 3(3) w Some] have e1: "extends fs p p1" "?y \<in> pvVisited p1" by blast+
    have "(case fsLstat fs ?y of None \<Rightarrow> Some (Inr (), p)
        | Some info \<Rightarrow> (case n of 0 \<Rightarrow> None | Suc k \<Rightarrow> walk fs k ?y info p)) = Some (Inr (), p1)"
      using Some n w by simp
    from 3(2) [OF this 3(3) r] have e2: "extends fs p1 q"
      and all: "\<forall>nm\<in>set names. fsLstat fs (pathJoin [path, nm]) \<noteq> None \<longrightarrow> pathJoin [path, nm] \<in> pvVisited q" by blast+
    have "?y \<in> pvVisited q" using e1(2) e2 by (auto simp: extends_def)
    with all extends_trans [OF e1(1) e2] show ?thesis by simp
  qed
next
  case (4 fs n path f p)
  from 4(2,4) have t: "trimPath path = path" by (simp add: trimmed_def)
  show ?case
  proof (cases "path \<in> pvVisited p")
    case True
    with t 4(3) have "q = p" by (simp add: VisitFile.simps Let_def)
    with True show ?thesis by (simp add: extends_refl)
  next
    case False
    show ?thesis
    proof (cases "fiKind f = Symlink")
      case link: True
      with False t 4(3) obtain target y where rl: "resolveLink fs path = Inr (target, y)"
        by (cases "resolveLink fs path") (auto simp: VisitFile.simps Let_def)
      let ?c = "(mkCmd path f)\<lparr>cmSymlinkTarget := target\<rparr>"
      let ?p1 = "p\<lparr>pvCmds := pvCmds p @ [?c]\<rparr>"
      from link False t 4(3) rl obtain k q1 where n: "n = Suc k" and w: "Walk fs k y ?p1 = Some (Inr (), q1)"
        and q: "q = q1\<lparr>pvVisited := insert path (pvVisited q1)\<rparr>"
        by (auto simp: VisitFile.simps Let_def elim!: thenE_SomeE split: nat.splits)
      have "extends fs ?p1 q1 \<and> (fsLstat fs y \<noteq> None \<longrightarrow> y \<in> pvVisited q1)"
        using 4(1) t False link rl n 4(2) w by auto
      then have e: "extends fs ?p1 q1" and y: "fsLstat fs y \<noteq> None \<longrightarrow> y \<in> pvVisited q1" by blast+
      have "cmdFor fs path = Some ?c"
        using 4(4) link resolveLink_Inr [OF rl] by (simp add: cmdFor_def)
      moreover have "leadsTo fs path \<subseteq> pvVisited q"
        using 4(4) link rl y q by (auto simp: leadsTo_def)
      ultimately show ?thesis using extends_enter [OF e, of path p ?c q] q by auto
    next
      case False2: False
      have "cmdFor fs path = Some (mkCmd path f)" using 4(4) False2 by (simp add: cmdFor_def mkCmd_def)
      moreover have "leadsTo fs path = {}" using 4(4,5) False2 by (simp add: leadsTo_def)
      moreover from 4(3,5) False2 False t have "pvCmds q = pvCmds p @ [mkCmd path f]"
        "pvVisited q = insert path (pvVisited p)"
        by (auto simp: VisitFile.simps Let_def split: fkind.splits)
      ultimately show ?thesis by (auto intro: extends_one)
    qed
  qed
next
  case (5 fs n root p)
  show ?case
  proof (cases "fsLstat fs root")
    case None
    with 5(3) show ?thesis by (simp add: Walk.simps extends_refl)
  next
    case (Some info)
    with 5(1) [OF Some 5(2)] 5(3) show ?thesis by (simp add: Walk.simps)
  qed
qed

end
