(* ===== verification/PackProps.thy ===== *)
theory PackProps
  imports Pack
begin

text \<open>
  What gathering guarantees: it lists exactly the places that can be reached from where it
  starts, each directory and file once, it counts the bytes of the regular files, and it
  ends unless links lead in a circle.
\<close>

section \<open>Nothing else\<close>

definition reach :: "fsys \<Rightarrow> string \<Rightarrow> string set" where
  "reach fs x = {y. (x, y) \<in> {(a, b). b \<in> leadsTo fs a}\<^sup>*}"

lemma reach_self [simp]: "x \<in> reach fs x"
  by (simp add: reach_def)

lemma reach_step: "y \<in> leadsTo fs x \<Longrightarrow> reach fs y \<subseteq> reach fs x"
  by (auto simp: reach_def intro: converse_rtrancl_into_rtrancl)

definition adds :: "fsys \<Rightarrow> string set \<Rightarrow> packVisitor \<Rightarrow> packVisitor \<Rightarrow> bool" where
  "adds fs X p q \<longleftrightarrow> (\<exists>cs. pvCmds q = pvCmds p @ cs \<and> cmDestName ` set cs \<subseteq> X)"

lemma adds_refl [simp]: "adds fs X p p"
  by (simp add: adds_def)

lemma adds_trans: "adds fs X p q \<Longrightarrow> adds fs X q r \<Longrightarrow> adds fs X p r"
  by (auto simp: adds_def image_subset_iff)

lemma adds_mono: "adds fs X p q \<Longrightarrow> X \<subseteq> Y \<Longrightarrow> adds fs Y p q"
  by (auto simp: adds_def)

lemma adds_one: "adds fs X p1 q \<Longrightarrow> pvCmds p1 = pvCmds p @ [c] \<Longrightarrow> cmDestName c \<in> X \<Longrightarrow> adds fs X p q"
  by (auto simp: adds_def)

lemma walk_adds:
  shows "trimmed fs \<Longrightarrow> walk fs n path info p = Some (Inr (), q) \<Longrightarrow> fsLstat fs path = Some info \<Longrightarrow>
      adds fs (reach fs path) p q"
    and "trimmed fs \<Longrightarrow> walkNames fs n path names p = Some (Inr (), q) \<Longrightarrow>
      adds fs (\<Union>y\<in>{y \<in> (\<lambda>nm. pathJoin [path, nm]) ` set names. fsLstat fs y \<noteq> None}. reach fs y) p q"
    and "trimmed fs \<Longrightarrow> VisitFile fs n path info p = Some (Inr (), q) \<Longrightarrow> fsLstat fs path = Some info \<Longrightarrow>
      fiKind info \<noteq> Directory \<Longrightarrow> adds fs (reach fs path) p q"
    and "trimmed fs \<Longrightarrow> Walk fs n path p = Some (Inr (), q) \<Longrightarrow>
      adds fs (if fsLstat fs path = None then {} else reach fs path) p q"
proof (induction fs n path info p and fs n path names p and fs n path info p and fs n path p
    arbitrary: q and q and q and q rule: walk_walkNames_VisitFile_Walk.induct)
  case (1 fs n path info p)
  from 1(3,5) have t: "trimPath path = path" by (simp add: trimmed_def)
  show ?case
  proof (cases "fiKind info = Directory")
    case False
    with 1(2) [OF False 1(3)] 1(4,5) show ?thesis by (simp add: walk.simps)
  next
    case True
    let ?p1 = "p\<lparr>pvCmds := pvCmds p @ [mkCmd path info], pvVisited := insert path (pvVisited p)\<rparr>"
    show ?thesis
    proof (cases "path \<notin> pvVisited p \<and> \<not> hasSuffix path ''/.'' \<and> fsReaddir fs path \<noteq> None")
      case False
      with True t 1(4) have "q = p \<or> q = ?p1"
        by (auto simp: walk.simps VisitDir_def Let_def split: if_splits)
      then show ?thesis by (auto simp: adds_def)
    next
      case go: True
      then obtain names where names: "fsReaddir fs path = Some names" by auto
      have vd: "VisitDir path info p = (True, ?p1)" using go t by (simp add: VisitDir_def Let_def)
      with True names 1(4) have "walkNames fs n path names ?p1 = Some (Inr (), q)"
        by (simp add: walk.simps)
      from 1(1) [OF True vd [symmetric] refl names 1(3) this]
      have "adds fs (\<Union>y\<in>leadsTo fs path. reach fs y) ?p1 q"
        using leadsTo_dir [OF 1(5) True] go names by simp
      then have "adds fs (reach fs path) ?p1 q"
        by (rule adds_mono) (use reach_step in blast)
      then show ?thesis by (rule adds_one [where c = "mkCmd path info"]) simp_all
    qed
  qed
next
  case (2 fs n path p)
  then show ?case by simp
next
  case (3 fs n path name names p)
  let ?y = "pathJoin [path, name]"
  show ?case
  proof (cases "fsLstat fs ?y")
    case None
    with 3(4) have "walkNames fs n path names p = Some (Inr (), q)" by simp
    moreover from None have "(case fsLstat fs ?y of None \<Rightarrow> Some (Inr (), p)
        | Some info \<Rightarrow> (case n of 0 \<Rightarrow> None | Suc k \<Rightarrow> walk fs k ?y info p)) = Some (Inr (), p)" by simp
    ultimately have "adds fs (\<Union>y\<in>{y \<in> (\<lambda>nm. pathJoin [path, nm]) ` set names. fsLstat fs y \<noteq> None}. reach fs y) p q"
      using 3(2) 3(3) by blast
    then show ?thesis by (rule adds_mono) auto
  next
    case (Some info)
    with 3(4) obtain k p1 where n: "n = Suc k" and w: "walk fs k ?y info p = Some (Inr (), p1)"
      and r: "walkNames fs n path names p1 = Some (Inr (), q)"
      by (auto elim!: thenE_SomeE split: nat.splits)
    have "(case fsLstat fs ?y of None \<Rightarrow> Some (Inr (), p)
        | Some info \<Rightarrow> (case n of 0 \<Rightarrow> None | Suc k \<Rightarrow> walk fs k ?y info p)) = Some (Inr (), p1)"
      using Some n w by simp
    note a = 3(1) [OF Some n 3(3) w Some] and b = 3(2) [OF this 3(3) r]
    show ?thesis
    proof (rule adds_trans)
      show "adds fs (\<Union>y\<in>{y \<in> (\<lambda>nm. pathJoin [path, nm]) ` set (name # names). fsLstat fs y \<noteq> None}. reach fs y) p p1"
        using a by (rule adds_mono) (use Some in auto)
      show "adds fs (\<Union>y\<in>{y \<in> (\<lambda>nm. pathJoin [path, nm]) ` set (name # names). fsLstat fs y \<noteq> None}. reach fs y) p1 q"
        using b by (rule adds_mono) auto
    qed
  qed
next
  case (4 fs n path f p)
  from 4(2,4) have t: "trimPath path = path" by (simp add: trimmed_def)
  show ?case
  proof (cases "path \<notin> pvVisited p \<and> fiKind f = Symlink")
    case False
    with t 4(3,5) have "q = p \<or> pvCmds q = pvCmds p @ [mkCmd path f]"
      by (auto simp: VisitFile.simps Let_def split: if_splits fkind.splits)
    then show ?thesis by (auto simp: adds_def)
  next
    case link: True
    with t 4(3) obtain target y where rl: "resolveLink fs path = Inr (target, y)"
      by (cases "resolveLink fs path") (auto simp: VisitFile.simps Let_def)
    let ?p1 = "p\<lparr>pvCmds := pvCmds p @ [(mkCmd path f)\<lparr>cmSymlinkTarget := target\<rparr>]\<rparr>"
    from link t 4(3) rl obtain k q1 where n: "n = Suc k" and w: "Walk fs k y ?p1 = Some (Inr (), q1)"
      and q: "q = q1\<lparr>pvVisited := insert path (pvVisited q1)\<rparr>"
      by (auto simp: VisitFile.simps Let_def elim!: thenE_SomeE split: nat.splits)
    have "adds fs (if fsLstat fs y = None then {} else reach fs y) ?p1 q1"
      using 4(1) t link rl n 4(2) w by auto
    moreover have "y \<in> leadsTo fs path" if "fsLstat fs y \<noteq> None"
      using 4(4) link rl that by (simp add: leadsTo_def)
    ultimately have "adds fs (reach fs path) ?p1 q1"
      using reach_step by (auto elim!: adds_mono split: if_splits)
    then have "adds fs (reach fs path) p q1"
      by (rule adds_one [where c = "(mkCmd path f)\<lparr>cmSymlinkTarget := target\<rparr>"]) simp_all
    then show ?thesis by (simp add: adds_def q)
  qed
next
  case (5 fs n root p)
  show ?case
  proof (cases "fsLstat fs root")
    case None
    with 5(3) show ?thesis by (simp add: Walk.simps)
  next
    case (Some info)
    with 5(1) [OF Some 5(2)] 5(3) show ?thesis by (simp add: Walk.simps)
  qed
qed

section \<open>Once each\<close>

definition isLink :: "cmdToExec \<Rightarrow> bool" where
  "isLink c \<longleftrightarrow> cmFtype c = 2"

definition sizeOf :: "fsys \<Rightarrow> cmdToExec \<Rightarrow> 64 word" where
  "sizeOf fs c = (case fsLstat fs (cmDestName c) of None \<Rightarrow> 0 | Some f \<Rightarrow> if fiKind f = Regular then fiSize f else 0)"

definition packInv :: "fsys \<Rightarrow> packVisitor \<Rightarrow> bool" where
  "packInv fs p \<longleftrightarrow>
     distinct (map cmDestName (filter (\<lambda>c. \<not> isLink c) (pvCmds p))) \<and>
     cmDestName ` {c \<in> set (pvCmds p). \<not> isLink c} \<subseteq> pvVisited p \<and>
     pvBytes p = sum_list (map (sizeOf fs) (pvCmds p))"

lemma isLink_mkCmd [simp]: "isLink (mkCmd x f) \<longleftrightarrow> fiKind f = Symlink"
  "isLink (mkCmd x f\<lparr>cmSymlinkTarget := l\<rparr>) \<longleftrightarrow> fiKind f = Symlink"
  by (cases "fiKind f"; simp add: isLink_def mkCmd_def)+

lemma sizeOf_mkCmd [simp]:
  "fsLstat fs x = Some f \<Longrightarrow> sizeOf fs (mkCmd x f) = (if fiKind f = Regular then fiSize f else 0)"
  "fsLstat fs x = Some f \<Longrightarrow> sizeOf fs (mkCmd x f\<lparr>cmSymlinkTarget := l\<rparr>) = (if fiKind f = Regular then fiSize f else 0)"
  by (simp_all add: sizeOf_def mkCmd_def)

lemma packInv_new [simp]: "packInv fs newPackVisitor"
  by (simp add: packInv_def newPackVisitor_def)

lemma packInv_file:
  assumes "packInv fs p" and "x \<notin> pvVisited p" and "fsLstat fs x = Some f" and "fiKind f \<noteq> Symlink"
  shows "packInv fs (p\<lparr>pvCmds := pvCmds p @ [mkCmd x f],
     pvVisited := insert x (pvVisited p), pvBytes := pvBytes p + (if fiKind f = Regular then fiSize f else 0)\<rparr>)"
  using assms by (auto simp: packInv_def)

lemma packInv_link:
  assumes "packInv fs p" and "fsLstat fs x = Some f" and "fiKind f = Symlink"
  shows "packInv fs (p\<lparr>pvCmds := pvCmds p @ [mkCmd x f\<lparr>cmSymlinkTarget := l\<rparr>]\<rparr>)"
  using assms by (auto simp: packInv_def)

lemma packInv_visited: "packInv fs p \<Longrightarrow> packInv fs (p\<lparr>pvVisited := insert x (pvVisited p)\<rparr>)"
  by (auto simp: packInv_def)

lemma walk_packInv:
  shows "trimmed fs \<Longrightarrow> walk fs n path info p = Some (Inr (), q) \<Longrightarrow> fsLstat fs path = Some info \<Longrightarrow>
      packInv fs p \<Longrightarrow> packInv fs q"
    and "trimmed fs \<Longrightarrow> walkNames fs n path names p = Some (Inr (), q) \<Longrightarrow> packInv fs p \<Longrightarrow> packInv fs q"
    and "trimmed fs \<Longrightarrow> VisitFile fs n path info p = Some (Inr (), q) \<Longrightarrow> fsLstat fs path = Some info \<Longrightarrow>
      fiKind info \<noteq> Directory \<Longrightarrow> packInv fs p \<Longrightarrow> packInv fs q"
    and "trimmed fs \<Longrightarrow> Walk fs n path p = Some (Inr (), q) \<Longrightarrow> packInv fs p \<Longrightarrow> packInv fs q"
proof (induction fs n path info p and fs n path names p and fs n path info p and fs n path p
    arbitrary: q and q and q and q rule: walk_walkNames_VisitFile_Walk.induct)
  case (1 fs n path info p)
  from 1(3,5) have t: "trimPath path = path" by (simp add: trimmed_def)
  show ?case
  proof (cases "fiKind info = Directory")
    case False
    with 1(2) [OF False 1(3)] 1(4-6) show ?thesis by (simp add: walk.simps)
  next
    case True
    let ?p1 = "p\<lparr>pvCmds := pvCmds p @ [mkCmd path info], pvVisited := insert path (pvVisited p)\<rparr>"
    have i1: "packInv fs ?p1" if "path \<notin> pvVisited p"
      using packInv_file [OF 1(6) that 1(5)] True by simp
    show ?thesis
    proof (cases "path \<notin> pvVisited p \<and> \<not> hasSuffix path ''/.'' \<and> fsReaddir fs path \<noteq> None")
      case False
      with True t 1(4) have "q = p \<or> path \<notin> pvVisited p \<and> q = ?p1"
        by (auto simp: walk.simps VisitDir_def Let_def split: if_splits)
      with i1 1(6) show ?thesis by auto
    next
      case go: True
      then obtain names where names: "fsReaddir fs path = Some names" by auto
      have vd: "VisitDir path info p = (True, ?p1)" using go t by (simp add: VisitDir_def Let_def)
      with True names 1(4) have "walkNames fs n path names ?p1 = Some (Inr (), q)"
        by (simp add: walk.simps)
      from 1(1) [OF True vd [symmetric] refl names 1(3) this] i1 go show ?thesis by blast
    qed
  qed
next
  case (2 fs n path p)
  then show ?case by simp
next
  case (3 fs n path name names p)
  let ?y = "pathJoin [path, name]"
  show ?case
  proof (cases "fsLstat fs ?y")
    case None
    with 3(4) have "walkNames fs n path names p = Some (Inr (), q)" by simp
    with 3(2) [OF _ 3(3) this] None 3(5) show ?thesis by auto
  next
    case (Some info)
    with 3(4) obtain k p1 where n: "n = Suc k" and w: "walk fs k ?y info p = Some (Inr (), p1)"
      and r: "walkNames fs n path names p1 = Some (Inr (), q)"
      by (auto elim!: thenE_SomeE split: nat.splits)
    have "(case fsLstat fs ?y of None \<Rightarrow> Some (Inr (), p)
        | Some info \<Rightarrow> (case n of 0 \<Rightarrow> None | Suc k \<Rightarrow> walk fs k ?y info p)) = Some (Inr (), p1)"
      using Some n w by simp
    from 3(2) [OF this 3(3) r] 3(1) [OF Some n 3(3) w Some 3(5)] show ?thesis by blast
  qed
next
  case (4 fs n path f p)
  from 4(2,4) have t: "trimPath path = path" by (simp add: trimmed_def)
  show ?case
  proof (cases "path \<notin> pvVisited p \<and> fiKind f = Symlink")
    case False
    with t 4(3,5) have "q = p \<or> path \<notin> pvVisited p \<and> fiKind f \<noteq> Symlink \<and> q = p\<lparr>pvCmds := pvCmds p @ [mkCmd path f],
     pvVisited := insert path (pvVisited p), pvBytes := pvBytes p + (if fiKind f = Regular then fiSize f else 0)\<rparr>"
      by (auto simp: VisitFile.simps Let_def split: if_splits fkind.splits)
    with packInv_file [OF 4(6) _ 4(4)] 4(6) show ?thesis by auto
  next
    case link: True
    with t 4(3) obtain target y where rl: "resolveLink fs path = Inr (target, y)"
      by (cases "resolveLink fs path") (auto simp: VisitFile.simps Let_def)
    let ?p1 = "p\<lparr>pvCmds := pvCmds p @ [(mkCmd path f)\<lparr>cmSymlinkTarget := target\<rparr>]\<rparr>"
    from link t 4(3) rl obtain k q1 where n: "n = Suc k" and w: "Walk fs k y ?p1 = Some (Inr (), q1)"
      and q: "q = q1\<lparr>pvVisited := insert path (pvVisited q1)\<rparr>"
      by (auto simp: VisitFile.simps Let_def elim!: thenE_SomeE split: nat.splits)
    have "packInv fs ?p1" using packInv_link [OF 4(6,4)] link by simp
    then have "packInv fs q1" using 4(1) t link rl n 4(2) w by auto
    then show ?thesis unfolding q by (rule packInv_visited)
  qed
next
  case (5 fs n root p)
  show ?case
  proof (cases "fsLstat fs root")
    case None
    with 5(3,4) show ?thesis by (simp add: Walk.simps)
  next
    case (Some info)
    with 5(1) [OF Some 5(2)] 5(3,4) show ?thesis by (simp add: Walk.simps)
  qed
qed

section \<open>Termination\<close>

definition dirs :: "fsys \<Rightarrow> string set" where
  "dirs fs = {x. \<exists>f. fsLstat fs x = Some f \<and> fiKind f = Directory}"

definition unseen :: "fsys \<Rightarrow> packVisitor \<Rightarrow> nat" where
  "unseen fs p = card (dirs fs - pvVisited p)"

text \<open>Links that lead to links do so in finitely many steps, at most \<open>L\<close>.\<close>

definition linksEnd :: "fsys \<Rightarrow> (string \<Rightarrow> nat) \<Rightarrow> nat \<Rightarrow> bool" where
  "linksEnd fs rank L \<longleftrightarrow>
     (\<forall>x. rank x \<le> L) \<and>
     (\<forall>x f y g. fsLstat fs x = Some f \<longrightarrow> fiKind f = Symlink \<longrightarrow> y \<in> leadsTo fs x \<longrightarrow>
        fsLstat fs y = Some g \<longrightarrow> fiKind g = Symlink \<longrightarrow> rank y < rank x)"

definition need :: "fsys \<Rightarrow> (string \<Rightarrow> nat) \<Rightarrow> nat \<Rightarrow> packVisitor \<Rightarrow> string \<Rightarrow> nat" where
  "need fs rank L p x = unseen fs p * (L + 2) +
     (case fsLstat fs x of None \<Rightarrow> 0 | Some f \<Rightarrow> if fiKind f = Symlink then Suc (rank x) else 0)"

lemma unseen_enter:
  assumes "finite (dirs fs)" and "x \<in> dirs fs" and "x \<notin> pvVisited p" and "pvVisited q = insert x (pvVisited p)"
  shows "unseen fs p = Suc (unseen fs q)"
proof -
  have e: "dirs fs - pvVisited p = insert x (dirs fs - pvVisited q)" using assms by auto
  have "finite (dirs fs - pvVisited q)" "x \<notin> dirs fs - pvVisited q" using assms(1,4) by auto
  then show ?thesis unfolding unseen_def e by (rule card_insert_disjoint)
qed

lemma unseen_mono: "finite (dirs fs) \<Longrightarrow> pvVisited p \<subseteq> pvVisited q \<Longrightarrow> unseen fs q \<le> unseen fs p"
  unfolding unseen_def by (rule card_mono) auto

lemma need_le: "linksEnd fs rank L \<Longrightarrow> need fs rank L p x \<le> unseen fs p * (L + 2) + Suc L"
  by (auto simp: need_def linksEnd_def split: option.splits)

lemma walk_total:
  assumes fin: "finite (dirs fs)" and le: "linksEnd fs rank L" and tr: "trimmed fs"
  shows "fsLstat fs path = Some info \<Longrightarrow> need fs rank L p path \<le> n \<Longrightarrow> walk fs n path info p \<noteq> None"
    and "unseen fs p * (L + 2) + Suc L < n \<Longrightarrow> walkNames fs n path names p \<noteq> None"
    and "fsLstat fs path = Some info \<Longrightarrow> fiKind info \<noteq> Directory \<Longrightarrow> need fs rank L p path \<le> n \<Longrightarrow>
      VisitFile fs n path info p \<noteq> None"
    and "need fs rank L p path \<le> n \<Longrightarrow> Walk fs n path p \<noteq> None"
  using fin le tr
proof (induction fs n path info p and fs n path names p and fs n path info p and fs n path p
    rule: walk_walkNames_VisitFile_Walk.induct)
  case (1 fs n path info p)
  from 1(3,7) have t: "trimPath path = path" by (simp add: trimmed_def)
  show ?case
  proof (cases "fiKind info = Directory")
    case False
    with 1(2) [OF False 1(3) False 1(4-7)] show ?thesis by (simp add: walk.simps)
  next
    case True
    let ?p1 = "p\<lparr>pvCmds := pvCmds p @ [mkCmd path info], pvVisited := insert path (pvVisited p)\<rparr>"
    show ?thesis
    proof (cases "path \<notin> pvVisited p \<and> \<not> hasSuffix path ''/.'' \<and> fsReaddir fs path \<noteq> None")
      case False
      with True t show ?thesis
        by (auto simp: walk.simps VisitDir_def Let_def split: option.split)
    next
      case go: True
      then obtain names where names: "fsReaddir fs path = Some names" by auto
      have vd: "VisitDir path info p = (True, ?p1)" using go t by (simp add: VisitDir_def Let_def)
      have "path \<in> dirs fs" using 1(3) True by (simp add: dirs_def)
      from unseen_enter [OF 1(5) this, of p ?p1] go have u: "unseen fs p = Suc (unseen fs ?p1)" by simp
      have "need fs rank L p path = unseen fs p * (L + 2)" using 1(3) True by (simp add: need_def)
      with 1(4) u have "unseen fs ?p1 * (L + 2) + Suc L < n" by simp
      from 1(1) [OF True vd [symmetric] refl names this 1(5-7)] show ?thesis
        using True vd names by (simp add: walk.simps)
    qed
  qed
next
  case (2 fs n path p)
  then show ?case by simp
next
  case (3 fs n path name names p)
  let ?y = "pathJoin [path, name]"
  let ?r = "case fsLstat fs ?y of None \<Rightarrow> Some (Inr (), p)
        | Some info \<Rightarrow> (case n of 0 \<Rightarrow> None | Suc k \<Rightarrow> walk fs k ?y info p)"
  have r: "?r \<noteq> None"
  proof (cases "fsLstat fs ?y")
    case (Some info)
    from 3(3) obtain k where n: "n = Suc k" by (cases n) auto
    have "need fs rank L p ?y \<le> k" using need_le [OF 3(5), of p ?y] 3(3) n by simp
    from 3(1) [OF Some n Some this 3(4-6)] Some n show ?thesis by simp
  qed simp
  show ?case
  proof (cases ?r rule: thenE_cases)
    case Missing
    with r show ?thesis by simp
  next
    case (Stop e s)
    then show ?thesis by simp
  next
    case (Go p1)
    have "pvVisited p \<subseteq> pvVisited p1"
    proof (cases "fsLstat fs ?y")
      case None
      with Go show ?thesis by simp
    next
      case (Some info)
      from 3(3) obtain k where n: "n = Suc k" by (cases n) auto
      have "walk fs k ?y info p = Some (Inr (), p1)"
        using Go unfolding Some n option.case nat.case .
      from walk_extends(1) [OF 3(6) this Some] show ?thesis by (simp add: extends_def)
    qed
    from unseen_mono [OF 3(4) this] have "unseen fs p1 * (L + 2) \<le> unseen fs p * (L + 2)" by (rule mult_le_mono1)
    with 3(3) have "unseen fs p1 * (L + 2) + Suc L < n" by linarith
    from 3(2) [OF Go this 3(4-6)] Go show ?thesis by simp
  qed
next
  case (4 fs n path f p)
  from 4(2,7) have t: "trimPath path = path" by (simp add: trimmed_def)
  show ?case
  proof (cases "path \<notin> pvVisited p \<and> fiKind f = Symlink")
    case False
    with t 4(3) show ?thesis by (auto simp: VisitFile.simps Let_def split: fkind.splits)
  next
    case link: True
    show ?thesis
    proof (cases "resolveLink fs path")
      case (Inl e)
      with link t show ?thesis by (simp add: VisitFile.simps Let_def)
    next
      case (Inr ty)
      then obtain target y where rl: "resolveLink fs path = Inr (target, y)" by (cases ty) auto
      let ?p1 = "p\<lparr>pvCmds := pvCmds p @ [(mkCmd path f)\<lparr>cmSymlinkTarget := target\<rparr>]\<rparr>"
      have nd: "need fs rank L p path = unseen fs p * (L + 2) + Suc (rank path)"
        using 4(2) link by (simp add: need_def)
      with 4(4) obtain k where n: "n = Suc k" by (cases n) auto
      have u: "unseen fs ?p1 = unseen fs p" by (simp add: unseen_def)
      have "need fs rank L ?p1 y \<le> k"
      proof (cases "\<exists>g. fsLstat fs y = Some g \<and> fiKind g = Symlink")
        case True
        then obtain g where g: "fsLstat fs y = Some g" "fiKind g = Symlink" by blast
        have "y \<in> leadsTo fs path" using 4(2) link rl g by (simp add: leadsTo_def)
        with 4(2,6) link g have "rank y < rank path" unfolding linksEnd_def by blast
        with nd n 4(4) g u show ?thesis by (simp add: need_def)
      next
        case False
        with nd n 4(4) u show ?thesis by (auto simp: need_def split: option.splits)
      qed
      with 4(1) t link rl n 4(5-7) have "Walk fs k y ?p1 \<noteq> None" by auto
      then obtain z where "Walk fs k y ?p1 = Some z" by auto
      with link t rl n show ?thesis
        by (cases "Walk fs k y ?p1" rule: thenE_cases) (auto simp: VisitFile.simps Let_def)
    qed
  qed
next
  case (5 fs n root p)
  show ?case
  proof (cases "fsLstat fs root")
    case (Some info)
    with 5(1) [OF Some Some 5(2-5)] show ?thesis by (simp add: Walk.simps)
  qed (simp add: Walk.simps)
qed

section \<open>Properties\<close>

lemma Walk_exact:
  assumes "trimmed fs" and "fsLstat fs root \<noteq> None" and "Walk fs n root newPackVisitor = Some (Inr (), q)"
  shows "cmDestName ` set (pvCmds q) = reach fs root \<and>
    (\<forall>c\<in>set (pvCmds q). cmdFor fs (cmDestName c) = Some c)"
proof -
  from walk_extends(4) [OF assms(1,3)] assms(2)
  have e: "extends fs newPackVisitor q" and root: "root \<in> pvVisited q" by blast+
  from e have closed: "\<forall>x\<in>pvVisited q. leadsTo fs x \<subseteq> pvVisited q"
    and cmds: "\<forall>c\<in>set (pvCmds q). cmdFor fs (cmDestName c) = Some c"
    and vis: "pvVisited q \<subseteq> cmDestName ` set (pvCmds q)"
    by (auto simp: extends_def newPackVisitor_def)
  have "reach fs root \<subseteq> pvVisited q"
  proof
    fix y assume "y \<in> reach fs root"
    then have "(root, y) \<in> {(a, b). b \<in> leadsTo fs a}\<^sup>*" by (simp add: reach_def)
    then show "y \<in> pvVisited q" by induction (use root closed in auto)
  qed
  moreover have "cmDestName ` set (pvCmds q) \<subseteq> reach fs root"
    using walk_adds(4) [OF assms(1,3)] assms(2) by (auto simp: adds_def newPackVisitor_def)
  ultimately show ?thesis using cmds vis by blast
qed


text \<open>
  Directories and files are listed once each (a link may be listed again when it is met
  below its own target), and the number of bytes to transfer is the sum of the sizes of the
  regular files that are listed, also when several paths are gathered one after the other.
\<close>
theorem pack_once:
  assumes "trimmed fs" and "packInv fs p" and "Walk fs n root p = Some (Inr (), q)"
  shows "packInv fs q \<and>
    distinct (map cmDestName (filter (\<lambda>c. cmFtype c \<noteq> 2) (pvCmds q))) \<and>
    pvBytes q = (\<Sum>c\<leftarrow>pvCmds q. sizeOf fs c)"
  using walk_packInv(4) [OF assms(1,3,2)] by (simp add: packInv_def isLink_def)

text \<open>
  C32. Gathering always ends, when there are finitely many directories and no links that
  lead in a circle: a nesting of one more than the unvisited directories times the length of
  the chains of links is enough.
\<close>
theorem pack_terminates:
  assumes "finite (dirs fs)" and "linksEnd fs rank L" and "trimmed fs"
    and "Suc (card (dirs fs)) * (L + 2) \<le> n"
  shows "Walk fs n root p \<noteq> None"
proof (rule walk_total(4) [OF assms(1-3)])
  have "unseen fs p \<le> card (dirs fs)" unfolding unseen_def using assms(1) by (intro card_mono) auto
  then have "unseen fs p * (L + 2) \<le> card (dirs fs) * (L + 2)" by (rule mult_le_mono1)
  with need_le [OF assms(2), of p root] assms(4) show "need fs rank L p root \<le> n" by simp
qed

text \<open>A link that leads to itself is followed for ever: it counts as visited only afterwards.\<close>

lemma link_loop_diverges:
  assumes "fsLstat fs x = Some f" and "fiKind f = Symlink" and "trimPath x = x"
    and "resolveLink fs x = Inr (target, x)" and "x \<notin> pvVisited p"
  shows "Walk fs n x p = None"
  using assms(5)
proof (induction n arbitrary: p)
  case 0
  with assms show ?case by (simp add: Walk.simps walk.simps VisitFile.simps Let_def)
next
  case (Suc n)
  with assms show ?case by (simp add: Walk.simps walk.simps VisitFile.simps Let_def)
qed

text \<open>A directory with one file, and a link to it.\<close>

definition demoFs :: fsys where
  "demoFs =
     \<lparr>fsLstat = map_of
        [(''/d'', \<lparr>fiKind = Directory, fiPerm = 0x1ED, fiUid = 0, fiGid = 0, fiSize = 0\<rparr>),
         (''/d/b'', \<lparr>fiKind = Regular, fiPerm = 0x1ED, fiUid = 0, fiGid = 0, fiSize = 3\<rparr>),
         (''/l'', \<lparr>fiKind = Symlink, fiPerm = 0x1FF, fiUid = 0, fiGid = 0, fiSize = 0\<rparr>)],
      fsReaddir = map_of [(''/d'', [''b''])],
      fsReadlink = map_of [(''/l'', ''d'')]\<rparr>"

lemma demoFs_trim: "trimPath ''/d'' = ''/d''" "trimPath ''/d/b'' = ''/d/b''" "trimPath ''/l'' = ''/l''"
  by (simp_all add: trimPath_def trimSpace_keep printable_def trimRightFunc_def isNull_def)

lemma demoFs_join: "pathJoin [''/d'', ''b''] = ''/d/b''" "resolveLink demoFs ''/l'' = Inr (''d'', ''/d'')"
  by code_simp+

lemma demoFs_trimmed: "trimmed demoFs"
  using demoFs_trim by (auto simp: trimmed_def demoFs_def split: if_splits)

lemma demoFs_suffix: "\<not> hasSuffix ''/d'' ''/.''"
  by code_simp

lemma demoFs_walk:
  "\<exists>q. Walk demoFs 5 ''/l'' newPackVisitor = Some (Inr (), q)"
  using demoFs_trim demoFs_join demoFs_suffix
  by (simp add: Walk.simps walk.simps VisitFile.simps VisitDir_def Let_def newPackVisitor_def
      numeral_eq_Suc demoFs_def)


theorem pack_once_witness:
  "\<exists>q. Walk demoFs 5 ''/l'' newPackVisitor = Some (Inr (), q) \<and>
    pvBytes q = (\<Sum>c\<leftarrow>pvCmds q. sizeOf demoFs c)"
proof -
  obtain q where q: "Walk demoFs 5 ''/l'' newPackVisitor = Some (Inr (), q)" using demoFs_walk by blast
  from pack_once [OF demoFs_trimmed packInv_new q] q show ?thesis by blast
qed

theorem pack_terminates_witness: "Walk demoFs 6 ''/l'' newPackVisitor \<noteq> None"
proof (rule pack_terminates)
  have d: "dirs demoFs = {''/d''}" by (auto simp: dirs_def demoFs_def split: if_splits)
  then show "finite (dirs demoFs)" by simp
  have "leadsTo demoFs x \<subseteq> {''/d'', ''/d/b''}" for x
  proof (cases "fsLstat demoFs x")
    case (Some f)
    then consider "x = ''/d''" | "x = ''/d/b''" | "x = ''/l''" by (auto simp: demoFs_def split: if_splits)
    then show ?thesis
    proof cases
      case 1
      then show ?thesis using demoFs_join demoFs_suffix by (simp add: leadsTo_def) (simp add: demoFs_def)
    next
      case 2
      then show ?thesis by (simp add: leadsTo_def demoFs_def)
    next
      case 3
      then show ?thesis using demoFs_join(2) by (simp add: leadsTo_def) (simp add: demoFs_def)
    qed
  qed (simp add: leadsTo_def)
  then show "linksEnd demoFs (\<lambda>_. 0) 0"
    by (fastforce simp: linksEnd_def demoFs_def split: if_splits)
  show "trimmed demoFs" by (rule demoFs_trimmed)
  show "Suc (card (dirs demoFs)) * (0 + 2) \<le> 6" by (simp add: d)
qed

end
