(* ===== verification/IoProxy.thy ===== *)
theory IoProxy
  imports FileMarshal
begin

text \<open>
  The proxy for the output of the workers, and the loop that waits for them: \<^verbatim>\<open>ioProxy\<close> of
  \<^verbatim>\<open>src/src/gproc/common.go\<close> with the loops at the end of \<^verbatim>\<open>startExecution\<close> (\<^verbatim>\<open>mexec.go\<close>) and
  \<^verbatim>\<open>slaveProc\<close> (\<^verbatim>\<open>slave.go\<close>). The goroutines run in any interleaving: one accepts connections and
  numbers them, one for every connection copies it to the destination and then hands its
  number to the unbuffered channel, and the main one receives as many numbers as it waits for.
\<close>

section \<open>Steps\<close>

text \<open>
  The state: the next number, what is still to be copied of every connection in progress,
  the numbers of the goroutines that block on the channel, the destination's input as
  pieces with the number of their connection, the numbers received, and how many more
  workers are waited for.
\<close>

record proxy =
  pxNext :: nat
  pxOpen :: "nat \<rightharpoonup> byte list"
  pxBlocked :: "nat set"
  pxOut :: "(nat \<times> byte list) list"
  pxGot :: "nat list"
  pxWait :: int

definition firstWorker :: nat where
  "firstWorker = 7090"

definition startProxy :: "goint \<Rightarrow> proxy" where
  "startProxy numWorkers =
     \<lparr>pxNext = firstWorker, pxOpen = Map.empty, pxBlocked = {}, pxOut = [], pxGot = [],
      pxWait = sint numWorkers\<rparr>"

datatype label =
    Accept "byte list"
  | Copy nat nat
  | Eof nat
  | Receive nat

inductive pstep :: "proxy \<Rightarrow> label \<Rightarrow> proxy \<Rightarrow> bool" where
  accept: "pstep s (Accept dat)
     (s\<lparr>pxNext := Suc (pxNext s), pxOpen := (pxOpen s)(pxNext s \<mapsto> dat)\<rparr>)"
| copy: "pxOpen s w = Some dat \<Longrightarrow> 0 < n \<Longrightarrow> n \<le> length dat \<Longrightarrow>
    pstep s (Copy w n)
     (s\<lparr>pxOpen := (pxOpen s)(w \<mapsto> drop n dat), pxOut := pxOut s @ [(w, take n dat)]\<rparr>)"
| eof: "pxOpen s w = Some [] \<Longrightarrow>
    pstep s (Eof w) (s\<lparr>pxOpen := (pxOpen s)(w := None), pxBlocked := insert w (pxBlocked s)\<rparr>)"
| receive: "0 < pxWait s \<Longrightarrow> w \<in> pxBlocked s \<Longrightarrow>
    pstep s (Receive w)
     (s\<lparr>pxBlocked := pxBlocked s - {w}, pxGot := pxGot s @ [w], pxWait := pxWait s - 1\<rparr>)"

inductive_cases pstepE: "pstep s l t"
inductive_simps pstep_receive: "pstep s (Receive w) t"

inductive psteps :: "proxy \<Rightarrow> label list \<Rightarrow> proxy \<Rightarrow> bool" where
  none: "psteps s [] s"
| more: "psteps s ls t \<Longrightarrow> pstep t l u \<Longrightarrow> psteps s (ls @ [l]) u"

lemma psteps_trans: "psteps t ms u \<Longrightarrow> psteps s ls t \<Longrightarrow> psteps s (ls @ ms) u"
proof (induction rule: psteps.induct)
  case (more s' ls' t' l u)
  then show ?case using psteps.more [of s "ls @ ls'" t' l u] by simp
qed simp

lemma psteps_one: "pstep s l t \<Longrightarrow> psteps s [l] t"
  using psteps.more [OF psteps.none] by simp

section \<open>What holds in every state\<close>

text \<open>The data of the accepted connections, in the order of their numbers.\<close>

fun acceptedOf :: "label \<Rightarrow> byte list list" where
  "acceptedOf (Accept dat) = [dat]"
| "acceptedOf _ = []"

definition accepted :: "label list \<Rightarrow> byte list list" where
  "accepted ls = concat (map acceptedOf ls)"

lemma accepted_simps [simp]: "accepted [] = []" "accepted (ls @ ms) = accepted ls @ accepted ms"
  "accepted [l] = acceptedOf l"
  by (simp_all add: accepted_def)

text \<open>What has arrived of a connection.\<close>

definition arrived :: "(nat \<times> byte list) list \<Rightarrow> nat \<Rightarrow> byte list" where
  "arrived out w = concat (map snd (filter (\<lambda>x. fst x = w) out))"

lemma arrived_simps [simp]:
  "arrived [] w = []"
  "arrived (out @ [(v, bs)]) w = (if v = w then arrived out w @ bs else arrived out w)"
  by (simp_all add: arrived_def)

definition dataOf :: "byte list list \<Rightarrow> nat \<Rightarrow> byte list" where
  "dataOf ds w = ds ! (w - firstWorker)"

definition px_inv :: "int \<Rightarrow> byte list list \<Rightarrow> proxy \<Rightarrow> bool" where
  "px_inv n ds s \<longleftrightarrow>
     pxNext s = firstWorker + length ds \<and>
     dom (pxOpen s) \<union> pxBlocked s \<union> set (pxGot s) = {firstWorker..<pxNext s} \<and>
     dom (pxOpen s) \<inter> pxBlocked s = {} \<and> (dom (pxOpen s) \<union> pxBlocked s) \<inter> set (pxGot s) = {} \<and>
     distinct (pxGot s) \<and> pxWait s = n - int (length (pxGot s)) \<and>
     (\<forall>w dat. pxOpen s w = Some dat \<longrightarrow> arrived (pxOut s) w @ dat = dataOf ds w) \<and>
     (\<forall>w\<in>pxBlocked s \<union> set (pxGot s). arrived (pxOut s) w = dataOf ds w) \<and>
     (\<forall>w\<ge>pxNext s. arrived (pxOut s) w = [])"

lemma px_inv_start: "px_inv (sint k) [] (startProxy k)"
  by (simp add: px_inv_def startProxy_def)

lemma dataOf_append: "w < firstWorker + length ds \<Longrightarrow> firstWorker \<le> w \<Longrightarrow> dataOf (ds @ es) w = dataOf ds w"
  by (simp add: dataOf_def nth_append less_diff_conv2)

lemma px_inv_step:
  assumes inv: "px_inv n ds s" and step: "pstep s l t"
  shows "px_inv n (ds @ acceptedOf l) t"
  using step
proof cases
  case (accept dat)
  have dom: "w \<in> {firstWorker..<pxNext s}" if "w \<in> dom (pxOpen s) \<union> pxBlocked s \<union> set (pxGot s)" for w
    using inv that unfolding px_inv_def by blast
  have new: "pxNext s \<notin> dom (pxOpen s) \<union> pxBlocked s \<union> set (pxGot s)" using dom by fastforce
  have keep: "dataOf (ds @ [dat]) w = dataOf ds w" if "w \<in> dom (pxOpen s) \<union> pxBlocked s \<union> set (pxGot s)" for w
    using dom [OF that] inv by (intro dataOf_append) (auto simp: px_inv_def)
  have keep1: "dataOf (ds @ [dat]) w = dataOf ds w" if "pxOpen s w = Some d" for w d
    using keep that by blast
  have keep2: "\<forall>w\<in>pxBlocked s \<union> set (pxGot s). dataOf (ds @ [dat]) w = dataOf ds w"
    using keep by blast
  have last: "dataOf (ds @ [dat]) (pxNext s) = dat" using inv by (simp add: px_inv_def dataOf_def)
  show ?thesis using inv new keep1 keep2 last unfolding accept px_inv_def
    by (auto simp: atLeastLessThanSuc domIff)
next
  case (copy w dat m)
  have "w < pxNext s" using inv copy(3) unfolding px_inv_def by (metis UnCI atLeastLessThan_iff domI)
  with inv copy(3) show ?thesis unfolding copy(1,2) px_inv_def by (auto simp: insert_absorb)
next
  case (eof w)
  have "arrived (pxOut s) w @ [] = dataOf ds w" using inv eof(3) unfolding px_inv_def by blast
  then have "arrived (pxOut s) w = dataOf ds w" by simp
  moreover from eof have "w \<in> dom (pxOpen s)" by auto
  ultimately show ?thesis using inv eof(3) unfolding eof(1,2) px_inv_def by (auto simp: insert_absorb)
next
  case (receive w)
  with inv show ?thesis unfolding receive(1,2) px_inv_def by (auto simp: insert_absorb)
qed

lemma px_inv_steps: "psteps s ls t \<Longrightarrow> px_inv n ds s \<Longrightarrow> px_inv n (ds @ accepted ls) t"
proof (induction rule: psteps.induct)
  case (more s ls t l u)
  then show ?case using px_inv_step [of n "ds @ accepted ls" t l u] by simp
qed simp

section \<open>Progress\<close>

definition busy :: "proxy \<Rightarrow> nat" where
  "busy s = (\<Sum>w\<in>dom (pxOpen s). length (the (pxOpen s w)) + 2) + card (pxBlocked s)"

lemma px_inv_finite: "px_inv n ds s \<Longrightarrow> finite (dom (pxOpen s)) \<and> finite (pxBlocked s)"
  unfolding px_inv_def by (metis finite_UnI finite_Un finite_atLeastLessThan)

lemma busy_step:
  assumes inv: "px_inv n ds s" and step: "pstep s l t" and "acceptedOf l = []"
  shows "busy t < busy s"
  using step
proof cases
  case (accept dat)
  with assms(3) show ?thesis by simp
next
  case (copy w dat m)
  note fin = px_inv_finite [OF inv, THEN conjunct1]
  have w: "w \<in> dom (pxOpen s)" using copy(3) by auto
  have t: "dom (pxOpen t) = dom (pxOpen s)" "pxBlocked t = pxBlocked s"
    "pxOpen t w = Some (drop m dat)" "\<And>v. v \<noteq> w \<Longrightarrow> pxOpen t v = pxOpen s v"
    using w unfolding copy(2) by auto
  have "(\<Sum>v\<in>dom (pxOpen t). length (the (pxOpen t v)) + 2) < (\<Sum>v\<in>dom (pxOpen s). length (the (pxOpen s v)) + 2)"
    unfolding t(1)
  proof (rule sum_strict_mono_ex1 [OF fin])
    show "\<forall>v\<in>dom (pxOpen s). length (the (pxOpen t v)) + 2 \<le> length (the (pxOpen s v)) + 2"
    proof
      fix v show "length (the (pxOpen t v)) + 2 \<le> length (the (pxOpen s v)) + 2"
        using t(3,4) copy(3) by (cases "v = w") simp_all
    qed
    show "\<exists>v\<in>dom (pxOpen s). length (the (pxOpen t v)) + 2 < length (the (pxOpen s v)) + 2"
      using w t(3) copy(3-5) by (intro bexI [of _ w]) simp_all
  qed
  then show ?thesis by (simp add: busy_def t(2))
next
  case (eof w)
  note fin = px_inv_finite [OF inv]
  have w: "w \<in> dom (pxOpen s)" using eof(3) by auto
  have d: "dom (pxOpen t) = dom (pxOpen s) - {w}" and b: "pxBlocked t = insert w (pxBlocked s)"
    and o: "\<And>v. v \<noteq> w \<Longrightarrow> pxOpen t v = pxOpen s v" unfolding eof(2) by auto
  have "(\<Sum>v\<in>dom (pxOpen s). length (the (pxOpen s v)) + 2)
      = length (the (pxOpen s w)) + 2 + (\<Sum>v\<in>dom (pxOpen s) - {w}. length (the (pxOpen s v)) + 2)"
    using fin w by (intro sum.remove) auto
  moreover have "(\<Sum>v\<in>dom (pxOpen t). length (the (pxOpen t v)) + 2)
      = (\<Sum>v\<in>dom (pxOpen s) - {w}. length (the (pxOpen s v)) + 2)"
    unfolding d by (intro sum.cong) (auto simp: o)
  moreover have "card (pxBlocked t) \<le> Suc (card (pxBlocked s))" unfolding b using fin by (simp add: card_insert_if)
  ultimately show ?thesis by (simp add: busy_def)
next
  case (receive w)
  note fin = px_inv_finite [OF inv, THEN conjunct2]
  from receive(4) fin have "card (pxBlocked s - {w}) < card (pxBlocked s)" by (rule card_Diff1_less [rotated])
  then show ?thesis by (simp add: busy_def receive(2))
qed

text \<open>The proxy has nothing left to do but to accept.\<close>

definition idle :: "proxy \<Rightarrow> bool" where
  "idle s \<longleftrightarrow> (\<forall>l t. pstep s l t \<longrightarrow> acceptedOf l \<noteq> [])"

lemma idle_iff: "idle s \<longleftrightarrow> dom (pxOpen s) = {} \<and> (pxBlocked s = {} \<or> pxWait s \<le> 0)"
proof
  assume i: "idle s"
  have "pxOpen s w = None" for w
  proof (rule ccontr)
    assume "pxOpen s w \<noteq> None"
    then obtain dat where o: "pxOpen s w = Some dat" by blast
    show False
    proof (cases dat)
      case Nil
      with o pstep.eof [of s w] i show False by (force simp: idle_def)
    next
      case (Cons b bs)
      with o pstep.copy [of s w dat 1] i show False by (force simp: idle_def)
    qed
  qed
  moreover have "pxBlocked s = {} \<or> pxWait s \<le> 0"
    using i pstep.receive [of s] by (force simp: idle_def)
  ultimately show "dom (pxOpen s) = {} \<and> (pxBlocked s = {} \<or> pxWait s \<le> 0)" by auto
next
  assume s: "dom (pxOpen s) = {} \<and> (pxBlocked s = {} \<or> pxWait s \<le> 0)"
  show "idle s" unfolding idle_def
  proof (intro allI impI)
    fix l t assume "pstep s l t"
    then show "acceptedOf l \<noteq> []" using s by cases auto
  qed
qed

lemma psteps_busy:
  "psteps s ls t \<Longrightarrow> px_inv n ds s \<Longrightarrow> accepted ls = [] \<Longrightarrow> length ls + busy t \<le> busy s"
proof (induction rule: psteps.induct)
  case (more s ls t l u)
  have "px_inv n ds t" using px_inv_steps [OF more(1) more(4)] more(5) by simp
  from busy_step [OF this more(2)] more show ?case by simp
qed simp

section \<open>Properties\<close>

text \<open>Where only accepting is left, the main program has stopped waiting if enough have connected.\<close>

lemma idle_wait:
  assumes "psteps (startProxy k) ls u" and "idle u"
  shows "pxWait u \<le> 0 \<longleftrightarrow> sint k \<le> int (length (accepted ls))"
proof -
  have "px_inv (sint k) (accepted ls) u"
    using px_inv_steps [OF assms(1) px_inv_start] by simp
  then have range: "dom (pxOpen u) \<union> pxBlocked u \<union> set (pxGot u) = {firstWorker..<firstWorker + length (accepted ls)}"
    and wait: "pxWait u = sint k - int (length (pxGot u))" and dist: "distinct (pxGot u)"
    by (auto simp: px_inv_def)
  have le: "length (pxGot u) \<le> length (accepted ls)"
  proof -
    have "set (pxGot u) \<subseteq> {firstWorker..<firstWorker + length (accepted ls)}" using range by blast
    then have "card (set (pxGot u)) \<le> length (accepted ls)"
      using card_mono [of "{firstWorker..<firstWorker + length (accepted ls)}"] by simp
    with dist show ?thesis by (simp add: distinct_card)
  qed
  show ?thesis
  proof
    assume "pxWait u \<le> 0"
    with wait le show "sint k \<le> int (length (accepted ls))" by linarith
  next
    assume k: "sint k \<le> int (length (accepted ls))"
    from assms(2) have i: "dom (pxOpen u) = {}" "pxBlocked u = {} \<or> pxWait u \<le> 0" by (simp_all add: idle_iff)
    show "pxWait u \<le> 0"
    proof (cases "pxBlocked u = {}")
      case True
      with i range have "set (pxGot u) = {firstWorker..<firstWorker + length (accepted ls)}" by simp
      then have "card (set (pxGot u)) = length (accepted ls)" by simp
      with dist have "length (pxGot u) = length (accepted ls)" by (simp add: distinct_card)
      with wait k show ?thesis by simp
    qed (use i in simp)
  qed
qed



lemma demo_proxy:
  "psteps (startProxy 1) [Accept [], Eof 7090, Receive 7090]
     \<lparr>pxNext = 7091, pxOpen = Map.empty, pxBlocked = {}, pxOut = [], pxGot = [7090], pxWait = 0\<rparr>"
proof -
  have "psteps (startProxy 1) [Accept []] ((startProxy 1)\<lparr>pxNext := 7091, pxOpen := [7090 \<mapsto> []]\<rparr>)"
    using psteps_one [OF pstep.accept [of "startProxy 1" "[]"]] by (simp add: startProxy_def firstWorker_def)
  from psteps.more [OF this pstep.eof [of _ 7090]]
  have "psteps (startProxy 1) [Accept [], Eof 7090] ((startProxy 1)\<lparr>pxNext := 7091, pxBlocked := {7090}\<rparr>)"
    by (simp add: startProxy_def)
  from psteps.more [OF this pstep.receive [of _ 7090]] show ?thesis by (simp add: startProxy_def)
qed



end
