(* ===== verification/TypeApply.thy ===== *)
theory TypeApply
  imports GoBase
begin

text \<open>
  Package \<^verbatim>\<open>typeapply\<close> (\<^verbatim>\<open>src/src/typeapply/typeapply.go\<close>): \<^verbatim>\<open>Do\<close> finds every value of one type
  inside a value of another, by a traversal that is built once per type and kept in a table.
  What package \<^verbatim>\<open>reflect\<close> knows of a type is its kind; types refer to each other by name and
  may be recursive. The closures of the traversers are data here, with what they capture.
\<close>

section \<open>Types and values\<close>

type_synonym goty = string

text \<open>A field is given by whether it is exported and by its type.\<close>

datatype gkind =
    KPtr goty
  | KStruct "(bool \<times> goty) list"
  | KMap goty goty
  | KArray goty
  | KSlice goty
  | KInterface
  | KOther

type_synonym tenv = "goty \<Rightarrow> gkind"

text \<open>
  A nil pointer or interface is \<open>None\<close>; an interface value has its dynamic type. The entries
  of a map are in the order in which \<^verbatim>\<open>MapKeys\<close> gives them.
\<close>

datatype gval =
    VPtr "gval option"
  | VStruct "gval list"
  | VMap "(gval \<times> gval) list"
  | VSeq "gval list"
  | VIface "(goty \<times> gval) option"
  | VString string
  | VInt int
  | VBool bool

section \<open>The table\<close>

datatype knowledge = dontKnow | no | yes

definition orK :: "knowledge \<Rightarrow> knowledge \<Rightarrow> knowledge" where
  "orK a b =
     (if a = yes \<or> b = yes then yes
      else if a = dontKnow \<or> b = dontKnow then dontKnow
      else no)"

text \<open>The order in which \<open>orK\<close> is the maximum.\<close>

instantiation knowledge :: linorder
begin

fun knowledgeRank :: "knowledge \<Rightarrow> nat" where
  "knowledgeRank no = 0"
| "knowledgeRank dontKnow = 1"
| "knowledgeRank yes = 2"

definition less_eq_knowledge :: "knowledge \<Rightarrow> knowledge \<Rightarrow> bool" where
  "a \<le> b \<longleftrightarrow> knowledgeRank a \<le> knowledgeRank b"

definition less_knowledge :: "knowledge \<Rightarrow> knowledge \<Rightarrow> bool" where
  "a < b \<longleftrightarrow> knowledgeRank a < knowledgeRank b"

instance
proof
  fix a b :: knowledge
  show "a \<le> b \<Longrightarrow> b \<le> a \<Longrightarrow> a = b"
    by (cases a; cases b) (simp_all add: less_eq_knowledge_def)
qed (auto simp: less_eq_knowledge_def less_knowledge_def)

end

lemma orK_max: "orK a b = max a b"
  by (cases a; cases b) (simp_all add: orK_def max_def less_eq_knowledge_def)

lemma orK_yes [simp]: "orK a b = yes \<longleftrightarrow> a = yes \<or> b = yes"
  by (simp add: orK_def)

lemma orK_no [simp]: "orK a b = no \<longleftrightarrow> a = no \<and> b = no"
  by (cases a; cases b) (simp_all add: orK_def)

text \<open>
  What a traverser captures: \<open>OnStruct\<close> has the fields to visit, whose traversers are looked
  up in the table when it runs; the others have the traversers themselves, which may be nil.
\<close>

datatype traverser =
    Dummy
  | Call
  | OnPtr "traverser option"
  | OnStruct "(nat \<times> goty) list"
  | OnMap "traverser option" "traverser option"
  | OnSeq "traverser option"
  | OnIface

record typeInfo =
  tiReach :: knowledge
  tiVisiting :: bool
  tiTrav :: "traverser option"

type_synonym table = "goty \<rightharpoonup> typeInfo"

definition newInfo :: typeInfo where
  "newInfo = \<lparr>tiReach = dontKnow, tiVisiting = False, tiTrav = None\<rparr>"

text \<open>
  The entry of a type that is being visited, or is not unknown, is never replaced, so an
  update of the entry through a pointer is an update of the table.
\<close>

definition setReach :: "table \<Rightarrow> goty \<Rightarrow> knowledge \<Rightarrow> table" where
  "setReach m xt k = m(xt := map_option (\<lambda>i. i\<lparr>tiReach := k\<rparr>) (m xt))"

definition setTrav :: "table \<Rightarrow> goty \<Rightarrow> traverser \<Rightarrow> table" where
  "setTrav m xt tr = m(xt := map_option (\<lambda>i. i\<lparr>tiTrav := Some tr\<rparr>) (m xt))"

definition reachOf :: "table \<Rightarrow> goty \<Rightarrow> knowledge" where
  "reachOf m xt = (case m xt of None \<Rightarrow> dontKnow | Some i \<Rightarrow> tiReach i)"

definition known :: "table \<Rightarrow> goty \<Rightarrow> bool" where
  "known m xt = (case m xt of None \<Rightarrow> False | Some i \<Rightarrow> tiVisiting i \<or> tiReach i \<noteq> dontKnow)"

text \<open>The end of the visit of a type.\<close>

definition visited :: "goty \<Rightarrow> table \<Rightarrow> knowledge \<times> table" where
  "visited xt m =
     (reachOf m xt, m(xt := map_option (\<lambda>i. i\<lparr>tiVisiting := False\<rparr>) (m xt)))"

section \<open>canReach\<close>

text \<open>The fuel counts the types being visited; it is spent when the result is \<open>None\<close>.\<close>

function canReach :: "tenv \<Rightarrow> goty \<Rightarrow> nat \<Rightarrow> goty \<Rightarrow> table \<Rightarrow> (knowledge \<times> table) option"
  and canReachFields :: "tenv \<Rightarrow> goty \<Rightarrow> nat \<Rightarrow> goty \<Rightarrow> (bool \<times> goty) list \<Rightarrow> table \<Rightarrow> table option"
  where
  "canReach K t n xt m =
     (if known m xt then Some (reachOf m xt, m)
      else if t = xt then Some (yes, m(xt \<mapsto> newInfo\<lparr>tiReach := yes\<rparr>))
      else (case n of 0 \<Rightarrow> None | Suc k \<Rightarrow>
        (let m1 = m(xt \<mapsto> newInfo\<lparr>tiVisiting := True\<rparr>)
         in map_option (visited xt)
              (case K xt of
                 KPtr e \<Rightarrow> map_option (\<lambda>(r, m2). setReach m2 xt r) (canReach K t k e m1)
               | KStruct fs \<Rightarrow> canReachFields K t k xt fs m1
               | KMap key e \<Rightarrow>
                   Option.bind (canReach K t k key m1) (\<lambda>(r, m2).
                     map_option (\<lambda>(r', m3). setReach m3 xt (orK r' (reachOf m3 xt)))
                       (canReach K t k e (setReach m2 xt r)))
               | KArray e \<Rightarrow> map_option (\<lambda>(r, m2). setReach m2 xt r) (canReach K t k e m1)
               | KSlice e \<Rightarrow> map_option (\<lambda>(r, m2). setReach m2 xt r) (canReach K t k e m1)
               | KInterface \<Rightarrow> Some (setReach m1 xt yes)
               | KOther \<Rightarrow> Some m1))))"
| "canReachFields K t n xt [] m = Some m"
| "canReachFields K t n xt (f # fs) m =
     (if fst f
      then Option.bind (canReach K t n (snd f) m) (\<lambda>(r, m1).
             canReachFields K t n xt fs (setReach m1 xt (orK r (reachOf m1 xt))))
      else canReachFields K t n xt fs m)"
  by pat_completeness auto
termination
  by (relation "measures
      [\<lambda>x. case x of Inl (K, t, n, xt, m) \<Rightarrow> n | Inr (K, t, n, xt, fs, m) \<Rightarrow> n,
       \<lambda>x. case x of Inl _ \<Rightarrow> 0 | Inr (K, t, n, xt, fs, m) \<Rightarrow> Suc (length fs)]") auto

declare canReach.simps [simp del]

section \<open>getTraverserFunc\<close>

datatype gopanic = DummyCalled | UnexpectedType goty | NilFunc | ValueError | UnexportedUse

definition bindS ::
  "(('e + 'a) \<times> 's) option \<Rightarrow> ('a \<Rightarrow> 's \<Rightarrow> (('e + 'b) \<times> 's) option) \<Rightarrow> (('e + 'b) \<times> 's) option" where
  "bindS r k = (case r of
     None \<Rightarrow> None
   | Some (Inl e, s) \<Rightarrow> Some (Inl e, s)
   | Some (Inr a, s) \<Rightarrow> k a s)"

lemma bindS_simps [simp]:
  "bindS None k = None"
  "bindS (Some (Inl e, s)) k = Some (Inl e, s)"
  "bindS (Some (Inr a, s)) k = k a s"
  by (simp_all add: bindS_def)

definition travOf :: "table \<Rightarrow> goty \<Rightarrow> traverser option" where
  "travOf m xt = (case m xt of None \<Rightarrow> None | Some i \<Rightarrow> tiTrav i)"

definition setAs ::
  "goty \<Rightarrow> traverser \<Rightarrow> table \<Rightarrow> ((gopanic + traverser option) \<times> table) option" where
  "setAs xt tr m = Some (Inr (Some tr), setTrav m xt tr)"

function getTraverserFunc ::
    "tenv \<Rightarrow> goty \<Rightarrow> nat \<Rightarrow> goty \<Rightarrow> table \<Rightarrow> ((gopanic + traverser option) \<times> table) option"
  and getFields ::
    "tenv \<Rightarrow> goty \<Rightarrow> nat \<Rightarrow> nat \<Rightarrow> (bool \<times> goty) list \<Rightarrow> table \<Rightarrow> ((gopanic + (nat \<times> goty) list) \<times> table) option"
  where
  "getTraverserFunc K t n xt m =
     (case canReach K t n xt m of None \<Rightarrow> None | Some (need, m1) \<Rightarrow>
        if travOf m1 xt \<noteq> None \<or> need = no then Some (Inr (travOf m1 xt), m1)
        else if need = dontKnow then Some (Inr None, setReach m1 xt no)
        else if xt = t then setAs xt Call m1
        else (case n of 0 \<Rightarrow> None | Suc k \<Rightarrow>
          (let m2 = setTrav m1 xt Dummy
           in case K xt of
                KPtr e \<Rightarrow> bindS (getTraverserFunc K t k e m2) (\<lambda>f. setAs xt (OnPtr f))
              | KStruct fs \<Rightarrow> bindS (getFields K t k 0 fs m2) (\<lambda>is. setAs xt (OnStruct is))
              | KMap key e \<Rightarrow>
                  bindS (getTraverserFunc K t k key m2) (\<lambda>f m3.
                  bindS (getTraverserFunc K t k e m3) (\<lambda>g. setAs xt (OnMap f g)))
              | KArray e \<Rightarrow> bindS (getTraverserFunc K t k e m2) (\<lambda>f. setAs xt (OnSeq f))
              | KSlice e \<Rightarrow> bindS (getTraverserFunc K t k e m2) (\<lambda>f. setAs xt (OnSeq f))
              | KInterface \<Rightarrow> setAs xt OnIface m2
              | KOther \<Rightarrow> Some (Inl (UnexpectedType xt), m2))))"
| "getFields K t n i [] m = Some (Inr [], m)"
| "getFields K t n i (f # fs) m =
     bindS (getTraverserFunc K t n (snd f) m) (\<lambda>tr m1.
     bindS (getFields K t n (Suc i) fs m1) (\<lambda>is m2.
       Some (Inr (if tr \<noteq> None then (i, snd f) # is else is), m2)))"
  by pat_completeness auto
termination
  by (relation "measures
      [\<lambda>x. case x of Inl (K, t, n, xt, m) \<Rightarrow> n | Inr (K, t, n, i, fs, m) \<Rightarrow> n,
       \<lambda>x. case x of Inl _ \<Rightarrow> 0 | Inr (K, t, n, i, fs, m) \<Rightarrow> Suc (length fs)]") auto

declare getTraverserFunc.simps [simp del]

section \<open>Running a traverser\<close>

text \<open>
  A reflected value has its type, and whether it was obtained through an unexported field,
  which makes the call of the function panic. The state is the table and the arguments of
  the calls of the function so far.
\<close>

type_synonym tstate = "table \<times> gval list"

type_synonym tresult = "((gopanic + unit) \<times> tstate) option"

lemma size_nth: "i < length xs \<Longrightarrow> size (xs ! i) \<le> size_list size xs"
  by (rule size_list_estimation') auto

function runTrav ::
    "tenv \<Rightarrow> goty \<Rightarrow> nat \<Rightarrow> traverser option \<Rightarrow> bool \<Rightarrow> goty \<Rightarrow> gval \<Rightarrow> tstate \<Rightarrow> tresult"
  and runFields ::
    "tenv \<Rightarrow> goty \<Rightarrow> nat \<Rightarrow> (nat \<times> goty) list \<Rightarrow> bool \<Rightarrow> (bool \<times> goty) list \<Rightarrow> gval list \<Rightarrow> tstate \<Rightarrow> tresult"
  and runPairs ::
    "tenv \<Rightarrow> goty \<Rightarrow> nat \<Rightarrow> traverser option \<Rightarrow> traverser option \<Rightarrow> bool \<Rightarrow> goty \<Rightarrow> goty
       \<Rightarrow> (gval \<times> gval) list \<Rightarrow> tstate \<Rightarrow> tresult"
  and runElems ::
    "tenv \<Rightarrow> goty \<Rightarrow> nat \<Rightarrow> traverser option \<Rightarrow> bool \<Rightarrow> goty \<Rightarrow> gval list \<Rightarrow> tstate \<Rightarrow> tresult"
  where
  "runTrav K t n None ro T v s = Some (Inl NilFunc, s)"
| "runTrav K t n (Some tr) ro T v s =
     (case tr of
        Dummy \<Rightarrow> Some (Inl DummyCalled, s)
      | Call \<Rightarrow>
          if T \<noteq> t then Some (Inl ValueError, s)
          else if ro then Some (Inl UnexportedUse, s)
          else Some (Inr (), (fst s, snd s @ [v]))
      | OnPtr f \<Rightarrow>
          (case (K T, v) of
             (KPtr e, VPtr None) \<Rightarrow> Some (Inr (), s)
           | (KPtr e, VPtr (Some w)) \<Rightarrow> runTrav K t n f ro e w s
           | _ \<Rightarrow> Some (Inl ValueError, s))
      | OnStruct is \<Rightarrow>
          (case (K T, v) of
             (KStruct fs, VStruct ws) \<Rightarrow> runFields K t n is ro fs ws s
           | _ \<Rightarrow> Some (Inl ValueError, s))
      | OnMap f g \<Rightarrow>
          (case (K T, v) of
             (KMap a b, VMap ps) \<Rightarrow> runPairs K t n f g ro a b ps s
           | _ \<Rightarrow> Some (Inl ValueError, s))
      | OnSeq f \<Rightarrow>
          (case (K T, v) of
             (KArray e, VSeq ws) \<Rightarrow> runElems K t n f ro e ws s
           | (KSlice e, VSeq ws) \<Rightarrow> runElems K t n f ro e ws s
           | _ \<Rightarrow> Some (Inl ValueError, s))
      | OnIface \<Rightarrow>
          (case (K T, v) of
             (KInterface, VIface None) \<Rightarrow> Some (Inr (), s)
           | (KInterface, VIface (Some (D, w))) \<Rightarrow>
               (case getTraverserFunc K t n D (fst s) of
                  None \<Rightarrow> None
                | Some (Inl p, m) \<Rightarrow> Some (Inl p, (m, snd s))
                | Some (Inr None, m) \<Rightarrow> Some (Inr (), (m, snd s))
                | Some (Inr (Some f), m) \<Rightarrow> runTrav K t n (Some f) ro D w (m, snd s))
           | _ \<Rightarrow> Some (Inl ValueError, s)))"
| "runFields K t n [] ro fs ws s = Some (Inr (), s)"
| "runFields K t n (x # is) ro fs ws s =
     (if fst x < length fs \<and> fst x < length ws
      then thenE (runTrav K t n (travOf (fst s) (snd x)) (ro \<or> \<not> fst (fs ! fst x)) (snd (fs ! fst x)) (ws ! fst x) s)
             (\<lambda>s1. runFields K t n is ro fs ws s1)
      else Some (Inl ValueError, s))"
| "runPairs K t n f g ro a b [] s = Some (Inr (), s)"
| "runPairs K t n f g ro a b ((x, y) # ps) s =
     thenE (if f \<noteq> None then runTrav K t n f ro a x s else Some (Inr (), s)) (\<lambda>s1.
     thenE (if g \<noteq> None then runTrav K t n g ro b y s1 else Some (Inr (), s1)) (\<lambda>s2.
     runPairs K t n f g ro a b ps s2))"
| "runElems K t n f ro e [] s = Some (Inr (), s)"
| "runElems K t n f ro e (x # xs) s =
     thenE (runTrav K t n f ro e x s) (\<lambda>s1. runElems K t n f ro e xs s1)"
  by pat_completeness auto
termination
  by (relation "measures
      [\<lambda>x. case x of
           Inl (Inl (K, t, n, tr, ro, T, v, s)) \<Rightarrow> 2 * size v + 1
         | Inl (Inr (K, t, n, is, ro, fs, ws, s)) \<Rightarrow> 2 * size_list size ws + 2
         | Inr (Inl (K, t, n, f, g, ro, a, b, ps, s)) \<Rightarrow> 2 * size_list (size_prod size size) ps + 2
         | Inr (Inr (K, t, n, f, ro, e, ws, s)) \<Rightarrow> 2 * size_list size ws + 2,
       \<lambda>x. case x of Inl (Inr (K, t, n, is, ro, fs, ws, s)) \<Rightarrow> length is | _ \<Rightarrow> 0]")
    (auto simp: le_imp_less_Suc size_nth)

declare runTrav.simps(2) [simp del]

section \<open>Do\<close>

text \<open>
  The argument is a function on values of type \<open>t\<close>; its calls are returned. \<^verbatim>\<open>tmap\<close> keeps one
  table for every such type.
\<close>

type_synonym typeMap = "goty \<rightharpoonup> table"

definition Do ::
  "tenv \<Rightarrow> nat \<Rightarrow> goty \<Rightarrow> goty \<Rightarrow> gval \<Rightarrow> typeMap \<Rightarrow> ((gopanic + unit) \<times> gval list \<times> typeMap) option" where
  "Do K n t xt v tmap =
     (let m = (case tmap t of None \<Rightarrow> Map.empty | Some m \<Rightarrow> m)
      in case getTraverserFunc K t n xt m of
           None \<Rightarrow> None
         | Some (Inl p, m1) \<Rightarrow> Some (Inl p, [], tmap(t \<mapsto> m1))
         | Some (Inr None, m1) \<Rightarrow> Some (Inr (), [], tmap(t \<mapsto> m1))
         | Some (Inr (Some trav), m1) \<Rightarrow>
             (case runTrav K t n (Some trav) False xt v (m1, []) of
                None \<Rightarrow> None
              | Some (r, m2, calls) \<Rightarrow> Some (r, calls, tmap(t \<mapsto> m2))))"

end
