(* ===== verification/TypeApplyProps.thy ===== *)
theory TypeApplyProps
  imports TypeApply
begin

text \<open>
  What \<^verbatim>\<open>Do\<close> finds. First \<^verbatim>\<open>canReach\<close> against reachability in the graph of types, recursive types
  included; then the traversers that \<^verbatim>\<open>getTraverserFunc\<close> builds and what they call, for types
  that are not recursive; and the two ways in which recursive types go wrong.
\<close>

section \<open>Reachability\<close>

fun parts :: "gkind \<Rightarrow> goty list" where
  "parts (KPtr e) = [e]"
| "parts (KStruct fs) = map snd (filter fst fs)"
| "parts (KMap a b) = [a, b]"
| "parts (KArray e) = [e]"
| "parts (KSlice e) = [e]"
| "parts _ = []"

text \<open>Public reachability of the type \<open>t\<close>. Anything may be behind an interface.\<close>

inductive reach :: "tenv \<Rightarrow> goty \<Rightarrow> goty \<Rightarrow> bool" for K t where
  self: "reach K t t"
| iface: "K T = KInterface \<Longrightarrow> reach K t T"
| part: "y \<in> set (parts (K T)) \<Longrightarrow> reach K t y \<Longrightarrow> reach K t T"

text \<open>The same on a path that avoids the types \<open>V\<close>.\<close>

inductive via :: "tenv \<Rightarrow> goty \<Rightarrow> goty set \<Rightarrow> goty \<Rightarrow> bool" for K t V where
  self: "via K t V t"
| iface: "T \<notin> V \<Longrightarrow> K T = KInterface \<Longrightarrow> via K t V T"
| part: "T \<notin> V \<Longrightarrow> y \<in> set (parts (K T)) \<Longrightarrow> via K t V y \<Longrightarrow> via K t V T"

inductive_simps via_iff: "via K t V T"
inductive_simps reach_iff: "reach K t T"

lemma via_empty: "via K t {} T \<longleftrightarrow> reach K t T"
proof
  show "via K t {} T \<Longrightarrow> reach K t T" by (induction rule: via.induct) (auto intro: reach.intros)
  show "reach K t T \<Longrightarrow> via K t {} T" by (induction rule: reach.induct) (auto intro: via.intros)
qed

text \<open>A path need not come back to where it started.\<close>

lemma via_once:
  "via K t V x \<Longrightarrow> via K t (insert T V) x \<or> T = t \<or> K T = KInterface \<or>
     (\<exists>y\<in>set (parts (K T)). via K t (insert T V) y)"
proof (induction rule: via.induct)
  case (iface x)
  then show ?case by (cases "x = T") (auto intro: via.iface)
next
  case (part x y)
  then show ?case by (cases "x = T") (auto intro: via.part)
qed (simp add: via.self)

lemma via_step:
  assumes "via K t V T" and "T \<noteq> t" and "K T \<noteq> KInterface"
  shows "\<exists>y\<in>set (parts (K T)). via K t (insert T V) y"
  using via_once [OF assms(1), of T] assms(2,3) by (auto simp: via_iff [of K t "insert T V" T])

definition edge :: "tenv \<Rightarrow> (goty \<times> goty) set" where
  "edge K = {(x, y). y \<in> set (parts (K x))}"

lemma edge_parts [simp]: "(x, y) \<in> edge K \<longleftrightarrow> y \<in> set (parts (K x))"
  by (simp add: edge_def)

text \<open>No map type contains itself in its elements.\<close>

definition mapsOff :: "tenv \<Rightarrow> bool" where
  "mapsOff K \<longleftrightarrow> (\<forall>T a b. K T = KMap a b \<longrightarrow> (b, T) \<notin> (edge K)\<^sup>*)"

section \<open>The table during a visit\<close>

definition visiting :: "table \<Rightarrow> goty set" where
  "visiting m = {T. \<exists>i. m T = Some i \<and> tiVisiting i}"

definition tabOk :: "tenv \<Rightarrow> goty \<Rightarrow> table \<Rightarrow> bool" where
  "tabOk K t m \<longleftrightarrow> (\<forall>T i. m T = Some i \<longrightarrow>
     (tiReach i = yes \<longrightarrow> reach K t T) \<and>
     (tiReach i = no \<and> \<not> tiVisiting i \<longrightarrow> \<not> reach K t T) \<and>
     (tiVisiting i \<longrightarrow> T \<noteq> t))"

definition fresher :: "table \<Rightarrow> table \<Rightarrow> goty \<Rightarrow> bool" where
  "fresher m m' T \<longleftrightarrow> m' T = m T \<or>
     (\<not> known m T \<and> (\<exists>i. m' T = Some i \<and> \<not> tiVisiting i \<and> tiTrav i = None))"

definition keeps :: "table \<Rightarrow> table \<Rightarrow> bool" where
  "keeps m m' \<longleftrightarrow> (\<forall>T. fresher m m' T)"

definition inVisit :: "table \<Rightarrow> goty \<Rightarrow> table \<Rightarrow> bool" where
  "inVisit m xt m2 \<longleftrightarrow>
     (\<exists>i. m2 xt = Some i \<and> tiVisiting i \<and> tiTrav i = None) \<and> (\<forall>T. T \<noteq> xt \<longrightarrow> fresher m m2 T)"

lemma fresher_trans: "fresher m m' T \<Longrightarrow> fresher m' m'' T \<Longrightarrow> fresher m m'' T"
  by (auto simp: fresher_def known_def)

lemma keeps_refl: "keeps m m" by (simp add: keeps_def fresher_def)

lemma keeps_trans: "keeps m m' \<Longrightarrow> keeps m' m'' \<Longrightarrow> keeps m m''"
  unfolding keeps_def by (blast intro: fresher_trans)

lemma keeps_visiting: "keeps m m' \<Longrightarrow> visiting m' = visiting m"
  unfolding keeps_def fresher_def visiting_def known_def
  by (safe; force split: option.splits)

lemma keeps_known: "keeps m m' \<Longrightarrow> known m T \<Longrightarrow> m' T = m T"
  unfolding keeps_def fresher_def by blast

lemma inVisit_start: "inVisit m xt (m(xt \<mapsto> newInfo\<lparr>tiVisiting := True\<rparr>))"
  by (simp add: inVisit_def fresher_def newInfo_def)

lemma fresher_known: "fresher m m' T \<Longrightarrow> known m T \<Longrightarrow> m' T = m T"
  by (auto simp: fresher_def)

lemma inVisit_known: "inVisit m xt m2 \<Longrightarrow> known m2 xt"
  by (auto simp: inVisit_def known_def)

lemma inVisit_keeps:
  assumes "inVisit m xt m2" and "keeps m2 m3" shows "inVisit m xt m3"
proof -
  have "m3 xt = m2 xt" using keeps_known [OF assms(2) inVisit_known [OF assms(1)]] .
  with assms show ?thesis by (auto simp: inVisit_def keeps_def intro: fresher_trans)
qed

lemma inVisit_setReach: "inVisit m xt m2 \<Longrightarrow> inVisit m xt (setReach m2 xt k)"
  by (auto simp: inVisit_def setReach_def fresher_def)

lemma inVisit_visiting:
  "inVisit m xt m2 \<Longrightarrow> \<not> known m xt \<Longrightarrow> visiting m2 = insert xt (visiting m)"
  unfolding inVisit_def fresher_def visiting_def known_def
  by (safe; force split: option.splits)

lemma visiting_known: "v \<in> visiting m \<Longrightarrow> known m v"
  by (auto simp: visiting_def known_def)

lemma inVisit_reachOf:
  "inVisit m xt m2 \<Longrightarrow> v \<in> visiting m \<Longrightarrow> v \<noteq> xt \<Longrightarrow> reachOf m2 v = reachOf m v"
  using fresher_known [of m m2 v, OF _ visiting_known] by (simp add: inVisit_def reachOf_def)

lemma setReach_reachOf: "inVisit m xt m2 \<Longrightarrow> reachOf (setReach m2 xt k) xt = k"
  by (auto simp: inVisit_def setReach_def reachOf_def)

lemma tabOk_start: "tabOk K t m \<Longrightarrow> xt \<noteq> t \<Longrightarrow> tabOk K t (m(xt \<mapsto> newInfo\<lparr>tiVisiting := True\<rparr>))"
  by (simp add: tabOk_def newInfo_def)

lemma tabOk_setReach:
  "tabOk K t m2 \<Longrightarrow> inVisit m xt m2 \<Longrightarrow> (k = yes \<Longrightarrow> reach K t xt) \<Longrightarrow> tabOk K t (setReach m2 xt k)"
  by (auto simp: tabOk_def setReach_def inVisit_def)

lemma tabOk_reach: "tabOk K t m \<Longrightarrow> reachOf m T = yes \<Longrightarrow> reach K t T"
  by (auto simp: tabOk_def reachOf_def split: option.splits)

text \<open>The end of a visit.\<close>

lemma visited_ok:
  assumes "inVisit m xt m2" and "tabOk K t m2" and "\<not> known m xt"
    and "reachOf m2 xt = no \<Longrightarrow> \<not> reach K t xt"
  shows "fst (visited xt m2) = reachOf m2 xt \<and> tabOk K t (snd (visited xt m2)) \<and>
    keeps m (snd (visited xt m2)) \<and>
    (\<exists>i. snd (visited xt m2) xt = Some i \<and> tiReach i = reachOf m2 xt)"
proof -
  from assms(1) obtain i where i: "m2 xt = Some i" "tiVisiting i" "tiTrav i = None"
    by (auto simp: inVisit_def)
  let ?m = "m2(xt \<mapsto> i\<lparr>tiVisiting := False\<rparr>)"
  have v: "visited xt m2 = (tiReach i, ?m)" and r: "reachOf m2 xt = tiReach i"
    using i(1) by (simp_all add: visited_def reachOf_def)
  have "tabOk K t ?m"
    using assms(2,4) i r by (simp add: tabOk_def)
  moreover have "fresher m ?m T" for T
    using assms(1,3) i by (cases "T = xt") (auto simp: inVisit_def fresher_def)
  ultimately show ?thesis by (simp add: v r keeps_def)
qed

section \<open>canReach\<close>

definition enters :: "tenv \<Rightarrow> table \<Rightarrow> goty \<Rightarrow> bool" where
  "enters K m T \<longleftrightarrow> (\<forall>v\<in>visiting m. reachOf m v = no \<longrightarrow> (T, v) \<notin> (edge K)\<^sup>*)"

definition answers :: "tenv \<Rightarrow> goty \<Rightarrow> table \<Rightarrow> goty \<Rightarrow> knowledge \<Rightarrow> table \<Rightarrow> bool" where
  "answers K t m T k m' \<longleftrightarrow> tabOk K t m' \<and> keeps m m' \<and>
     (k = yes \<longrightarrow> reach K t T) \<and> (k = no \<longrightarrow> \<not> reach K t T) \<and>
     (via K t (visiting m) T \<longrightarrow> k = yes) \<and> (\<exists>i. m' T = Some i \<and> tiReach i = k)"

lemma enters_child:
  assumes "enters K m xt" and "inVisit m xt m2" and "\<not> known m xt"
    and "y \<in> set (parts (K xt))" and "reachOf m2 xt = no \<Longrightarrow> (y, xt) \<notin> (edge K)\<^sup>*"
  shows "enters K m2 y"
  unfolding enters_def
proof (intro ballI impI)
  fix v assume v: "v \<in> visiting m2" "reachOf m2 v = no"
  show "(y, v) \<notin> (edge K)\<^sup>*"
  proof (cases "v = xt")
    case False
    with v assms(2,3) have "v \<in> visiting m" "reachOf m v = no"
      by (simp_all add: inVisit_visiting) (metis assms(2) inVisit_reachOf)
    with assms(1) have "(xt, v) \<notin> (edge K)\<^sup>*" by (simp add: enters_def)
    with assms(4) show ?thesis by (meson converse_rtrancl_into_rtrancl edge_parts)
  qed (use v assms(5) in simp)
qed

lemma visit_child:
  assumes ans: "answers K t m2 y k m3" and iv: "inVisit m xt m2"
    and unk: "\<not> known m xt" and ok: "tabOk K t m2"
    and y: "y \<in> set (parts (K xt))"
  shows "inVisit m xt m3 \<and> tabOk K t m3 \<and> reachOf m3 xt = reachOf m2 xt \<and>
    (k = yes \<longrightarrow> reach K t xt) \<and> (via K t (insert xt (visiting m)) y \<longrightarrow> k = yes)"
proof -
  from ans have kp: "keeps m2 m3" and ok3: "tabOk K t m3" by (simp_all add: answers_def)
  from iv have "known m2 xt" by (auto simp: inVisit_def known_def)
  with kp have "m3 xt = m2 xt" by (simp add: keeps_known)
  then have "reachOf m3 xt = reachOf m2 xt" by (simp add: reachOf_def)
  moreover have "k = yes \<longrightarrow> reach K t xt"
    using ans y by (auto simp: answers_def intro: reach.part)
  moreover have "via K t (insert xt (visiting m)) y \<longrightarrow> k = yes"
    using ans inVisit_visiting [OF iv unk] by (simp add: answers_def)
  ultimately show ?thesis using ok3 inVisit_keeps [OF iv kp] by blast
qed

lemma canReachFields_ok:
  assumes IH: "\<And>y m k m'. tabOk K t m \<Longrightarrow> enters K m y \<Longrightarrow> canReach K t n y m = Some (k, m') \<Longrightarrow>
      answers K t m y k m'"
    and en: "enters K m xt" and unk: "\<not> known m xt"
  shows "inVisit m xt m2 \<Longrightarrow> tabOk K t m2 \<Longrightarrow> reachOf m2 xt \<noteq> no \<Longrightarrow>
    snd ` set (filter fst fs) \<subseteq> set (parts (K xt)) \<Longrightarrow> canReachFields K t n xt fs m2 = Some m3 \<Longrightarrow>
    inVisit m xt m3 \<and> tabOk K t m3 \<and> reachOf m3 xt \<noteq> no \<and> (reachOf m2 xt = yes \<longrightarrow> reachOf m3 xt = yes) \<and>
    (\<forall>y\<in>snd ` set (filter fst fs). via K t (insert xt (visiting m)) y \<longrightarrow> reachOf m3 xt = yes)"
proof (induction fs arbitrary: m2)
  case (Cons f fs)
  show ?case
  proof (cases "fst f")
    case True
    from Cons.prems(5) True obtain r m4 where r: "canReach K t n (snd f) m2 = Some (r, m4)"
      and rest: "canReachFields K t n xt fs (setReach m4 xt (orK r (reachOf m4 xt))) = Some m3"
      by (auto split: bind_splits)
    have y: "snd f \<in> set (parts (K xt))" using Cons.prems(4) True by auto
    have "answers K t m2 (snd f) r m4"
      by (rule IH [OF Cons.prems(2) enters_child [OF en Cons.prems(1) unk y] r])
        (use Cons.prems(3) in simp)
    note ch = visit_child [OF this Cons.prems(1) unk Cons.prems(2) y]
    let ?k = "orK r (reachOf m4 xt)"
    from ch Cons.prems(3) have k: "?k \<noteq> no" "r = yes \<or> reachOf m2 xt = yes \<Longrightarrow> ?k = yes"
      "?k = yes \<Longrightarrow> r = yes \<or> reachOf m4 xt = yes"
      by auto
    have iv: "inVisit m xt (setReach m4 xt ?k)" using ch by (simp add: inVisit_setReach)
    have ok: "tabOk K t (setReach m4 xt ?k)"
      by (rule tabOk_setReach [where m = m]) (use ch k(3) tabOk_reach in blast)+
    have re: "reachOf (setReach m4 xt ?k) xt = ?k" using ch setReach_reachOf by blast
    have "snd ` set (filter fst fs) \<subseteq> set (parts (K xt))" using Cons.prems(4) True by auto
    from Cons.IH [OF iv ok _ this rest] k(1) re
    have "inVisit m xt m3 \<and> tabOk K t m3 \<and> reachOf m3 xt \<noteq> no \<and> (?k = yes \<longrightarrow> reachOf m3 xt = yes) \<and>
      (\<forall>y\<in>snd ` set (filter fst fs). via K t (insert xt (visiting m)) y \<longrightarrow> reachOf m3 xt = yes)"
      by simp
    with ch k(2) True show ?thesis by auto
  next
    case False
    with Cons show ?thesis by simp
  qed
qed simp

lemma answers_known:
  assumes "tabOk K t m" and "enters K m T" and "known m T" shows "answers K t m T (reachOf m T) m"
proof -
  from assms(3) obtain i where i: "m T = Some i" "tiVisiting i \<or> tiReach i \<noteq> dontKnow"
    by (auto simp: known_def split: option.splits)
  then have r: "reachOf m T = tiReach i" by (simp add: reachOf_def)
  have no: "\<not> reach K t T" if "tiReach i = no"
  proof (cases "tiVisiting i")
    case True
    with i have "T \<in> visiting m" by (auto simp: visiting_def)
    with assms(2) that r show ?thesis by (auto simp: enters_def)
  qed (use assms(1) i that in \<open>auto simp: tabOk_def\<close>)
  have yes: "tiReach i = yes" if v: "via K t (visiting m) T"
  proof -
    have "reach K t T" using v by (induction rule: via.induct) (auto intro: reach.intros)
    with no i(2) have "tiVisiting i \<or> tiReach i = yes" by (cases "tiReach i") auto
    moreover have "\<not> tiVisiting i"
    proof
      assume vi: "tiVisiting i"
      with i have "T \<in> visiting m" "T \<noteq> t" using assms(1) by (auto simp: visiting_def tabOk_def)
      with v show False by (auto elim: via.cases)
    qed
    ultimately show ?thesis by simp
  qed
  have "tiReach i = yes \<Longrightarrow> reach K t T" using assms(1) i(1) by (simp add: tabOk_def)
  with assms(1) i(1) no yes show ?thesis
    unfolding answers_def r by (simp add: keeps_refl)
qed

lemma answers_self: "tabOk K t m \<Longrightarrow> \<not> known m t \<Longrightarrow> answers K t m t yes (m(t \<mapsto> newInfo\<lparr>tiReach := yes\<rparr>))"
  by (auto simp: answers_def tabOk_def keeps_def fresher_def newInfo_def intro: reach.self)

text \<open>The end of a visit answers the question, when the answer has been put in the entry.\<close>

lemma answers_visited:
  assumes "inVisit m xt m2" and "tabOk K t m2" and "\<not> known m xt" and "xt \<noteq> t"
    and "reachOf m2 xt = no \<Longrightarrow> \<not> reach K t xt"
    and "K xt = KInterface \<or> (\<exists>y\<in>set (parts (K xt)). via K t (insert xt (visiting m)) y) \<Longrightarrow> reachOf m2 xt = yes"
    and "visited xt m2 = (k, m')"
  shows "answers K t m xt k m'"
proof -
  from visited_ok [OF assms(1-3,5)] assms(7)
  have "k = reachOf m2 xt" "tabOk K t m'" "keeps m m'" "\<exists>i. m' xt = Some i \<and> tiReach i = k" by auto
  note m' = this
  have "reachOf m2 xt = yes" if "via K t (visiting m) xt"
    using assms(6) via_step [OF that assms(4)] by blast
  with m' assms(5) tabOk_reach [OF assms(2)] show ?thesis
    unfolding answers_def by simp
qed

lemma visit_one:
  assumes "answers K t m2 y k m3" and "inVisit m xt m2"
    and "\<not> known m xt" and "tabOk K t m2" and "parts (K xt) = [y]" and "xt \<noteq> t" and "K xt \<noteq> KInterface"
    and "visited xt (setReach m3 xt k) = (r, m')"
  shows "answers K t m xt r m'"
proof (rule answers_visited [OF _ _ assms(3,6) _ _ assms(8)])
  from assms(5) have y: "y \<in> set (parts (K xt))" by simp
  note ch = visit_child [OF assms(1-4) y]
  show "inVisit m xt (setReach m3 xt k)" using ch by (simp add: inVisit_setReach)
  show "tabOk K t (setReach m3 xt k)" using ch by (intro tabOk_setReach [where m = m]) auto
  have re: "reachOf (setReach m3 xt k) xt = k" using ch setReach_reachOf by blast
  show "reachOf (setReach m3 xt k) xt = no \<Longrightarrow> \<not> reach K t xt"
    unfolding re using assms(1,5,6,7) by (auto simp: answers_def reach_iff [of K t xt])
  show "K xt = KInterface \<or> (\<exists>y\<in>set (parts (K xt)). via K t (insert xt (visiting m)) y) \<Longrightarrow>
      reachOf (setReach m3 xt k) xt = yes"
    unfolding re using ch assms(5,7) by simp
qed

lemma canReach_answers:
  assumes "mapsOff K"
  shows "tabOk K t m \<Longrightarrow> enters K m T \<Longrightarrow> canReach K t n T m = Some (k, m') \<Longrightarrow> answers K t m T k m'"
proof (induction n arbitrary: T m k m')
  case 0
  then show ?case
    by (auto simp: canReach.simps [of _ _ _ T] answers_known answers_self simp del: fun_upd_apply
        split: if_splits)
next
  case (Suc n)
  show ?case
  proof (cases "known m T \<or> T = t")
    case True
    with Suc.prems show ?thesis
      by (auto simp: canReach.simps [of _ _ _ T] answers_known answers_self simp del: fun_upd_apply
          split: if_splits)
  next
    case False
    then have unk: "\<not> known m T" and Tt: "T \<noteq> t" by auto
    let ?m1 = "m(T \<mapsto> newInfo\<lparr>tiVisiting := True\<rparr>)"
    have iv1: "inVisit m T ?m1" by (rule inVisit_start)
    have ok1: "tabOk K t ?m1" using Suc.prems(1) Tt by (rule tabOk_start)
    have r1: "reachOf ?m1 T = dontKnow" by (simp add: reachOf_def newInfo_def)
    have child: "answers K t ?m1 y r m2"
      if "y \<in> set (parts (K T))" "canReach K t n y ?m1 = Some (r, m2)" for y r m2
      by (rule Suc.IH [OF ok1 enters_child [OF Suc.prems(2) iv1 unk that(1)] that(2)])
        (simp add: r1)
    note unfolded = Suc.prems(3) [unfolded canReach.simps [of K t "Suc n" T m] Let_def, simplified unk Tt [symmetric], simplified]
    have one: ?thesis if "parts (K T) = [y]" and "K T \<noteq> KInterface"
      and "map_option (visited T) (map_option (\<lambda>(r, m2). setReach m2 T r) (canReach K t n y ?m1)) = Some (k, m')" for y
    proof -
      from that(3) obtain r m2 where "canReach K t n y ?m1 = Some (r, m2)"
        and v: "visited T (setReach m2 T r) = (k, m')" by auto
      with child that(1) have "answers K t ?m1 y r m2" by simp
      from visit_one [OF this iv1 unk ok1 that(1) Tt that(2) v] show ?thesis .
    qed
    show ?thesis
    proof (cases "K T")
      case (KStruct fs)
      with unfolded obtain m2 where f: "canReachFields K t n T fs ?m1 = Some m2" and v: "visited T m2 = (k, m')"
        by auto
      have p: "snd ` set (filter fst fs) = set (parts (K T))" using KStruct by simp
      have fields: "inVisit m T m2 \<and> tabOk K t m2 \<and> reachOf m2 T \<noteq> no \<and>
          (reachOf ?m1 T = yes \<longrightarrow> reachOf m2 T = yes) \<and>
          (\<forall>y\<in>snd ` set (filter fst fs). via K t (insert T (visiting m)) y \<longrightarrow> reachOf m2 T = yes)"
      proof (rule canReachFields_ok [OF _ Suc.prems(2) unk iv1 ok1 _ _ f])
        show "answers K t m0 y k0 m0'"
          if "tabOk K t m0" "enters K m0 y" "canReach K t n y m0 = Some (k0, m0')" for y m0 k0 m0'
          using that by (rule Suc.IH)
      qed (use p r1 in auto)
      show ?thesis
        by (rule answers_visited [OF _ _ unk Tt _ _ v]) (use fields KStruct in simp_all)
    next
      case (KMap a b)
      with unfolded obtain r m2 r' m3 where a: "canReach K t n a ?m1 = Some (r, m2)"
        and b: "canReach K t n b (setReach m2 T r) = Some (r', m3)"
        and v: "visited T (setReach m3 T (orK r' (reachOf m3 T))) = (k, m')"
        by (auto split: bind_splits)
      have ya: "a \<in> set (parts (K T))" and yb: "b \<in> set (parts (K T))" using KMap by simp_all
      note ansa = child [OF ya a]
      note cha = visit_child [OF ansa iv1 unk ok1 ya]
      let ?m2 = "setReach m2 T r"
      have iv2: "inVisit m T ?m2" using cha by (simp add: inVisit_setReach)
      have ok2: "tabOk K t ?m2" using cha by (intro tabOk_setReach [where m = m]) auto
      have r2: "reachOf ?m2 T = r" using cha setReach_reachOf by blast
      have "enters K ?m2 b"
        by (rule enters_child [OF Suc.prems(2) iv2 unk yb]) (use assms KMap in \<open>auto simp: mapsOff_def\<close>)
      from Suc.IH [OF ok2 this b] have ansb: "answers K t ?m2 b r' m3" .
      note chb = visit_child [OF ansb iv2 unk ok2 yb]
      let ?k = "orK r' (reachOf m3 T)"
      have r3: "reachOf m3 T = r" using chb r2 by simp
      have iv3: "inVisit m T (setReach m3 T ?k)" using chb by (simp add: inVisit_setReach)
      have ok3: "tabOk K t (setReach m3 T ?k)"
        using cha chb by (intro tabOk_setReach [where m = m]) (auto simp: r3)
      have r4: "reachOf (setReach m3 T ?k) T = ?k" using chb setReach_reachOf by blast
      have none: "\<not> reach K t T" if "?k = no"
      proof
        assume "reach K t T"
        then have "reach K t a \<or> reach K t b" using KMap Tt by (auto elim: reach.cases)
        with that r3 ansa ansb show False by (simp add: answers_def)
      qed
      show ?thesis
      proof (rule answers_visited [OF iv3 ok3 unk Tt _ _ v])
        show "reachOf (setReach m3 T ?k) T = no \<Longrightarrow> \<not> reach K t T" using none r4 by simp
        assume "K T = KInterface \<or> (\<exists>y\<in>set (parts (K T)). via K t (insert T (visiting m)) y)"
        with KMap cha chb r3 have "?k = yes" by auto
        with r4 show "reachOf (setReach m3 T ?k) T = yes" by (rule trans)
      qed
    next
      case KInterface
      with unfolded have v: "visited T (setReach ?m1 T yes) = (k, m')" by simp
      have "reach K t T" using KInterface by (rule reach.iface)
      then have ok: "tabOk K t (setReach ?m1 T yes)" by (rule tabOk_setReach [OF ok1 iv1])
      show ?thesis
        by (rule answers_visited [OF inVisit_setReach [OF iv1] ok unk Tt _ _ v])
          (simp_all add: setReach_reachOf [OF iv1])
    next
      case KOther
      with unfolded have v: "visited T ?m1 = (k, m')" by simp
      show ?thesis
        by (rule answers_visited [OF iv1 ok1 unk Tt _ _ v]) (use KOther r1 in auto)
    qed (use unfolded one in auto)
  qed
qed

section \<open>Enough fuel\<close>

lemma keeps_visited: "inVisit m xt m2 \<Longrightarrow> \<not> known m xt \<Longrightarrow> visited xt m2 = (k, m') \<Longrightarrow> keeps m m'"
  unfolding keeps_def
proof
  fix T
  assume "inVisit m xt m2" "\<not> known m xt" "visited xt m2 = (k, m')"
  then show "fresher m m' T"
    by (cases "T = xt") (auto simp: visited_def inVisit_def fresher_def)
qed

lemma canReach_keeps:
  "canReach K t n xt m = Some (k, m') \<Longrightarrow> keeps m m'"
  "canReachFields K t n xt fs m2 = Some m3 \<Longrightarrow> inVisit m0 xt m2 \<Longrightarrow> inVisit m0 xt m3"
proof (induction K t n xt m and K t n xt fs m2 arbitrary: k m' and m0 m3
    rule: canReach_canReachFields.induct)
  case (1 K t n xt m)
  show ?case
  proof (cases "known m xt \<or> t = xt \<or> n = 0")
    case True
    with "1.prems" show ?thesis
      by (auto simp: canReach.simps [of K t n] keeps_refl keeps_def fresher_def newInfo_def split: if_splits)
  next
    case False
    then obtain n' where n: "n = Suc n'" and unk: "\<not> known m xt" "t \<noteq> xt" by (cases n) auto
    let ?m1 = "m(xt \<mapsto> newInfo\<lparr>tiVisiting := True\<rparr>)"
    have iv: "inVisit m xt ?m1" by (rule inVisit_start)
    note IH = "1.IH" [OF unk n refl]
    note unfolded = "1.prems" [unfolded n canReach.simps [of K t "Suc n'"] Let_def, simplified unk, simplified]
    have last: "keeps m m'" if "inVisit m xt m2" "visited xt m2 = (k, m')" for m2
      using keeps_visited [OF that(1) unk(1) that(2)] .
    have one: "keeps m m'" if "keeps ?m1 m3" "visited xt (setReach m3 xt r) = (k, m')" for m3 r
      using last [OF inVisit_setReach [OF inVisit_keeps [OF iv that(1)]] that(2)] .
    show ?thesis
    proof (cases "K xt")
      case (KPtr e)
      with unfolded obtain r m3 where "canReach K t n' e ?m1 = Some (r, m3)" "visited xt (setReach m3 xt r) = (k, m')"
        by auto
      with IH(1) [OF KPtr] one show ?thesis by blast
    next
      case (KStruct fs)
      with unfolded obtain m3 where "canReachFields K t n' xt fs ?m1 = Some m3" "visited xt m3 = (k, m')"
        by auto
      with IH(2) [OF KStruct _ iv] last show ?thesis by blast
    next
      case (KMap a b)
      with unfolded obtain r m2 r' m3 where a: "canReach K t n' a ?m1 = Some (r, m2)"
        and b: "canReach K t n' b (setReach m2 xt r) = Some (r', m3)"
        and v: "visited xt (setReach m3 xt (orK r' (reachOf m3 xt))) = (k, m')"
        by (auto split: bind_splits)
      have "keeps ?m1 m2" using IH(3) [OF KMap a] .
      then have "inVisit m xt (setReach m2 xt r)" using iv inVisit_keeps inVisit_setReach by blast
      moreover have "keeps (setReach m2 xt r) m3" using IH(4) [OF KMap a refl b] .
      ultimately show ?thesis using v last inVisit_keeps inVisit_setReach by blast
    next
      case (KArray e)
      with unfolded obtain r m3 where "canReach K t n' e ?m1 = Some (r, m3)" "visited xt (setReach m3 xt r) = (k, m')"
        by auto
      with IH(5) [OF KArray] one show ?thesis by blast
    next
      case (KSlice e)
      with unfolded obtain r m3 where "canReach K t n' e ?m1 = Some (r, m3)" "visited xt (setReach m3 xt r) = (k, m')"
        by auto
      with IH(6) [OF KSlice] one show ?thesis by blast
    next
      case KInterface
      with unfolded last [OF inVisit_setReach [OF iv]] show ?thesis by simp
    next
      case KOther
      with unfolded last [OF iv] show ?thesis by simp
    qed
  qed
next
  case (3 K t n xt f fs m)
  show ?case
  proof (cases "fst f")
    case True
    with "3.prems"(1) obtain r m1 where r: "canReach K t n (snd f) m = Some (r, m1)"
      and rest: "canReachFields K t n xt fs (setReach m1 xt (orK r (reachOf m1 xt))) = Some m3"
      by (auto split: bind_splits)
    from "3.IH"(1) [OF True r] "3.prems"(2) have "inVisit m0 xt (setReach m1 xt (orK r (reachOf m1 xt)))"
      using inVisit_keeps inVisit_setReach by blast
    with "3.IH"(2) [OF True r refl rest] show ?thesis by simp
  qed (use 3 in simp)
qed simp

text \<open>Fuel for every type that is not yet visited, or for the height of the type, is enough.\<close>

lemma visiting_setReach [simp]: "visiting (setReach m xt k) = visiting m"
  by (auto simp: visiting_def setReach_def)

lemma canReach_visiting: "canReach K t n xt m = Some (k, m') \<Longrightarrow> visiting m' = visiting m"
  by (rule keeps_visiting [OF canReach_keeps(1)])

lemma canReachFields_total:
  assumes "\<And>y m. y \<in> snd ` set (filter fst fs) \<Longrightarrow> visiting m = V \<Longrightarrow> canReach K t n y m \<noteq> None"
    and "visiting m = V"
  shows "canReachFields K t n xt fs m \<noteq> None"
  using assms
proof (induction fs arbitrary: m)
  case (Cons f fs)
  show ?case
  proof (cases "fst f")
    case True
    with Cons.prems obtain r m1 where r: "canReach K t n (snd f) m = Some (r, m1)" by force
    with Cons.prems(2) have "visiting (setReach m1 xt (orK r (reachOf m1 xt))) = V"
      using canReach_visiting by simp
    with r True Cons show ?thesis by simp
  qed (use Cons in simp)
qed simp

lemma canReach_step_total:
  assumes "\<not> known m xt" and "t \<noteq> xt"
    and call: "\<And>y m2. y \<in> set (parts (K xt)) \<Longrightarrow> visiting m2 = insert xt (visiting m) \<Longrightarrow> canReach K t n y m2 \<noteq> None"
  shows "canReach K t (Suc n) xt m \<noteq> None"
proof -
  let ?m1 = "m(xt \<mapsto> newInfo\<lparr>tiVisiting := True\<rparr>)"
  have v: "visiting ?m1 = insert xt (visiting m)"
    using inVisit_visiting [OF inVisit_start assms(1)] .
  have one: "canReach K t n y ?m1 \<noteq> None" if "y \<in> set (parts (K xt))" for y
    using call that v by blast
  have two: "canReach K t n z (setReach m2 xt r) \<noteq> None"
    if "z \<in> set (parts (K xt))" "canReach K t n y ?m1 = Some (r, m2)" for y z r m2
    using call that(1) v canReach_visiting [OF that(2)] by simp
  have fields: "canReachFields K t n xt fs ?m1 \<noteq> None" if "K xt = KStruct fs" for fs
    by (rule canReachFields_total [OF call v]) (use that in auto)
  show ?thesis
  proof (cases "K xt")
    case (KStruct fs)
    with fields [OF KStruct] show ?thesis by (simp add: canReach.simps [of K t "Suc n"] assms(1,2) Let_def)
  next
    case (KMap a b)
    then have ab: "a \<in> set (parts (K xt))" "b \<in> set (parts (K xt))" by simp_all
    from one [OF ab(1)] obtain r m2 where a: "canReach K t n a ?m1 = Some (r, m2)" by auto
    from two [OF ab(2) a] KMap a show ?thesis
      by (simp add: canReach.simps [of K t "Suc n"] assms(1,2) Let_def)
  qed (use one in \<open>simp_all add: canReach.simps [of K t "Suc n"] assms(1,2) Let_def\<close>)
qed

lemma canReach_total:
  assumes "finite U" and closed: "\<And>x. x \<in> U \<Longrightarrow> set (parts (K x)) \<subseteq> U"
  shows "xt \<in> U \<Longrightarrow> card (U - visiting m) \<le> n \<Longrightarrow> canReach K t n xt m \<noteq> None"
proof (induction n arbitrary: xt m)
  case 0
  with assms(1) have "xt \<in> visiting m" by auto
  then have "known m xt" by (rule visiting_known)
  then show ?case by (simp add: canReach.simps)
next
  case (Suc n)
  show ?case
  proof (cases "known m xt \<or> t = xt")
    case False
    show ?thesis
    proof (rule canReach_step_total)
      fix y m2
      assume y: "y \<in> set (parts (K xt))" and v: "visiting m2 = insert xt (visiting m)"
      from False have "xt \<notin> visiting m" using visiting_known by blast
      with Suc.prems(1) have "U - visiting m2 \<subset> U - visiting m" by (auto simp: v)
      with assms(1) have "card (U - visiting m2) < card (U - visiting m)" by (simp add: psubset_card_mono)
      with Suc.prems(2) have "card (U - visiting m2) \<le> n" by linarith
      moreover have "y \<in> U" using closed [OF Suc.prems(1)] y by blast
      ultimately show "canReach K t n y m2 \<noteq> None" using Suc.IH by blast
    qed (use False in auto)
  qed (auto simp: canReach.simps)
qed

lemma canReach_ranked:
  assumes "\<And>x y. y \<in> set (parts (K x)) \<Longrightarrow> rk y < rk x"
  shows "rk xt < n \<Longrightarrow> canReach K t n xt m \<noteq> None"
proof (induction n arbitrary: xt m)
  case (Suc n)
  show ?case
  proof (cases "known m xt \<or> t = xt")
    case False
    have "canReach K t n y m2 \<noteq> None" if "y \<in> set (parts (K xt))" for y m2
      using Suc.IH [of y m2] Suc.prems assms [OF that] by simp
    with False show ?thesis by (intro canReach_step_total) auto
  qed (auto simp: canReach.simps)
qed simp

text \<open>
  C25. \<^verbatim>\<open>canReach\<close> answers \<^verbatim>\<open>yes\<close> exactly for the types through whose exported fields, elements and
  keys a value of the type \<open>t\<close> (or an interface) can be reached, for recursive types too, and
  whatever earlier questions have left in the table; it leaves a table that is as good. The
  condition is that no map type is contained in its own elements. Fuel for every type is
  enough.
\<close>
theorem canReach_correct:
  assumes "mapsOff K" and "finite U" and "T \<in> U" and "\<And>x. x \<in> U \<Longrightarrow> set (parts (K x)) \<subseteq> U"
    and "card U \<le> n" and "tabOk K t m" and "visiting m = {}"
  shows "\<exists>k m'. canReach K t n T m = Some (k, m') \<and> (k = yes \<longleftrightarrow> reach K t T) \<and>
    tabOk K t m' \<and> visiting m' = {} \<and> (\<forall>x. known m x \<longrightarrow> m' x = m x)"
proof -
  have "canReach K t n T m \<noteq> None"
    by (rule canReach_total [OF assms(2,4,3)]) (use assms(5,7) in simp_all)
  then obtain k m' where c: "canReach K t n T m = Some (k, m')" by auto
  have "enters K m T" using assms(7) by (simp add: enters_def)
  from canReach_answers [OF assms(1,6) this c] have a: "answers K t m T k m'" .
  then have "(k = yes) = reach K t T" "tabOk K t m'" and kp: "keeps m m'"
    unfolding answers_def assms(7) via_empty by blast+
  moreover have "\<forall>x. known m x \<longrightarrow> m' x = m x" using keeps_known [OF kp] by simp
  ultimately show ?thesis
    using c keeps_visiting [OF kp] assms(7) by simp
qed

text \<open>A list of itself with a value, as in Go \<^verbatim>\<open>type node struct { next *node; val *T }\<close>.\<close>

definition nodeTypes :: tenv where
  "nodeTypes T =
     (if T = ''node'' then KStruct [(True, ''*node''), (True, ''*T'')]
      else if T = ''*node'' then KPtr ''node''
      else if T = ''*T'' then KPtr ''T''
      else KOther)"

lemma canReach_correct_witness:
  "\<exists>k m'. canReach nodeTypes ''*T'' 4 ''*node'' Map.empty = Some (k, m') \<and>
     (k = yes \<longleftrightarrow> reach nodeTypes ''*T'' ''*node'') \<and> tabOk nodeTypes ''*T'' m' \<and> visiting m' = {}"
proof -
  have "\<exists>k m'. canReach nodeTypes ''*T'' 4 ''*node'' Map.empty = Some (k, m') \<and>
     (k = yes \<longleftrightarrow> reach nodeTypes ''*T'' ''*node'') \<and> tabOk nodeTypes ''*T'' m' \<and> visiting m' = {} \<and>
     (\<forall>x. known Map.empty x \<longrightarrow> m' x = Map.empty x)"
  proof (rule canReach_correct [where U = "{''node'', ''*node'', ''*T'', ''T''}"])
    show "mapsOff nodeTypes" by (simp add: mapsOff_def nodeTypes_def)
    show "card {''node'', ''*node'', ''*T'', ''T''} \<le> 4" by simp
  qed (auto simp: nodeTypes_def tabOk_def visiting_def split: if_splits)
  then show ?thesis by blast
qed

end
