(* ===== verification/TypeApplyDo.thy ===== *)
theory TypeApplyDo
  imports TypeApplyProps
begin

text \<open>
  What \<^verbatim>\<open>Do\<close> calls its function on. For types that are not recursive, the traversers in the
  table are the right ones, and running one calls the function on every occurrence of the
  type, in order; the only thing that can go wrong is an occurrence behind an unexported
  field. For recursive types two ways are shown in which it does go wrong.
\<close>

section \<open>Values and occurrences\<close>

function (sequential) typed :: "tenv \<Rightarrow> goty \<Rightarrow> gval \<Rightarrow> bool"
  and typedFields :: "tenv \<Rightarrow> (bool \<times> goty) list \<Rightarrow> gval list \<Rightarrow> bool"
  and typedElems :: "tenv \<Rightarrow> goty \<Rightarrow> gval list \<Rightarrow> bool"
  and typedPairs :: "tenv \<Rightarrow> goty \<Rightarrow> goty \<Rightarrow> (gval \<times> gval) list \<Rightarrow> bool"
  where
  "typed K T (VPtr None) = (case K T of KPtr e \<Rightarrow> True | _ \<Rightarrow> False)"
| "typed K T (VPtr (Some w)) = (case K T of KPtr e \<Rightarrow> typed K e w | _ \<Rightarrow> False)"
| "typed K T (VStruct ws) = (case K T of KStruct fs \<Rightarrow> typedFields K fs ws | _ \<Rightarrow> False)"
| "typed K T (VMap ps) = (case K T of KMap a b \<Rightarrow> typedPairs K a b ps | _ \<Rightarrow> False)"
| "typed K T (VSeq ws) =
     (case K T of KArray e \<Rightarrow> typedElems K e ws | KSlice e \<Rightarrow> typedElems K e ws | _ \<Rightarrow> False)"
| "typed K T (VIface None) = (K T = KInterface)"
| "typed K T (VIface (Some (D, w))) = (K T = KInterface \<and> typed K D w)"
| "typed K T (VString _) = (K T = KOther)"
| "typed K T (VInt _) = (K T = KOther)"
| "typed K T (VBool _) = (K T = KOther)"
| "typedFields K [] [] = True"
| "typedFields K (f # fs) (w # ws) = (typed K (snd f) w \<and> typedFields K fs ws)"
| "typedFields K _ _ = False"
| "typedElems K e [] = True"
| "typedElems K e (w # ws) = (typed K e w \<and> typedElems K e ws)"
| "typedPairs K a b [] = True"
| "typedPairs K a b ((x, y) # ps) = (typed K a x \<and> typed K b y \<and> typedPairs K a b ps)"
  by pat_completeness auto
termination
  by (relation "measure (\<lambda>x. case x of
           Inl (Inl (K, T, v)) \<Rightarrow> size v
         | Inl (Inr (K, fs, ws)) \<Rightarrow> size_list size ws
         | Inr (Inl (K, e, ws)) \<Rightarrow> size_list size ws
         | Inr (Inr (K, a, b, ps)) \<Rightarrow> size_list (size_prod size size) ps)")
    auto

text \<open>
  The occurrences of the type \<open>t\<close> in a value, in order, each with whether it is behind an
  unexported field. \<open>R\<close> says which types have any; the others are not entered.
\<close>

function (sequential) occ :: "tenv \<Rightarrow> goty \<Rightarrow> (goty \<Rightarrow> bool) \<Rightarrow> bool \<Rightarrow> goty \<Rightarrow> gval \<Rightarrow> (bool \<times> gval) list"
  and occFields :: "tenv \<Rightarrow> goty \<Rightarrow> (goty \<Rightarrow> bool) \<Rightarrow> bool \<Rightarrow> (bool \<times> goty) list \<Rightarrow> gval list \<Rightarrow> (bool \<times> gval) list"
  and occElems :: "tenv \<Rightarrow> goty \<Rightarrow> (goty \<Rightarrow> bool) \<Rightarrow> bool \<Rightarrow> goty \<Rightarrow> gval list \<Rightarrow> (bool \<times> gval) list"
  and occPairs :: "tenv \<Rightarrow> goty \<Rightarrow> (goty \<Rightarrow> bool) \<Rightarrow> bool \<Rightarrow> goty \<Rightarrow> goty \<Rightarrow> (gval \<times> gval) list \<Rightarrow> (bool \<times> gval) list"
  and occIn :: "tenv \<Rightarrow> goty \<Rightarrow> (goty \<Rightarrow> bool) \<Rightarrow> bool \<Rightarrow> goty \<Rightarrow> gval \<Rightarrow> (bool \<times> gval) list"
  where
  "occ K t R ro T v = (if \<not> R T then [] else if T = t then [(ro, v)] else occIn K t R ro T v)"
| "occIn K t R ro T (VPtr (Some w)) = (case K T of KPtr e \<Rightarrow> occ K t R ro e w | _ \<Rightarrow> [])"
| "occIn K t R ro T (VStruct ws) = (case K T of KStruct fs \<Rightarrow> occFields K t R ro fs ws | _ \<Rightarrow> [])"
| "occIn K t R ro T (VMap ps) = (case K T of KMap a b \<Rightarrow> occPairs K t R ro a b ps | _ \<Rightarrow> [])"
| "occIn K t R ro T (VSeq ws) =
     (case K T of KArray e \<Rightarrow> occElems K t R ro e ws | KSlice e \<Rightarrow> occElems K t R ro e ws | _ \<Rightarrow> [])"
| "occIn K t R ro T (VIface (Some (D, w))) = occ K t R ro D w"
| "occIn K t R ro T v = []"
| "occFields K t R ro (f # fs) (w # ws) =
     occ K t R (ro \<or> \<not> fst f) (snd f) w @ occFields K t R ro fs ws"
| "occFields K t R ro _ _ = []"
| "occElems K t R ro e [] = []"
| "occElems K t R ro e (w # ws) = occ K t R ro e w @ occElems K t R ro e ws"
| "occPairs K t R ro a b [] = []"
| "occPairs K t R ro a b ((x, y) # ps) = occ K t R ro a x @ occ K t R ro b y @ occPairs K t R ro a b ps"
  by pat_completeness auto
termination
  by (relation "measure (\<lambda>x. case x of
           Inl (Inl (K, t, R, ro, T, v)) \<Rightarrow> 2 * size v + 1
         | Inl (Inr (K, t, R, ro, fs, ws)) \<Rightarrow> 2 * size_list size ws + 1
         | Inr (Inl (K, t, R, ro, e, ws)) \<Rightarrow> 2 * size_list size ws + 1
         | Inr (Inr (Inl (K, t, R, ro, a, b, ps))) \<Rightarrow> 2 * size_list (size_prod size size) ps + 1
         | Inr (Inr (Inr (K, t, R, ro, T, v))) \<Rightarrow> 2 * size v)")
    auto

declare occ.simps [simp del]

lemma occ_typed:
  "typed K T v \<Longrightarrow> x \<in> set (occ K t R ro T v) \<Longrightarrow> typed K t (snd x)"
  "typedFields K fs ws \<Longrightarrow> x \<in> set (occFields K t R ro fs ws) \<Longrightarrow> typed K t (snd x)"
  "typedElems K e ws \<Longrightarrow> x \<in> set (occElems K t R ro e ws) \<Longrightarrow> typed K t (snd x)"
  "typedPairs K a b ps \<Longrightarrow> x \<in> set (occPairs K t R ro a b ps) \<Longrightarrow> typed K t (snd x)"
  "typed K T v \<Longrightarrow> x \<in> set (occIn K t R ro T v) \<Longrightarrow> typed K t (snd x)"
proof (induction K t R ro T v and K t R ro fs ws and K t R ro e ws and K t R ro a b ps and K t R ro T v
    rule: occ_occFields_occElems_occPairs_occIn.induct)
  case (1 K t R ro T v)
  then show ?case by (auto simp: occ.simps [of K t R ro T] split: if_splits)
qed (auto split: gkind.splits)

text \<open>The calls that are made: all of them, or those before the first that is not allowed.\<close>

definition outcome :: "(bool \<times> gval) list \<Rightarrow> gopanic + unit" where
  "outcome os = (if \<exists>x\<in>set os. fst x then Inl UnexportedUse else Inr ())"

definition calls :: "(bool \<times> gval) list \<Rightarrow> gval list" where
  "calls os = map snd (takeWhile (\<lambda>x. \<not> fst x) os)"

lemma outcome_append: "outcome (xs @ ys) = (if outcome xs = Inr () then outcome ys else outcome xs)"
  by (auto simp: outcome_def)

lemma calls_append: "calls (xs @ ys) = calls xs @ (if outcome xs = Inr () then calls ys else [])"
  by (induction xs) (auto simp: calls_def outcome_def)

section \<open>Types that are not recursive\<close>

fun allParts :: "gkind \<Rightarrow> goty list" where
  "allParts (KStruct fs) = map snd fs"
| "allParts k = parts k"

definition layered :: "tenv \<Rightarrow> (goty \<Rightarrow> nat) \<Rightarrow> bool" where
  "layered K rk \<longleftrightarrow> (\<forall>x. \<forall>y\<in>set (allParts (K x)). rk y < rk x)"

lemma parts_allParts: "set (parts k) \<subseteq> set (allParts k)"
  by (cases k) auto

lemma layeredD: "layered K rk \<Longrightarrow> y \<in> set (allParts (K x)) \<Longrightarrow> rk y < rk x"
  by (simp add: layered_def)

lemma layered_parts: "layered K rk \<Longrightarrow> y \<in> set (parts (K x)) \<Longrightarrow> rk y < rk x"
  using layeredD parts_allParts by blast

lemma layered_mapsOff:
  assumes "layered K rk" shows "mapsOff K"
proof -
  have le: "(x, y) \<in> (edge K)\<^sup>* \<Longrightarrow> rk y \<le> rk x" for x y
  proof (induction rule: rtrancl_induct)
    case (step y z)
    then have "rk z < rk y" using layered_parts [OF assms] by simp
    with step show ?case by simp
  qed simp
  have "(b, T) \<notin> (edge K)\<^sup>*" if "K T = KMap a b" for T a b
    using le [of b T] layered_parts [OF assms, of b T] that by auto
  then show ?thesis by (simp add: mapsOff_def)
qed

section \<open>The traversers in the table\<close>

fun fieldsOf :: "tenv \<Rightarrow> goty \<Rightarrow> nat \<Rightarrow> (bool \<times> goty) list \<Rightarrow> (nat \<times> goty) list" where
  "fieldsOf K t i [] = []"
| "fieldsOf K t i (f # fs) =
     (if reach K t (snd f) then (i, snd f) # fieldsOf K t (Suc i) fs else fieldsOf K t (Suc i) fs)"

fun good :: "tenv \<Rightarrow> goty \<Rightarrow> (goty \<Rightarrow> bool) \<Rightarrow> goty \<Rightarrow> traverser \<Rightarrow> bool" where
  "good K t bt T Dummy = False"
| "good K t bt T Call = (T = t)"
| "good K t bt T (OnPtr f) =
     (T \<noteq> t \<and> (\<exists>e. K T = KPtr e \<and> (case f of None \<Rightarrow> False | Some f' \<Rightarrow> good K t bt e f')))"
| "good K t bt T (OnStruct is) =
     (T \<noteq> t \<and> (\<exists>fs. K T = KStruct fs \<and> is = fieldsOf K t 0 fs \<and> (\<forall>x\<in>set is. bt (snd x))))"
| "good K t bt T (OnMap f g) =
     (T \<noteq> t \<and> (\<exists>a b. K T = KMap a b \<and>
        (case f of None \<Rightarrow> \<not> reach K t a | Some f' \<Rightarrow> reach K t a \<and> good K t bt a f') \<and>
        (case g of None \<Rightarrow> \<not> reach K t b | Some g' \<Rightarrow> reach K t b \<and> good K t bt b g')))"
| "good K t bt T (OnSeq f) =
     (T \<noteq> t \<and> (\<exists>e. (K T = KArray e \<or> K T = KSlice e) \<and> (case f of None \<Rightarrow> False | Some f' \<Rightarrow> good K t bt e f')))"
| "good K t bt T OnIface = (T \<noteq> t \<and> K T = KInterface)"

lemma good_mono: "good K t bt T tr \<Longrightarrow> (\<And>x. bt x \<Longrightarrow> bt' x) \<Longrightarrow> good K t bt' T tr"
proof (induction tr arbitrary: T)
  case (OnPtr f)
  then obtain e f' where "T \<noteq> t" "K T = KPtr e" "f = Some f'" "good K t bt e f'"
    by (auto split: option.splits)
  with OnPtr.IH [of f' e] OnPtr.prems(2) show ?case by simp
next
  case (OnMap f g)
  then obtain a b where "T \<noteq> t" "K T = KMap a b"
    and f: "case f of None \<Rightarrow> \<not> reach K t a | Some f' \<Rightarrow> reach K t a \<and> good K t bt a f'"
    and g: "case g of None \<Rightarrow> \<not> reach K t b | Some f' \<Rightarrow> reach K t b \<and> good K t bt b f'"
    by auto
  moreover have "case f of None \<Rightarrow> \<not> reach K t a | Some f' \<Rightarrow> reach K t a \<and> good K t bt' a f'"
    using f OnMap.IH(1) OnMap.prems(2) by (auto split: option.splits)
  moreover have "case g of None \<Rightarrow> \<not> reach K t b | Some f' \<Rightarrow> reach K t b \<and> good K t bt' b f'"
    using g OnMap.IH(2) OnMap.prems(2) by (auto split: option.splits)
  ultimately show ?case by simp
next
  case (OnSeq f)
  then obtain e f' where "T \<noteq> t" "K T = KArray e \<or> K T = KSlice e" "f = Some f'" "good K t bt e f'"
    by (auto split: option.splits)
  with OnSeq.IH [of f' e] OnSeq.prems(2) show ?case by auto
qed auto

text \<open>\<open>B\<close> are the types whose traversers are being built.\<close>

definition built :: "table \<Rightarrow> goty set \<Rightarrow> goty \<Rightarrow> bool" where
  "built m B x \<longleftrightarrow> x \<notin> B \<and> travOf m x \<noteq> None"

definition trOk :: "tenv \<Rightarrow> goty \<Rightarrow> goty set \<Rightarrow> table \<Rightarrow> bool" where
  "trOk K t B m \<longleftrightarrow> tabOk K t m \<and> visiting m = {} \<and>
     (\<forall>T tr. travOf m T = Some tr \<longrightarrow> reachOf m T = yes \<and> (T \<in> B \<or> good K t (built m B) T tr))"

definition grows :: "table \<Rightarrow> table \<Rightarrow> bool" where
  "grows m m' \<longleftrightarrow> (\<forall>x. travOf m x \<noteq> None \<longrightarrow> m' x = m x)"

lemma grows_refl: "grows m m" by (simp add: grows_def)

lemma grows_trav: "grows m m' \<Longrightarrow> travOf m x = Some tr \<Longrightarrow> travOf m' x = Some tr"
  by (simp add: grows_def travOf_def)

lemma grows_trans: "grows m m' \<Longrightarrow> grows m' m'' \<Longrightarrow> grows m m''"
  by (simp add: grows_def travOf_def)

lemma grows_built: "grows m m' \<Longrightarrow> built m B x \<Longrightarrow> built m' B x"
  using grows_trav by (fastforce simp: built_def)

lemma trOkD:
  "trOk K t B m \<Longrightarrow> travOf m T = Some tr \<Longrightarrow> reachOf m T = yes \<and> (T \<in> B \<or> good K t (built m B) T tr)"
  unfolding trOk_def by blast

lemma trOk_empty: "trOk K t {} Map.empty"
  by (simp add: trOk_def tabOk_def visiting_def travOf_def)

lemma travOf_setTrav: "m xt \<noteq> None \<Longrightarrow> travOf (setTrav m xt tr) x = (if x = xt then Some tr else travOf m x)"
  by (auto simp: travOf_def setTrav_def)

lemma reachOf_setTrav [simp]: "reachOf (setTrav m xt tr) x = reachOf m x"
  by (auto simp: reachOf_def setTrav_def split: option.splits)

lemma visiting_setTrav [simp]: "visiting (setTrav m xt tr) = visiting m"
  by (auto simp: visiting_def setTrav_def)

lemma tabOk_setTrav [simp]: "tabOk K t m \<Longrightarrow> tabOk K t (setTrav m xt tr)"
  by (cases "m xt") (auto simp: tabOk_def setTrav_def)

lemma travOf_Some: "travOf m x = Some tr \<Longrightarrow> m x \<noteq> None"
  by (auto simp: travOf_def split: option.splits)

text \<open>Asking \<^verbatim>\<open>canReach\<close> leaves the traversers as they are.\<close>

lemma canReach_trOk:
  assumes "mapsOff K" and tr: "trOk K t B m" and c: "canReach K t n T m = Some (k, m')"
  shows "trOk K t B m' \<and> grows m m' \<and> travOf m' = travOf m \<and> m' T \<noteq> None \<and> reachOf m' T = k \<and>
    (k = yes \<longleftrightarrow> reach K t T)"
proof -
  have v: "visiting m = {}" and ok: "tabOk K t m" using tr by (simp_all add: trOk_def)
  have "enters K m T" using v by (simp add: enters_def)
  from canReach_answers [OF assms(1) ok this c] have a: "answers K t m T k m'" .
  then have ok': "tabOk K t m'" and kp: "keeps m m'" and k: "(k = yes) = reach K t T"
    and i: "\<exists>i. m' T = Some i \<and> tiReach i = k"
    unfolding answers_def v via_empty by blast+
  have kn: "known m x" if "travOf m x = Some tr" for x tr
    using that tr by (auto simp: trOk_def known_def travOf_def reachOf_def split: option.splits)
  have gr: "grows m m'" using kn keeps_known [OF kp] by (force simp: grows_def)
  have eq: "travOf m' x = travOf m x" for x
  proof (cases "m' x = m x")
    case False
    with kp have "\<not> known m x" "\<exists>i. m' x = Some i \<and> tiTrav i = None"
      by (auto simp: keeps_def fresher_def)
    with kn [of x] show ?thesis by (cases "travOf m x") (auto simp: travOf_def)
  qed (simp add: travOf_def)
  then have teq: "travOf m' = travOf m" by (rule ext)
  have req: "reachOf m' x = reachOf m x" if "travOf m x = Some tr" for x tr
    using gr that by (simp add: grows_def reachOf_def)
  have "trOk K t B m'"
    unfolding trOk_def
  proof (intro conjI allI impI)
    fix x tr' assume "travOf m' x = Some tr'"
    with tr req [of x] have "reachOf m' x = yes" "x \<in> B \<or> good K t (built m B) x tr'"
      by (auto simp: trOk_def teq)
    moreover have "built m' B = built m B" by (rule ext) (simp add: built_def teq)
    ultimately show "reachOf m' x = yes" "x \<in> B \<or> good K t (built m' B) x tr'" by simp_all
  qed (use ok' keeps_visiting [OF kp] v in simp_all)
  with gr teq k i show ?thesis by (auto simp: reachOf_def)
qed

text \<open>The result of \<^verbatim>\<open>getTraverserFunc\<close>.\<close>

definition gives ::
  "tenv \<Rightarrow> goty \<Rightarrow> goty set \<Rightarrow> table \<Rightarrow> goty \<Rightarrow> ((gopanic + traverser option) \<times> table) option \<Rightarrow> bool" where
  "gives K t B m T res \<longleftrightarrow> (\<exists>f m'. res = Some (Inr f, m') \<and> trOk K t B m' \<and> grows m m' \<and> travOf m' T = f \<and>
     (case f of None \<Rightarrow> \<not> reach K t T | Some tr \<Rightarrow> reach K t T \<and> good K t (built m' B) T tr))"

text \<open>A traverser is put in the table in place of the dummy.\<close>

lemma gives_setAs:
  assumes m2: "trOk K t (insert T B) m2" and some: "m2 T \<noteq> None" "reachOf m2 T = yes" and "T \<notin> B"
    and gr: "\<And>x. travOf m x \<noteq> None \<Longrightarrow> x \<noteq> T \<and> m2 x = m x"
    and g: "good K t (built m2 (insert T B)) T tr" and "reach K t T"
  shows "gives K t B m T (setAs T tr m2)"
proof -
  let ?m = "setTrav m2 T tr"
  have tv: "travOf ?m x = (if x = T then Some tr else travOf m2 x)" for x
    using some(1) by (rule travOf_setTrav)
  have mono: "built m2 (insert T B) x \<Longrightarrow> built ?m B x" for x
    by (simp add: built_def tv)
  have "trOk K t B ?m"
    unfolding trOk_def
  proof (intro conjI allI impI)
    fix x tr' assume x: "travOf ?m x = Some tr'"
    show "reachOf ?m x = yes" using x m2 some by (auto simp: tv trOk_def split: if_splits)
    show "x \<in> B \<or> good K t (built ?m B) x tr'"
    proof (cases "x = T")
      case True
      with x tv g mono show ?thesis using good_mono [OF g] by simp
    next
      case False
      with x tv m2 have "x \<in> B \<or> good K t (built m2 (insert T B)) x tr'" by (auto simp: trOk_def)
      with mono good_mono show ?thesis by blast
    qed
  qed (use m2 in \<open>simp_all add: trOk_def\<close>)
  moreover have "grows m ?m" using gr by (force simp: grows_def setTrav_def)
  moreover have "good K t (built ?m B) T tr" using good_mono [OF g] mono by blast
  ultimately show ?thesis using assms(7) by (simp add: gives_def setAs_def tv)
qed

lemma trOk_insert:
  assumes "trOk K t B m" and "travOf m T = None" shows "trOk K t (insert T B) m"
proof -
  have "built m (insert T B) = built m B" by (rule ext) (use assms(2) in \<open>auto simp: built_def\<close>)
  with assms(1) show ?thesis by (auto simp: trOk_def)
qed

lemma trOk_never:
  assumes "trOk K t B m" and "travOf m T = None" and "\<not> reach K t T"
  shows "trOk K t B (setReach m T no) \<and> travOf (setReach m T no) = travOf m"
proof -
  have tv: "travOf (setReach m T no) = travOf m"
    by (rule ext) (auto simp: travOf_def setReach_def split: option.splits)
  have "reachOf (setReach m T no) x = reachOf m x" if "travOf m x = Some tr" for x tr
    using that assms(2) by (auto simp: reachOf_def setReach_def)
  moreover have "tabOk K t (setReach m T no)"
    using assms(1,3) by (cases "m T") (auto simp: trOk_def tabOk_def setReach_def)
  moreover have "built (setReach m T no) B = built m B" by (rule ext) (simp add: built_def tv)
  ultimately show ?thesis using assms(1) by (auto simp: trOk_def tv)
qed

lemma trOk_dummy:
  assumes "trOk K t B m" and "m T \<noteq> None" and "travOf m T = None" and "reachOf m T = yes"
  shows "trOk K t (insert T B) (setTrav m T Dummy)"
  unfolding trOk_def
proof (intro conjI allI impI)
  let ?m = "setTrav m T Dummy"
  have tv: "travOf ?m x = (if x = T then Some Dummy else travOf m x)" for x
    using assms(2) by (rule travOf_setTrav)
  fix x tr assume x: "travOf ?m x = Some tr"
  show "reachOf ?m x = yes" using x assms(1,4) by (auto simp: tv trOk_def split: if_splits)
  have "built m B y \<Longrightarrow> built ?m (insert T B) y" for y
    using assms(3) by (auto simp: built_def tv)
  note mono = this
  show "x \<in> insert T B \<or> good K t (built ?m (insert T B)) x tr"
  proof (cases "x \<in> insert T B")
    case False
    with x have "travOf m x = Some tr" by (simp add: tv)
    from trOkD [OF assms(1) this] False have "good K t (built m B) x tr" by simp
    then show ?thesis using mono good_mono by blast
  qed simp
qed (use assms(1) in \<open>simp_all add: trOk_def\<close>)

lemma fieldsOf_all: "x \<in> set (fieldsOf K t i fs) \<Longrightarrow> reach K t (snd x) \<and> snd x \<in> snd ` set fs"
  by (induction fs arbitrary: i) (auto split: if_splits)

lemma getFields_gives:
  assumes call: "\<And>y m. y \<in> snd ` set fs \<Longrightarrow> trOk K t B m \<Longrightarrow>
      gives K t B m y (getTraverserFunc K t n y m)"
    and "trOk K t B m" and fresh: "snd ` set fs \<inter> B = {}"
  shows "\<exists>m'. getFields K t n i fs m = Some (Inr (fieldsOf K t i fs), m') \<and> trOk K t B m' \<and> grows m m' \<and>
    (\<forall>x\<in>set (fieldsOf K t i fs). built m' B (snd x))"
  using assms
proof (induction fs arbitrary: i m)
  case Nil
  then show ?case by (simp add: grows_refl)
next
  case (Cons f fs)
  have "gives K t B m (snd f) (getTraverserFunc K t n (snd f) m)"
    using Cons.prems(1) [of "snd f" m] Cons.prems(2) by simp
  then obtain g m1 where g: "getTraverserFunc K t n (snd f) m = Some (Inr g, m1)" "trOk K t B m1"
    "grows m m1" "travOf m1 (snd f) = g" "g = None \<longleftrightarrow> \<not> reach K t (snd f)"
    by (auto simp: gives_def split: option.splits)
  from Cons.IH [of m1 "Suc i"] Cons.prems g(2) obtain m2 where
    m2: "getFields K t n (Suc i) fs m1 = Some (Inr (fieldsOf K t (Suc i) fs), m2)" "trOk K t B m2"
    "grows m1 m2" "\<forall>x\<in>set (fieldsOf K t (Suc i) fs). built m2 B (snd x)"
    by auto
  have "built m2 B (snd f)" if "reach K t (snd f)"
    using that g(4,5) m2(3) grows_trav [OF m2(3)] Cons.prems(3) by (fastforce simp: built_def)
  with g m2 grows_trans [OF g(3) m2(3)] show ?case by auto
qed

lemma reach_parts: "reach K t T \<Longrightarrow> T \<noteq> t \<Longrightarrow> K T \<noteq> KInterface \<Longrightarrow> \<exists>y\<in>set (parts (K T)). reach K t y"
  by (auto elim: reach.cases)

lemma getTraverserFunc_gives:
  assumes lay: "layered K rk"
  shows "rk T < n \<Longrightarrow> trOk K t B m \<Longrightarrow> (\<And>b. b \<in> B \<Longrightarrow> rk T < rk b) \<Longrightarrow>
    gives K t B m T (getTraverserFunc K t n T m)"
proof (induction n arbitrary: T B m)
  case (Suc n)
  have TB: "T \<notin> B" using Suc.prems(3) by auto
  have "canReach K t (Suc n) T m \<noteq> None"
    by (rule canReach_ranked [where rk = rk]) (use layered_parts [OF lay] Suc.prems(1) in auto)
  then obtain need m1 where c: "canReach K t (Suc n) T m = Some (need, m1)" by auto
  from canReach_trOk [OF layered_mapsOff [OF lay] Suc.prems(2) c]
  have tr1: "trOk K t B m1" and gr1: "grows m m1" and some: "m1 T \<noteq> None" and need: "reachOf m1 T = need"
    and teq: "travOf m1 = travOf m" and yes: "(need = yes) = reach K t T" by blast+
  note unfolded = getTraverserFunc.simps [of K t "Suc n" T m, unfolded c Let_def, simplified]
  show ?case
  proof (cases "travOf m1 T")
    case (Some tr)
    with trOkD [OF tr1 Some] TB need yes have "reach K t T \<and> good K t (built m1 B) T tr" by simp
    with Some tr1 gr1 show ?thesis by (simp add: unfolded gives_def)
  next
    case None
    note nt = this
    show ?thesis
    proof (cases "need = yes")
      case False
      then have nr: "\<not> reach K t T" using yes by simp
      note never = trOk_never [OF tr1 nt nr]
      have "grows m (setReach m1 T no)"
        using gr1 nt teq by (auto simp: grows_def setReach_def)
      with never nt nr False tr1 gr1 show ?thesis by (cases need) (simp_all add: unfolded gives_def)
    next
      case True
      then have r: "reach K t T" using yes by simp
      have old: "x \<noteq> T \<and> m1 x = m x" if "travOf m x \<noteq> None" for x
        using that gr1 nt teq by (auto simp: grows_def)
      show ?thesis
      proof (cases "T = t")
        case Tt: True
        have "gives K t B m T (setAs T Call m1)"
          by (rule gives_setAs [OF trOk_insert [OF tr1 nt] some _ TB old _ r]) (use need True Tt in simp_all)
        with nt True Tt show ?thesis unfolding unfolded by simp
      next
        case Tt: False
        let ?B = "insert T B" and ?m2 = "setTrav m1 T Dummy"
        have tr2: "trOk K t ?B ?m2" using trOk_dummy [OF tr1 some nt] need True by simp
        have call: "gives K t ?B m3 y (getTraverserFunc K t n y m3)"
          if "y \<in> set (allParts (K T))" "trOk K t ?B m3" for y m3
        proof (rule Suc.IH [OF _ that(2)])
          have "rk y < rk T" using layeredD [OF lay that(1)] .
          then show "rk y < n" "b \<in> ?B \<Longrightarrow> rk y < rk b" for b using Suc.prems(1,3) by fastforce+
        qed
        have fin: "gives K t B m T (setAs T tr m3)"
          if "trOk K t ?B m3" "grows ?m2 m3" "good K t (built m3 ?B) T tr" for tr m3
        proof (rule gives_setAs [OF that(1) _ _ TB _ that(3) r])
          have "travOf ?m2 T \<noteq> None" using some by (simp add: travOf_setTrav)
          with that(2) have "m3 T = ?m2 T" by (simp add: grows_def)
          with some need True show "m3 T \<noteq> None" "reachOf m3 T = yes"
            by (auto simp: setTrav_def reachOf_def split: option.splits)
          fix x assume "travOf m x \<noteq> None"
          with old have x: "x \<noteq> T" "m1 x = m x" by auto
          with \<open>travOf m x \<noteq> None\<close> have "travOf ?m2 x \<noteq> None" "?m2 x = m x"
            by (simp_all add: setTrav_def travOf_def)
          with that(2) x show "x \<noteq> T \<and> m3 x = m x" by (simp add: grows_def)
        qed
        have one: "gives K t B m T (bindS (getTraverserFunc K t n e ?m2) (\<lambda>f. setAs T (mk f)))"
          if e: "parts (K T) = [e]" "allParts (K T) = [e]" "K T \<noteq> KInterface"
            and mk: "\<And>bt f. good K t bt e f \<Longrightarrow> good K t bt T (mk (Some f))" for e mk
        proof -
          have "reach K t e" using reach_parts [OF r Tt e(3)] e(1) by simp
          moreover have "gives K t ?B ?m2 e (getTraverserFunc K t n e ?m2)" using call [OF _ tr2] e(2) by simp
          ultimately obtain f m3 where "getTraverserFunc K t n e ?m2 = Some (Inr (Some f), m3)"
            "trOk K t ?B m3" "grows ?m2 m3" "good K t (built m3 ?B) e f"
            by (auto simp: gives_def split: option.splits)
          with fin mk show ?thesis by simp
        qed
        have go: "getTraverserFunc K t (Suc n) T m =
            (case K T of
                KPtr e \<Rightarrow> bindS (getTraverserFunc K t n e ?m2) (\<lambda>f. setAs T (OnPtr f))
              | KStruct fs \<Rightarrow> bindS (getFields K t n 0 fs ?m2) (\<lambda>is. setAs T (OnStruct is))
              | KMap key e \<Rightarrow>
                  bindS (getTraverserFunc K t n key ?m2) (\<lambda>f m3.
                  bindS (getTraverserFunc K t n e m3) (\<lambda>g. setAs T (OnMap f g)))
              | KArray e \<Rightarrow> bindS (getTraverserFunc K t n e ?m2) (\<lambda>f. setAs T (OnSeq f))
              | KSlice e \<Rightarrow> bindS (getTraverserFunc K t n e ?m2) (\<lambda>f. setAs T (OnSeq f))
              | KInterface \<Rightarrow> setAs T OnIface ?m2
              | KOther \<Rightarrow> Some (Inl (UnexpectedType T), ?m2))"
          using nt True Tt by (simp add: unfolded)
        show ?thesis
        proof (cases "K T")
          case (KStruct fs)
          have "\<exists>m3. getFields K t n 0 fs ?m2 = Some (Inr (fieldsOf K t 0 fs), m3) \<and> trOk K t ?B m3 \<and>
              grows ?m2 m3 \<and> (\<forall>x\<in>set (fieldsOf K t 0 fs). built m3 ?B (snd x))"
          proof (rule getFields_gives [OF call tr2])
            show "snd ` set fs \<inter> ?B = {}"
              using layeredD [OF lay, of _ T] Suc.prems(3) KStruct by fastforce
          qed (use KStruct in simp_all)
          then show ?thesis using fin KStruct Tt by (auto simp: go)
        next
          case (KMap a b)
          from call [OF _ tr2, of a] KMap have "gives K t ?B ?m2 a (getTraverserFunc K t n a ?m2)" by simp
          then obtain f m3 where f: "getTraverserFunc K t n a ?m2 = Some (Inr f, m3)" "trOk K t ?B m3" "grows ?m2 m3"
            "case f of None \<Rightarrow> \<not> reach K t a | Some f' \<Rightarrow> reach K t a \<and> good K t (built m3 ?B) a f'"
            by (auto simp: gives_def)
          from call [OF _ f(2), of b] KMap have "gives K t ?B m3 b (getTraverserFunc K t n b m3)" by simp
          then obtain g m4 where g: "getTraverserFunc K t n b m3 = Some (Inr g, m4)" "trOk K t ?B m4" "grows m3 m4"
            "case g of None \<Rightarrow> \<not> reach K t b | Some f' \<Rightarrow> reach K t b \<and> good K t (built m4 ?B) b f'"
            by (auto simp: gives_def)
          have "case f of None \<Rightarrow> \<not> reach K t a | Some f' \<Rightarrow> reach K t a \<and> good K t (built m4 ?B) a f'"
            using f(4) good_mono grows_built [OF g(3)] by (auto split: option.splits)
          moreover have "case g of None \<Rightarrow> \<not> reach K t b | Some f' \<Rightarrow> reach K t b \<and> good K t (built m4 ?B) b f'"
            using g(4) by (auto split: option.splits)
          ultimately have "good K t (built m4 ?B) T (OnMap f g)" using KMap Tt by simp
          with fin [OF g(2) grows_trans [OF f(3) g(3)]] f(1) g(1) KMap show ?thesis by (simp add: go)
        next
          case (KPtr e)
          then show ?thesis using one [of e OnPtr] Tt by (simp add: go)
        next
          case (KArray e)
          then show ?thesis using one [of e OnSeq] Tt by (simp add: go)
        next
          case (KSlice e)
          then show ?thesis using one [of e OnSeq] Tt by (simp add: go)
        next
          case KInterface
          then show ?thesis using fin [OF tr2 grows_refl, of OnIface] Tt by (simp add: go)
        next
          case KOther
          then show ?thesis using reach_parts [OF r Tt] by simp
        qed
      qed
    qed
  qed
qed simp

section \<open>Running the traversers\<close>

definition runsAs :: "tenv \<Rightarrow> goty \<Rightarrow> tstate \<Rightarrow> tresult \<Rightarrow> (bool \<times> gval) list \<Rightarrow> bool" where
  "runsAs K t s res os \<longleftrightarrow>
     (\<exists>m'. res = Some (outcome os, m', snd s @ calls os) \<and> trOk K t {} m' \<and> grows (fst s) m')"

lemma runsAs_nothing: "trOk K t {} (fst s) \<Longrightarrow> runsAs K t s (Some (Inr (), s)) []"
  by (cases s) (simp add: runsAs_def outcome_def calls_def grows_refl)

lemma runsAs_then:
  assumes "runsAs K t s r os"
    and "\<And>m. trOk K t {} m \<Longrightarrow> grows (fst s) m \<Longrightarrow> runsAs K t (m, snd s @ calls os) (k (m, snd s @ calls os)) os'"
  shows "runsAs K t s (thenE r k) (os @ os')"
proof -
  from assms(1) obtain m where m: "r = Some (outcome os, m, snd s @ calls os)" "trOk K t {} m" "grows (fst s) m"
    by (auto simp: runsAs_def)
  show ?thesis
  proof (cases "outcome os")
    case (Inl e)
    with m show ?thesis by (simp add: runsAs_def outcome_append calls_append)
  next
    case (Inr u)
    with assms(2) [OF m(2,3)] m(1) show ?thesis
      by (auto simp: runsAs_def outcome_append calls_append intro: grows_trans [OF m(3)])
  qed
qed

definition runsOn :: "tenv \<Rightarrow> goty \<Rightarrow> nat \<Rightarrow> gval \<Rightarrow> bool" where
  "runsOn K t n v \<longleftrightarrow> (\<forall>T tr ro s. typed K T v \<longrightarrow> trOk K t {} (fst s) \<longrightarrow> reach K t T \<longrightarrow>
     good K t (built (fst s) {}) T tr \<longrightarrow>
     runsAs K t s (runTrav K t n (Some tr) ro T v s) (occ K t (reach K t) ro T v))"

lemma runsOnD:
  "runsOn K t n v \<Longrightarrow> typed K T v \<Longrightarrow> trOk K t {} (fst s) \<Longrightarrow> reach K t T \<Longrightarrow>
   good K t (built (fst s) {}) T tr \<Longrightarrow>
   runsAs K t s (runTrav K t n (Some tr) ro T v s) (occ K t (reach K t) ro T v)"
  unfolding runsOn_def by blast

lemma good_grows: "good K t (built m B) T tr \<Longrightarrow> grows m m' \<Longrightarrow> good K t (built m' B) T tr"
  by (rule good_mono) (use grows_built in blast)+

lemma runFields_runs:
  assumes "\<And>w. w \<in> set ws \<Longrightarrow> runsOn K t n w" and "typedFields K fs ws" and "trOk K t {} (fst s)"
    and "\<forall>x\<in>set (fieldsOf K t (length pre) fs). built (fst s) {} (snd x)" and "length pre' = length pre"
  shows "runsAs K t s (runFields K t n (fieldsOf K t (length pre) fs) ro (pre @ fs) (pre' @ ws) s)
    (occFields K t (reach K t) ro fs ws)"
  using assms
proof (induction fs arbitrary: pre pre' ws s)
  case Nil
  then show ?case by (cases ws) (simp_all add: runsAs_nothing)
next
  case (Cons f fs)
  then obtain w ws' where ws: "ws = w # ws'" "typed K (snd f) w" "typedFields K fs ws'" by (cases ws) auto
  have rest: "runsAs K t s' (runFields K t n (fieldsOf K t (Suc (length pre)) fs) ro (pre @ f # fs) (pre' @ w # ws') s')
      (occFields K t (reach K t) ro fs ws')" if "trOk K t {} (fst s')" "grows (fst s) (fst s')" for s'
    using Cons.IH [of ws' s' "pre @ [f]" "pre' @ [w]"] Cons.prems ws that grows_built [OF that(2)]
    by (auto split: if_splits)
  show ?case
  proof (cases "reach K t (snd f)")
    case True
    with Cons.prems(4) obtain tr where tr: "travOf (fst s) (snd f) = Some tr" by (auto simp: built_def)
    with trOkD [OF Cons.prems(3) tr] have "good K t (built (fst s) {}) (snd f) tr" by simp
    with Cons.prems(1,3) ws True have
      "runsAs K t s (runTrav K t n (Some tr) (ro \<or> \<not> fst f) (snd f) w s)
        (occ K t (reach K t) (ro \<or> \<not> fst f) (snd f) w)"
      by (intro runsOnD) simp_all
    from runsAs_then [OF this rest] tr True ws(1) Cons.prems(5) show ?thesis
      by (simp add: nth_append)
  next
    case False
    with rest [OF Cons.prems(3) grows_refl] ws(1) show ?thesis by (simp add: occ.simps)
  qed
qed

lemma runElems_runs:
  assumes "\<And>w. w \<in> set ws \<Longrightarrow> runsOn K t n w" and "typedElems K e ws" and "trOk K t {} (fst s)"
    and "reach K t e" and "good K t (built (fst s) {}) e tr"
  shows "runsAs K t s (runElems K t n (Some tr) ro e ws s) (occElems K t (reach K t) ro e ws)"
  using assms
proof (induction ws arbitrary: s)
  case (Cons w ws)
  have "runsAs K t s (runTrav K t n (Some tr) ro e w s) (occ K t (reach K t) ro e w)"
    using Cons.prems by (intro runsOnD) simp_all
  from runsAs_then [OF this, where k = "\<lambda>s1. runElems K t n (Some tr) ro e ws s1"] show ?case
    using Cons good_grows by simp
qed (simp add: runsAs_nothing)

lemma runOpt_runs:
  assumes "runsOn K t n v" and "typed K T v" and "trOk K t {} (fst s)"
    and "case f of None \<Rightarrow> \<not> reach K t T | Some tr \<Rightarrow> reach K t T \<and> good K t (built (fst s) {}) T tr"
  shows "runsAs K t s (if f \<noteq> None then runTrav K t n f ro T v s else Some (Inr (), s))
    (occ K t (reach K t) ro T v)"
proof (cases f)
  case None
  with assms show ?thesis by (simp add: occ.simps runsAs_nothing)
next
  case (Some tr)
  with assms show ?thesis by (simp add: runsOnD)
qed

lemma runPairs_runs:
  assumes "\<And>x y. (x, y) \<in> set ps \<Longrightarrow> runsOn K t n x \<and> runsOn K t n y" and "typedPairs K a b ps"
    and "trOk K t {} (fst s)"
    and "case f of None \<Rightarrow> \<not> reach K t a | Some tr \<Rightarrow> reach K t a \<and> good K t (built (fst s) {}) a tr"
    and "case g of None \<Rightarrow> \<not> reach K t b | Some tr \<Rightarrow> reach K t b \<and> good K t (built (fst s) {}) b tr"
  shows "runsAs K t s (runPairs K t n f g ro a b ps s) (occPairs K t (reach K t) ro a b ps)"
  using assms
proof (induction ps arbitrary: s)
  case (Cons p ps)
  obtain x y where p: "p = (x, y)" by (cases p)
  have mono: "case h of None \<Rightarrow> \<not> reach K t c | Some tr \<Rightarrow> reach K t c \<and> good K t (built m {}) c tr"
    if "case h of None \<Rightarrow> \<not> reach K t c | Some tr \<Rightarrow> reach K t c \<and> good K t (built (fst s) {}) c tr" "grows (fst s) m" for h c m
    using that good_grows by (auto split: option.splits)
  have x: "runsAs K t s (if f \<noteq> None then runTrav K t n f ro a x s else Some (Inr (), s)) (occ K t (reach K t) ro a x)"
    by (rule runOpt_runs) (use Cons.prems p in auto)
  have y: "runsAs K t s1 (if g \<noteq> None then runTrav K t n g ro b y s1 else Some (Inr (), s1)) (occ K t (reach K t) ro b y)"
    if "trOk K t {} (fst s1)" "grows (fst s) (fst s1)" for s1
    by (rule runOpt_runs) (use Cons.prems p that mono in auto)
  have rest: "runsAs K t s1 (runPairs K t n f g ro a b ps s1) (occPairs K t (reach K t) ro a b ps)"
    if "trOk K t {} (fst s1)" "grows (fst s) (fst s1)" for s1
    by (rule Cons.IH) (use Cons.prems p that mono in auto)
  have tail: "runsAs K t s1
      (thenE (if g \<noteq> None then runTrav K t n g ro b y s1 else Some (Inr (), s1)) (\<lambda>s2. runPairs K t n f g ro a b ps s2))
      (occ K t (reach K t) ro b y @ occPairs K t (reach K t) ro a b ps)"
    if "trOk K t {} (fst s1)" "grows (fst s) (fst s1)" for s1
    by (rule runsAs_then [OF y [OF that]]) (use rest grows_trans [OF that(2)] in simp)
  show ?case unfolding p runPairs.simps occPairs.simps
    by (rule runsAs_then [OF x]) (use tail in simp)
qed (simp add: runsAs_nothing)

text \<open>A value of the type itself is passed to the function.\<close>

lemma runTrav_self:
  assumes "trOk K t {} (fst s)" and "good K t (built (fst s) {}) t tr"
  shows "runsAs K t s (runTrav K t n (Some tr) ro t v s) (occ K t (reach K t) ro t v)"
proof -
  from assms(2) have "tr = Call" by (cases tr) auto
  with assms(1) show ?thesis
    by (cases s) (simp add: runTrav.simps occ.simps runsAs_def outcome_def calls_def grows_refl reach.self)
qed

text \<open>The shapes of values.\<close>

lemma typed_shape:
  assumes "typed K T v"
  shows "(K T = KPtr e \<longrightarrow> (\<exists>w. v = VPtr w)) \<and> (K T = KStruct fs \<longrightarrow> (\<exists>ws. v = VStruct ws)) \<and>
    (K T = KMap a b \<longrightarrow> (\<exists>ps. v = VMap ps)) \<and> (K T = KArray e \<or> K T = KSlice e \<longrightarrow> (\<exists>ws. v = VSeq ws)) \<and>
    (K T = KInterface \<longrightarrow> (\<exists>x. v = VIface x))"
  using assms by (cases "(K, T, v)" rule: typed.cases) (auto split: gkind.splits)

lemma runTrav_runs:
  assumes lay: "layered K rk" and fuel: "\<And>T. rk T < n"
  shows "runsOn K t n v"
proof (induction v rule: measure_induct_rule [of size])
  case (less v)
  show ?case
    unfolding runsOn_def
  proof (intro allI impI)
    fix T tr ro and s :: tstate
    assume ty: "typed K T v" and ok: "trOk K t {} (fst s)" and r: "reach K t T"
      and g: "good K t (built (fst s) {}) T tr"
    show "runsAs K t s (runTrav K t n (Some tr) ro T v s) (occ K t (reach K t) ro T v)"
    proof (cases "T = t")
      case True
      with runTrav_self ok g show ?thesis by simp
    next
      case False
      have o: "occ K t (reach K t) ro T v = occIn K t (reach K t) ro T v" using r False by (simp add: occ.simps)
      note run = runTrav.simps(2) [of K t n tr ro T v s]
      show ?thesis
      proof (cases tr)
        case Call
        with g False show ?thesis by simp
      next
        case (OnPtr f)
        with g obtain e f' where e: "K T = KPtr e" "f = Some f'" "good K t (built (fst s) {}) e f'"
          by (auto split: option.splits)
        with reach_parts [OF r False] have "reach K t e" by simp
        obtain w where v: "v = VPtr w" using typed_shape [OF ty] e(1) by blast
        show ?thesis
        proof (cases w)
          case None
          with v OnPtr e ok show ?thesis unfolding o run by (simp add: runsAs_nothing)
        next
          case (Some w')
          with v less [of w'] have "runsOn K t n w'" by simp
          from runsOnD [OF this _ ok \<open>reach K t e\<close> e(3)] Some v OnPtr e ty show ?thesis
            unfolding o run by simp
        qed
      next
        case (OnStruct js)
        with g obtain fs where fs: "K T = KStruct fs" "js = fieldsOf K t 0 fs"
          "\<forall>x\<in>set js. built (fst s) {} (snd x)" by auto
        obtain ws where v: "v = VStruct ws" using typed_shape [OF ty] fs(1) by blast
        have "runsOn K t n w" if "w \<in> set ws" for w
          using less [of w] v size_list_estimation' [OF that, of "size w" size] by simp
        then show ?thesis
          using runFields_runs [of ws K t n fs s "[]" "[]" ro] v fs ty ok OnStruct unfolding o run by simp
      next
        case (OnMap f h)
        with g obtain a b where ab: "K T = KMap a b"
          "case f of None \<Rightarrow> \<not> reach K t a | Some f' \<Rightarrow> reach K t a \<and> good K t (built (fst s) {}) a f'"
          "case h of None \<Rightarrow> \<not> reach K t b | Some f' \<Rightarrow> reach K t b \<and> good K t (built (fst s) {}) b f'"
          by auto
        obtain ps where v: "v = VMap ps" using typed_shape [OF ty] ab(1) by blast
        have "runsOn K t n x \<and> runsOn K t n y" if "(x, y) \<in> set ps" for x y
          using less [of x] less [of y] v
            size_list_estimation' [OF that, of "size_prod size size (x, y)" "size_prod size size"] by simp
        from runPairs_runs [OF this _ ok ab(2,3)] v ab(1) ty OnMap show ?thesis
          unfolding o run by simp
      next
        case (OnSeq f)
        with g obtain e f' where e: "K T = KArray e \<or> K T = KSlice e" "f = Some f'"
          "good K t (built (fst s) {}) e f'"
          by (auto split: option.splits)
        with reach_parts [OF r False] have re: "reach K t e" by auto
        obtain ws where v: "v = VSeq ws" using typed_shape [OF ty] e(1) by blast
        have "runsOn K t n w" if "w \<in> set ws" for w
          using less [of w] v size_list_estimation' [OF that, of "size w" size] by simp
        from runElems_runs [OF this _ ok re e(3)] show ?thesis
          using v e ty OnSeq unfolding o run by auto
      next
        case OnIface
        with g have i: "K T = KInterface" by simp
        obtain w where v: "v = VIface w" using typed_shape [OF ty] i by blast
        show ?thesis
        proof (cases w)
          case None
          with v OnIface i ok show ?thesis unfolding o run by (simp add: runsAs_nothing)
        next
          case (Some x)
          obtain D w' where x: "x = (D, w')" by (cases x)
          with Some v less [of w'] have IH: "runsOn K t n w'" by simp
          have tw: "typed K D w'" using ty v Some x by simp
          have "gives K t {} (fst s) D (getTraverserFunc K t n D (fst s))"
            by (rule getTraverserFunc_gives [OF lay fuel ok]) simp
          then obtain h m where h: "getTraverserFunc K t n D (fst s) = Some (Inr h, m)" "trOk K t {} m"
            "grows (fst s) m" "case h of None \<Rightarrow> \<not> reach K t D | Some tr \<Rightarrow> reach K t D \<and> good K t (built m {}) D tr"
            by (auto simp: gives_def)
          show ?thesis
          proof (cases h)
            case None
            with h v Some x OnIface i show ?thesis
              unfolding o run by (simp add: occ.simps runsAs_def outcome_def calls_def)
          next
            case h': (Some f)
            with h runsOnD [OF IH tw, of "(m, snd s)" f ro]
            have "runsAs K t (m, snd s) (runTrav K t n (Some f) ro D w' (m, snd s)) (occ K t (reach K t) ro D w')"
              by simp
            with h(3) have "runsAs K t s (runTrav K t n (Some f) ro D w' (m, snd s)) (occ K t (reach K t) ro D w')"
              by (auto simp: runsAs_def intro: grows_trans)
            with h(1) h' v Some x OnIface i show ?thesis unfolding o run by simp
          qed
        qed
      qed (use g in simp)
    qed
  qed
qed

section \<open>Do\<close>

definition tmapOk :: "tenv \<Rightarrow> typeMap \<Rightarrow> bool" where
  "tmapOk K tmap \<longleftrightarrow> (\<forall>t m. tmap t = Some m \<longrightarrow> trOk K t {} m)"

lemma Do_occ:
  assumes lay: "layered K rk" and fuel: "\<And>T. rk T < n" and ty: "typed K T v" and tm: "tmapOk K tmap"
  shows "\<exists>tmap'. Do K n t T v tmap =
      Some (outcome (occ K t (reach K t) False T v), calls (occ K t (reach K t) False T v), tmap') \<and>
    tmapOk K tmap'"
proof -
  let ?m = "case tmap t of None \<Rightarrow> Map.empty | Some m \<Rightarrow> m"
  let ?os = "occ K t (reach K t) False T v"
  have "trOk K t {} ?m" using tm trOk_empty by (auto simp: tmapOk_def split: option.splits)
  then have "gives K t {} ?m T (getTraverserFunc K t n T ?m)"
    by (rule getTraverserFunc_gives [OF lay fuel]) simp
  then obtain f m1 where f: "getTraverserFunc K t n T ?m = Some (Inr f, m1)" "trOk K t {} m1"
    "case f of None \<Rightarrow> \<not> reach K t T | Some tr \<Rightarrow> reach K t T \<and> good K t (built m1 {}) T tr"
    by (auto simp: gives_def)
  have tm': "tmapOk K (tmap(t \<mapsto> m'))" if "trOk K t {} m'" for m'
    using tm that by (simp add: tmapOk_def)
  show ?thesis
  proof (cases f)
    case None
    with f have "?os = []" by (simp add: occ.simps)
    with f None tm' show ?thesis by (auto simp: Do_def outcome_def calls_def)
  next
    case (Some tr)
    with f runsOnD [OF runTrav_runs [OF lay fuel] ty, of t "(m1, [])" tr False]
    have "runsAs K t (m1, []) (runTrav K t n (Some tr) False T v (m1, [])) ?os" by simp
    then obtain m' where "runTrav K t n (Some tr) False T v (m1, []) = Some (outcome ?os, m', calls ?os)"
      "trOk K t {} m'"
      by (auto simp: runsAs_def)
    with f Some tm' show ?thesis by (auto simp: Do_def)
  qed
qed

text \<open>
  C15. For types that are not recursive, \<^verbatim>\<open>Do\<close> calls the function on every value of its type
  that the argument contains, in order and as often as it occurs, and on nothing of another
  type, whatever earlier calls have left in the tables. It never meets a nil or a dummy
  traverser. It panics exactly when an occurrence lies behind an unexported field, after the
  calls for those in front of it.
\<close>
theorem Do_calls:
  assumes "layered K rk" and "\<And>T. rk T < n" and "typed K T v" and "tmapOk K tmap"
  shows "\<exists>os tmap'. os = occ K t (reach K t) False T v \<and>
    Do K n t T v tmap =
      (if \<exists>x\<in>set os. fst x
       then Some (Inl UnexportedUse, map snd (takeWhile (\<lambda>x. \<not> fst x) os), tmap')
       else Some (Inr (), map snd os, tmap')) \<and>
    (\<forall>x\<in>set os. typed K t (snd x)) \<and> tmapOk K tmap'"
proof -
  let ?os = "occ K t (reach K t) False T v"
  from Do_occ [OF assms] obtain tmap' where
    d: "Do K n t T v tmap = Some (outcome ?os, calls ?os, tmap')" "tmapOk K tmap'" by blast
  have all: "takeWhile (\<lambda>x. \<not> fst x) ?os = ?os" if "\<not> (\<exists>x\<in>set ?os. fst x)"
    using that by (simp add: takeWhile_eq_all_conv)
  have ty: "\<forall>x\<in>set ?os. typed K t (snd x)" using occ_typed(1) [OF assms(3)] by blast
  show ?thesis
  proof (cases "\<exists>x\<in>set ?os. fst x")
    case True
    with d ty show ?thesis unfolding outcome_def calls_def by auto
  next
    case False
    with d ty all [OF False] show ?thesis unfolding outcome_def calls_def by simp
  qed
qed

definition listTypes :: tenv where
  "listTypes T = (if T = ''[]*T'' then KSlice ''*T'' else if T = ''*T'' then KPtr ''T'' else KOther)"

lemma Do_calls_witness:
  "\<exists>tmap'. Do listTypes 3 ''*T'' ''[]*T'' (VSeq [VPtr None, VPtr (Some (VInt 3))]) Map.empty =
     Some (Inr (), [VPtr None, VPtr (Some (VInt 3))], tmap') \<and> tmapOk listTypes tmap'"
proof -
  let ?v = "VSeq [VPtr None, VPtr (Some (VInt 3))]" and ?rk = "\<lambda>T. if T = ''[]*T'' then 2 else if T = ''*T'' then 1 else 0"
  let ?R = "reach listTypes ''*T''"
  have d: "\<exists>os tmap'. os = occ listTypes ''*T'' ?R False ''[]*T'' ?v \<and>
      Do listTypes 3 ''*T'' ''[]*T'' ?v Map.empty =
        (if \<exists>x\<in>set os. fst x
         then Some (Inl UnexportedUse, map snd (takeWhile (\<lambda>x. \<not> fst x) os), tmap')
         else Some (Inr (), map snd os, tmap')) \<and>
      (\<forall>x\<in>set os. typed listTypes ''*T'' (snd x)) \<and> tmapOk listTypes tmap'"
  proof (rule Do_calls [where rk = ?rk])
    show "layered listTypes ?rk" by (auto simp: layered_def listTypes_def)
  qed (simp_all add: listTypes_def tmapOk_def)
  have "?R ''*T''" by (rule reach.self)
  moreover have "?R ''[]*T''" by (rule reach.part [OF _ reach.self]) (simp add: listTypes_def)
  ultimately have "occ listTypes ''*T'' ?R False ''[]*T'' ?v = [(False, VPtr None), (False, VPtr (Some (VInt 3)))]"
    by (simp add: occ.simps listTypes_def)
  with d show ?thesis by auto
qed

section \<open>Recursive types\<close>

text \<open>
  A traversal that starts at a recursive structure by value captures the dummy traverser in
  the pointer to it, and panics on the first pointer that is not nil. Starting from the
  pointer it works.
\<close>

lemma Do_recursive_panics:
  "map_option fst (Do nodeTypes 5 ''*T'' ''node''
     (VStruct [VPtr (Some (VStruct [VPtr None, VPtr None])), VPtr None]) Map.empty) = Some (Inl DummyCalled)"
  by code_simp

lemma Do_recursive_pointer:
  "map_option (\<lambda>(r, cs, _). (r, cs)) (Do nodeTypes 5 ''*T'' ''*node''
     (VPtr (Some (VStruct [VPtr (Some (VStruct [VPtr None, VPtr None])), VPtr None]))) Map.empty) =
   Some (Inr (), [VPtr None, VPtr None])"
  by code_simp

text \<open>
  A map type whose elements contain it loses occurrences once its key type is known to have
  none: while it is being visited it answers for its key only, and that answer is kept.
\<close>

definition mapTypes :: tenv where
  "mapTypes T =
     (if T = ''M'' then KMap ''string'' ''V''
      else if T = ''*M'' then KPtr ''M''
      else if T = ''V'' then KStruct [(True, ''*M''), (True, ''*T'')]
      else if T = ''*T'' then KPtr ''T''
      else KOther)"

definition mapValue :: gval where
  "mapValue =
     VMap [(VString ''a'', VStruct [VPtr (Some (VMap [(VString ''b'', VStruct [VPtr None, VPtr (Some (VInt 2))])])),
                                    VPtr (Some (VInt 1))])]"

definition afterString :: typeMap where
  "afterString = (case Do mapTypes 6 ''*T'' ''string'' (VString ''x'') Map.empty of
     Some (_, _, tmap) \<Rightarrow> tmap | None \<Rightarrow> Map.empty)"

lemma Do_map_misses:
  "map_option (\<lambda>(r, cs, _). (r, cs)) (Do mapTypes 6 ''*T'' ''M'' mapValue afterString) =
   Some (Inr (), [VPtr (Some (VInt 1))])"
  by code_simp

end
