(* ===== verification/Messages.thy ===== *)
theory Messages
  imports TypeApplyDo Requests
begin

text \<open>
  The messages as values of package \<^verbatim>\<open>reflect\<close>: their types as they are declared in
  \<^verbatim>\<open>src/src/gproc/common.go\<close> and \<^verbatim>\<open>src/src/filemarshal/filemarshal.go\<close>, and the files that
  \<^verbatim>\<open>typeapply.Do\<close> finds in them for \<^verbatim>\<open>Encode\<close> and \<^verbatim>\<open>Decode\<close>.
\<close>

section \<open>Types\<close>

definition exported :: "goty list \<Rightarrow> gkind" where
  "exported ts = KStruct (map (\<lambda>t. (True, t)) ts)"

text \<open>All fields of \<^verbatim>\<open>os.File\<close> are unexported; the traversal stops before it.\<close>

definition messageTypes :: "(goty \<times> gkind) list" where
  "messageTypes =
     [(''**StartReq'', KPtr ''*StartReq''),
      (''*StartReq'', KPtr ''StartReq''),
      (''StartReq'', exported
         [''string'', ''string'', ''[]string'', ''bool'', ''bool'', ''[]string'', ''[]string'',
          ''[]string'', ''string'', ''string'', ''string'', ''int64'', ''int'', ''int'',
          ''[]*cmdToExec'', ''int'', ''string'', ''[]*File'']),
      (''[]*cmdToExec'', KSlice ''*cmdToExec''),
      (''*cmdToExec'', KPtr ''cmdToExec''),
      (''cmdToExec'', exported
         [''string'', ''string'', ''string'', ''int'', ''int'', ''int'', ''int'', ''uint32'']),
      (''[]*File'', KSlice ''*File''),
      (''*File'', KPtr ''File''),
      (''File'', KStruct
         [(True, ''string''), (True, ''string''), (True, ''string''), (False, ''*os.File''),
          (True, ''int''), (True, ''int''), (True, ''int''), (True, ''uint32'')]),
      (''*os.File'', KPtr ''os.File''),
      (''os.File'', KStruct []),
      (''*vitalData'', KPtr ''vitalData''),
      (''vitalData'', exported
         [''bool'', ''string'', ''string'', ''string'', ''string'', ''string'', ''[]string'',
          ''map[string]bool'']),
      (''map[string]bool'', KMap ''string'' ''bool''),
      (''[]string'', KSlice ''string''),
      (''*Resp'', KPtr ''Resp''),
      (''Resp'', exported [''int'', ''string'']),
      (''**SlaveResp'', KPtr ''*SlaveResp''),
      (''*SlaveResp'', KPtr ''SlaveResp''),
      (''SlaveResp'', exported [''string''])]"

definition goTypes :: tenv where
  "goTypes T = (case map_of messageTypes T of None \<Rightarrow> KOther | Some k \<Rightarrow> k)"

section \<open>Values\<close>

definition stringsVal :: "string list \<Rightarrow> gval" where
  "stringsVal ss = VSeq (map VString ss)"

definition intVal :: "'w::len word \<Rightarrow> gval" where
  "intVal w = VInt (sint w)"

definition uintVal :: "'w::len word \<Rightarrow> gval" where
  "uintVal w = VInt (uint w)"

text \<open>The file descriptor of a file in a message is nil.\<close>

definition fileVal :: "fmFile \<Rightarrow> gval" where
  "fileVal f = VPtr (Some (VStruct
     [VString (CurrentName f), VString (DestName f), VString (SymlinkTarget f), VPtr None,
      intVal (Uid f), intVal (Gid f), intVal (Ftype f), uintVal (Perm f)]))"

definition cmdVal :: "cmdToExec \<Rightarrow> gval" where
  "cmdVal c = VPtr (Some (VStruct
     [VString (cmCurrentName c), VString (cmDestName c), VString (cmSymlinkTarget c),
      intVal (cmLocal c), intVal (cmUid c), intVal (cmGid c), intVal (cmFtype c), uintVal (cmPerm c)]))"

definition reqVal :: "startReq \<Rightarrow> gval" where
  "reqVal q = VStruct
     [VString (rqCommand q), VString (rqNodes q), stringsVal (rqPeers q), VBool (rqThisNode q),
      VBool (rqLocalBin q), stringsVal (rqArgs q), stringsVal (rqEnv q), stringsVal (rqLibList q),
      VString (rqPath q), VString (rqLfam q), VString (rqLserver q), intVal (rqBytesToTransfer q),
      intVal (rqUid q), intVal (rqGid q), VSeq (map cmdVal (rqCmds q)), intVal (rqPeerGroupSize q),
      VString (rqCwd q), VSeq (map fileVal (rqFiles q))]"

text \<open>The entries of a map are given in the order of its iteration.\<close>

definition vitalVal :: "vitalData \<Rightarrow> (string \<times> bool) list \<Rightarrow> gval" where
  "vitalVal vd es = VStruct
     [VBool (vdHostReady vd), VString (vdError vd), VString (vdHostAddr vd), VString (vdParentAddr vd),
      VString (vdServerAddr vd), VString (vdId vd), stringsVal (vdNodes vd),
      VMap (map (\<lambda>(k, b). (VString k, VBool b)) es)]"

definition respVal :: "resp \<Rightarrow> gval" where
  "respVal r = VStruct [intVal (rsNumNodes r), VString (rsMsg r)]"

definition slaveRespVal :: "string \<Rightarrow> gval" where
  "slaveRespVal i = VStruct [VString i]"

definition ptrVal :: "gval \<Rightarrow> gval" where
  "ptrVal v = VPtr (Some v)"

lemma intVal_inj [simp]: "intVal a = intVal b \<longleftrightarrow> a = b"
  by (auto simp: intVal_def dest: signed_word_eqI)

lemma uintVal_inj [simp]: "uintVal a = uintVal b \<longleftrightarrow> a = b"
  by (simp add: uintVal_def word_uint_eq_iff)

lemma fileVal_inj: "fileVal f = fileVal g \<longleftrightarrow> f = g"
  by (cases f; cases g) (auto simp: fileVal_def)

section \<open>The files in a message\<close>

definition msgRank :: "goty \<Rightarrow> nat" where
  "msgRank T = (case map_of
     [(''**StartReq'', 7), (''*StartReq'', 6), (''StartReq'', 5), (''[]*File'', 4), (''*File'', 3),
      (''File'', 2), (''*os.File'', 1), (''[]*cmdToExec'', 3), (''*cmdToExec'', 2), (''cmdToExec'', 1),
      (''*vitalData'', 3), (''vitalData'', 2), (''map[string]bool'', 1), (''[]string'', 1),
      (''*Resp'', 2), (''Resp'', 1), (''**SlaveResp'', 3), (''*SlaveResp'', 2), (''SlaveResp'', 1)] T of
     None \<Rightarrow> 0 | Some n \<Rightarrow> n)"

lemma msgRank_less: "msgRank T < 8"
  by (auto simp: msgRank_def split: option.splits if_splits)

lemma goTypes_layered: "layered goTypes msgRank"
proof -
  have all: "list_all (\<lambda>(x, k). list_all (\<lambda>y. msgRank y < msgRank x) (allParts k)) messageTypes"
    by code_simp
  have "msgRank y < msgRank x" if "y \<in> set (allParts (goTypes x))" for x y
  proof (cases "map_of messageTypes x")
    case None
    with that show ?thesis by (simp add: goTypes_def)
  next
    case (Some k)
    with all that show ?thesis by (auto simp: goTypes_def list_all_iff dest!: map_of_SomeD)
  qed
  then show ?thesis by (simp add: layered_def)
qed

text \<open>The types of messages from which a file can be reached.\<close>

definition fileTypes :: "goty set" where
  "fileTypes = {''*File'', ''[]*File'', ''StartReq'', ''*StartReq'', ''**StartReq''}"

lemma reach_goTypes: "reach goTypes ''*File'' T \<longleftrightarrow> T \<in> fileTypes"
proof
  have all: "list_all (\<lambda>(x, k). k \<noteq> KInterface \<and> (list_ex (\<lambda>y. y \<in> fileTypes) (parts k) \<longrightarrow> x \<in> fileTypes)) messageTypes"
    by code_simp
  show "reach goTypes ''*File'' T \<Longrightarrow> T \<in> fileTypes"
  proof (induction rule: reach.induct)
    case self
    then show ?case by (simp add: fileTypes_def)
  next
    case (iface T)
    with all show ?case by (auto simp: goTypes_def list_all_iff split: option.splits dest!: map_of_SomeD)
  next
    case (part y T)
    show ?case
    proof (cases "map_of messageTypes T")
      case (Some k)
      then have "(T, k) \<in> set messageTypes" by (rule map_of_SomeD)
      with all have "list_ex (\<lambda>y. y \<in> fileTypes) (parts k) \<longrightarrow> T \<in> fileTypes"
        by (auto simp: list_all_iff)
      moreover have "y \<in> set (parts k)" using part Some by (simp add: goTypes_def)
      ultimately show ?thesis using part by (auto simp: list_ex_iff)
    qed (use part in \<open>simp add: goTypes_def\<close>)
  qed
  have step: "reach goTypes ''*File'' T" if "list_ex (\<lambda>y. y = z) (parts (goTypes T))" "reach goTypes ''*File'' z" for T z
    using that by (auto simp: list_ex_iff intro: reach.part)
  have f: "reach goTypes ''*File'' ''[]*File''" by (rule step [OF _ reach.self]) code_simp
  have q: "reach goTypes ''*File'' ''StartReq''" by (rule step [OF _ f]) code_simp
  have p: "reach goTypes ''*File'' ''*StartReq''" by (rule step [OF _ q]) code_simp
  have pp: "reach goTypes ''*File'' ''**StartReq''" by (rule step [OF _ p]) code_simp
  show "T \<in> fileTypes \<Longrightarrow> reach goTypes ''*File'' T"
    using f q p pp reach.self by (auto simp: fileTypes_def)
qed

lemma goTypes_simps [simp]:
  "goTypes ''string'' = KOther" "goTypes ''bool'' = KOther" "goTypes ''int'' = KOther"
  "goTypes ''int64'' = KOther" "goTypes ''uint32'' = KOther"
  "goTypes ''[]string'' = KSlice ''string''" "goTypes ''[]*File'' = KSlice ''*File''"
  "goTypes ''*File'' = KPtr ''File''" "goTypes ''*os.File'' = KPtr ''os.File''"
  "goTypes ''[]*cmdToExec'' = KSlice ''*cmdToExec''" "goTypes ''*cmdToExec'' = KPtr ''cmdToExec''"
  "goTypes ''*StartReq'' = KPtr ''StartReq''" "goTypes ''**StartReq'' = KPtr ''*StartReq''"
  "goTypes ''*vitalData'' = KPtr ''vitalData''" "goTypes ''map[string]bool'' = KMap ''string'' ''bool''"
  "goTypes ''*Resp'' = KPtr ''Resp''"
  "goTypes ''*SlaveResp'' = KPtr ''SlaveResp''" "goTypes ''**SlaveResp'' = KPtr ''*SlaveResp''"
  by code_simp+

lemma goTypes_structs [simp]:
  "goTypes ''StartReq'' = exported
     [''string'', ''string'', ''[]string'', ''bool'', ''bool'', ''[]string'', ''[]string'',
      ''[]string'', ''string'', ''string'', ''string'', ''int64'', ''int'', ''int'',
      ''[]*cmdToExec'', ''int'', ''string'', ''[]*File'']"
  "goTypes ''cmdToExec'' = exported
     [''string'', ''string'', ''string'', ''int'', ''int'', ''int'', ''int'', ''uint32'']"
  "goTypes ''File'' = KStruct
     [(True, ''string''), (True, ''string''), (True, ''string''), (False, ''*os.File''),
      (True, ''int''), (True, ''int''), (True, ''int''), (True, ''uint32'')]"
  "goTypes ''vitalData'' = exported
     [''bool'', ''string'', ''string'', ''string'', ''string'', ''string'', ''[]string'', ''map[string]bool'']"
  "goTypes ''Resp'' = exported [''int'', ''string'']"
  "goTypes ''SlaveResp'' = exported [''string'']"
  by code_simp+

lemma typed_strings [simp]: "typed goTypes ''[]string'' (stringsVal ss)"
proof -
  have "typedElems goTypes ''string'' (map VString ss)" by (induction ss) simp_all
  then show ?thesis by (simp add: stringsVal_def)
qed

lemma typed_ints [simp]:
  "typed goTypes ''int'' (intVal w)" "typed goTypes ''int64'' (intVal w)" "typed goTypes ''uint32'' (uintVal w)"
  by (simp_all add: intVal_def uintVal_def)

lemma typed_req: "typed goTypes ''StartReq'' (reqVal q)"
proof -
  have "typedElems goTypes ''*cmdToExec'' (map cmdVal cs)" for cs
    by (induction cs) (simp_all add: cmdVal_def exported_def)
  moreover have "typedElems goTypes ''*File'' (map fileVal fs)" for fs
    by (induction fs) (simp_all add: fileVal_def)
  ultimately show ?thesis by (simp add: reqVal_def exported_def)
qed

lemma typed_vital: "typed goTypes ''vitalData'' (vitalVal vd es)"
proof -
  have "typedPairs goTypes ''string'' ''bool'' (map (\<lambda>(k, b). (VString k, VBool b)) es)"
    by (induction es) auto
  then show ?thesis by (simp add: vitalVal_def exported_def)
qed

lemma occ_none: "T \<notin> fileTypes \<Longrightarrow> occ goTypes ''*File'' (reach goTypes ''*File'') ro T v = []"
  by (simp add: occ.simps reach_goTypes)

lemma occ_req:
  "occ goTypes ''*File'' (reach goTypes ''*File'') False ''StartReq'' (reqVal q) =
   map (\<lambda>f. (False, fileVal f)) (rqFiles q)"
proof -
  let ?R = "reach goTypes ''*File''"
  have "occElems goTypes ''*File'' ?R False ''*File'' (map fileVal fs) = map (\<lambda>f. (False, fileVal f)) fs" for fs
    by (induction fs) (simp_all add: occ.simps reach_goTypes fileTypes_def)
  then have "occ goTypes ''*File'' ?R False ''[]*File'' (VSeq (map fileVal fs)) = map (\<lambda>f. (False, fileVal f)) fs" for fs
    by (simp add: occ.simps reach_goTypes fileTypes_def)
  moreover have "?R ''StartReq''" by (simp add: reach_goTypes fileTypes_def)
  ultimately show ?thesis
    by (simp add: occ.simps [of _ _ _ _ "''StartReq''"] reqVal_def exported_def occ_none fileTypes_def)
qed

lemma occ_ptr:
  "goTypes P = KPtr T \<Longrightarrow> P \<in> fileTypes \<Longrightarrow> P \<noteq> ''*File'' \<Longrightarrow>
   occ goTypes ''*File'' (reach goTypes ''*File'') ro P (ptrVal v) =
   occ goTypes ''*File'' (reach goTypes ''*File'') ro T v"
  by (simp add: occ.simps [of _ _ _ _ P] reach_goTypes ptrVal_def)

lemma Do_message:
  assumes "typed goTypes T v" and "tmapOk goTypes tmap"
    and "occ goTypes ''*File'' (reach goTypes ''*File'') False T v = map (\<lambda>f. (False, fileVal f)) fs"
  shows "\<exists>tmap'. Do goTypes 8 ''*File'' T v tmap = Some (Inr (), map fileVal fs, tmap') \<and> tmapOk goTypes tmap'"
proof -
  have "outcome (map (\<lambda>f. (False, fileVal f)) fs) = Inr ()" by (auto simp: outcome_def)
  moreover have "calls (map (\<lambda>f. (False, fileVal f)) fs) = map fileVal fs"
    by (induction fs) (simp_all add: calls_def)
  ultimately show ?thesis
    using Do_occ [OF goTypes_layered msgRank_less assms(1,2), of "''*File''"] assms(3) by simp
qed

text \<open>
  C23. What \<^verbatim>\<open>Encode\<close> and \<^verbatim>\<open>Decode\<close> take for the files of a message. In a \<^verbatim>\<open>StartReq\<close>, sent by value
  or by pointer and received through a pointer to a pointer, \<^verbatim>\<open>typeapply.Do\<close> finds exactly the
  list \<^verbatim>\<open>Files\<close>, in order; in all the other messages that go through \<^verbatim>\<open>filemarshal\<close> it finds none.
  This holds in any order of messages.
\<close>
theorem messages_files:
  assumes "tmapOk goTypes tmap"
    and "(T, v, fs) \<in> {(''StartReq'', reqVal q, rqFiles q), (''*StartReq'', ptrVal (reqVal q), rqFiles q),
       (''**StartReq'', ptrVal (ptrVal (reqVal q)), rqFiles q),
       (''vitalData'', vitalVal vd es, []), (''*vitalData'', ptrVal (vitalVal vd es), []),
       (''Resp'', respVal r, []), (''*Resp'', ptrVal (respVal r), []),
       (''SlaveResp'', slaveRespVal i, []), (''**SlaveResp'', ptrVal (ptrVal (slaveRespVal i)), [])}"
  shows "\<exists>tmap'. Do goTypes 8 ''*File'' T v tmap = Some (Inr (), map fileVal fs, tmap') \<and> tmapOk goTypes tmap'"
proof (rule Do_message [OF _ assms(1)])
  show "typed goTypes T v"
    using assms(2) typed_req typed_vital
    by (auto simp: ptrVal_def respVal_def slaveRespVal_def exported_def)
  show "occ goTypes ''*File'' (reach goTypes ''*File'') False T v = map (\<lambda>f. (False, fileVal f)) fs"
    using assms(2) by (auto simp: occ_req occ_ptr occ_none fileTypes_def)
qed

definition demoCmd :: cmdToExec where
  "demoCmd = \<lparr>cmCurrentName = ''/bin/ls'', cmDestName = ''/bin/ls'', cmSymlinkTarget = [], cmLocal = 0,
     cmUid = 0, cmGid = 0, cmFtype = 0, cmPerm = 493\<rparr>"

lemma messages_files_witness:
  "\<exists>tmap'. Do goTypes 8 ''*File'' ''*StartReq'' (ptrVal (reqVal (zeroReq\<lparr>rqFiles := [cmdFile [] demoCmd]\<rparr>))) Map.empty =
     Some (Inr (), map fileVal [cmdFile [] demoCmd], tmap') \<and> tmapOk goTypes tmap'"
  by (rule messages_files [where q = "zeroReq\<lparr>rqFiles := [cmdFile [] demoCmd]\<rparr>"]) (simp_all add: tmapOk_def)

end
