(* ===== verification/Master.thy ===== *)
theory Master
  imports Requests
begin

text \<open>
  The master of \<^verbatim>\<open>src/src/gproc/master.go\<close>: it registers slaves (\<^verbatim>\<open>registerSlaves\<close> of
  \<^verbatim>\<open>common.go\<close>) and serves the commands of its users. What the network decides is the
  argument \<open>env\<close>: whether the \<open>n\<close>-th attempt to dial an address succeeds, and the orders in
  which Go goes through its maps. The handlers of different connections run one at a time
  here; in the program they are goroutines without locks, which \<^verbatim>\<open>MasterConc\<close> models in single steps.
\<close>

section \<open>State\<close>

record 'c env =
  dialOk :: "nat \<Rightarrow> string \<Rightarrow> bool"
  slaveOrder :: "nat \<Rightarrow> 'c slaves \<Rightarrow> string list"
  exceptOrder :: "(string \<rightharpoonup> bool) \<Rightarrow> string list"
  infoOrder :: "(string \<rightharpoonup> string) \<Rightarrow> string list"

text \<open>
  A node has its registry; \<open>nDials\<close> counts the attempts to dial and \<open>nSent\<close> is the log of the
  requests handed to the goroutines that send them.
\<close>

record 'c node =
  nSlaves :: "'c slaves"
  nDials :: nat
  nSent :: "(string \<times> startReq) list"

record 'c master = "'c node" +
  mNetaddr :: string
  mExceptFiles :: "string \<rightharpoonup> bool"
  mExceptList :: "string list"
  mVital :: vitalData

datatype reply = VitalReply vitalData | RespReply resp

section \<open>Sending a command\<close>

definition cacheRelayFilesAndDelegateExec ::
  "'c env \<Rightarrow> startReq \<Rightarrow> string \<Rightarrow> string \<Rightarrow> ('c, 'z) node_scheme \<Rightarrow> bool \<times> ('c, 'z) node_scheme"
  where
  "cacheRelayFilesAndDelegateExec env arg root clientnode st =
     (let larg = relayReq arg root;
          ok = dialOk env (nDials st) clientnode;
          st1 = st\<lparr>nDials := Suc (nDials st)\<rparr>
      in if ok then (True, st1\<lparr>nSent := nSent st1 @ [(clientnode, larg)]\<rparr>) else (False, st1))"

fun sendEach ::
  "'c env \<Rightarrow> startReq \<Rightarrow> string \<Rightarrow> string list \<Rightarrow> goint \<Rightarrow> ('c, 'z) node_scheme
     \<Rightarrow> goint \<times> ('c, 'z) node_scheme" where
  "sendEach env req root [] numnodes st = (numnodes, st)"
| "sendEach env req root (s # nodeSet) numnodes st =
     (case cacheRelayFilesAndDelegateExec env req root s st of
        (True, st1) \<Rightarrow> sendEach env req root nodeSet (numnodes + 1) st1
      | (False, st1) \<Rightarrow>
          (case Get (nSlaves st1) s of
             Some si \<Rightarrow>
               sendEach env req root nodeSet numnodes (st1\<lparr>nSlaves := Remove (nSlaves st1) si\<rparr>)
           | None \<Rightarrow> sendEach env req root nodeSet numnodes st1))"

text \<open>The request is passed by reference: its \<^verbatim>\<open>Nodes\<close> stay changed.\<close>

definition sendCommandsToANodeSet ::
  "'c env \<Rightarrow> startReq \<Rightarrow> string \<Rightarrow> string \<Rightarrow> string list \<Rightarrow> ('c, 'z) node_scheme
     \<Rightarrow> goint \<times> startReq \<times> ('c, 'z) node_scheme" where
  "sendCommandsToANodeSet env sendReq subNodes root nodeSet st =
     (let req = sendReq\<lparr>rqNodes := subNodes\<rparr>
      in case sendEach env req root nodeSet 0 st of (numnodes, st1) \<Rightarrow> (numnodes, req, st1))"

fun sendEntries ::
  "'c env \<Rightarrow> startReq \<Rightarrow> string \<Rightarrow> nodeExecList list \<Rightarrow> goint \<Rightarrow> ('c, 'z) node_scheme
     \<Rightarrow> (runtime_error + goint) \<times> ('c, 'z) node_scheme" where
  "sendEntries env req root [] numnodes st = (Inr numnodes, st)"
| "sendEntries env req root (aNode # slaveNodes) numnodes st =
     (case ServIntersect (slaveOrder env (nDials st) (nSlaves st)) (nSlaves st) (Nodes aNode) of
        Inl p \<Rightarrow> (Inl p, st)
      | Inr nodeSet \<Rightarrow>
          (case sendCommandsToANodeSet env req (Subnodes aNode) root nodeSet st of
             (n, req', st1) \<Rightarrow> sendEntries env req' root slaveNodes (numnodes + n) st1))"

text \<open>The responses sent to the user come with the result; \<open>None\<close> is a loop that never ends.\<close>

definition sendCommandsToNodes ::
  "'c env \<Rightarrow> startReq \<Rightarrow> string \<Rightarrow> ('c, 'z) node_scheme
     \<Rightarrow> (reply list \<times> (runtime_error + goint) \<times> ('c, 'z) node_scheme) option" where
  "sendCommandsToNodes env sendReq root st =
     (case parseNodeList (rqNodes sendReq) of
        None \<Rightarrow> None
      | Some (slaveNodes, Some err) \<Rightarrow>
          Some ([RespReply \<lparr>rsNumNodes = 0, rsMsg = ''startExecution: bad slaveNodeList: '' @ err\<rparr>],
                Inr 0, st)
      | Some (slaveNodes, None) \<Rightarrow>
          Some ([], sendEntries env sendReq root slaveNodes 0 st))"

section \<open>Serving a user\<close>

text \<open>\<^verbatim>\<open>startMaster\<close>; the map in the vital data is the master's own, so it follows its changes.\<close>

definition startMaster :: "'c master" where
  "startMaster =
     \<lparr>nSlaves = newSlaves, nDials = 0, nSent = [], mNetaddr = [], mExceptFiles = Map.empty,
      mExceptList = [],
      mVital = \<lparr>vdHostReady = False, vdError = ''No hosts ready'', vdHostAddr = [], vdParentAddr = [],
        vdServerAddr = [], vdId = [], vdNodes = [], vdExceptlist = Map.empty\<rparr>\<rparr>"

definition refreshVital :: "'c master \<Rightarrow> 'c master" where
  "refreshVital m =
     (if mNetaddr m \<noteq> []
      then m\<lparr>mVital := (mVital m)\<lparr>vdHostReady := True, vdError := [], vdHostAddr := mNetaddr m\<rparr>\<rparr>
      else m)"

definition currentVital :: "'c master \<Rightarrow> vitalData" where
  "currentVital m = (mVital m)\<lparr>vdExceptlist := mExceptFiles m\<rparr>"

definition acceptExcepts :: "'c env \<Rightarrow> string list \<Rightarrow> 'c master \<Rightarrow> 'c master" where
  "acceptExcepts env args m =
     (let files = foldl (\<lambda>ef s. ef(s \<mapsto> True)) (mExceptFiles m) args
      in m\<lparr>mExceptFiles := files, mExceptList := exceptOrder env files\<rparr>)"

fun infoLines :: "(string \<rightharpoonup> string) \<Rightarrow> string list \<Rightarrow> string \<Rightarrow> string" where
  "infoLines a2i [] msg = msg"
| "infoLines a2i (i # is) msg = infoLines a2i is (msg @ i @ '' '' @ the (a2i i) @ ''\<newline>'')"

definition hostInfo :: "'c env \<Rightarrow> 'c slaves \<Rightarrow> resp" where
  "hostInfo env sv =
     (let order = infoOrder env (Addr2id sv)
      in \<lparr>rsNumNodes = of_nat (length order), rsMsg = infoLines (Addr2id sv) order []\<rparr>)"

text \<open>
  One connection of \<^verbatim>\<open>receiveCmds\<close>: the replies, the panic if there is one, and the state.
  The request is \<open>None\<close> when receiving it fails.
\<close>

definition serveCmd ::
  "'c env \<Rightarrow> startReq option \<Rightarrow> 'c master \<Rightarrow> (reply list \<times> runtime_error option \<times> 'c master) option"
  where
  "serveCmd env received m0 =
     (let m = refreshVital m0; hello = VitalReply (currentVital m)
      in case received of
        None \<Rightarrow> Some ([hello], None, m)
      | Some a \<Rightarrow>
          (if rqCommand a = [] then Some ([hello], Some IndexOutOfRange, m)
           else if rqCommand a ! 0 = CHR ''x'' then
             Some ([hello, RespReply \<lparr>rsNumNodes = 0, rsMsg = ''Files accepted''\<rparr>], None,
                   acceptExcepts env (rqArgs a) m)
           else if rqCommand a ! 0 = CHR ''i'' then
             Some ([hello, RespReply (hostInfo env (nSlaves m))], None, m)
           else if rqCommand a ! 0 = CHR ''e'' then
             (if \<not> vdHostReady (mVital m) then Some ([hello], None, m)
              else (case sendCommandsToNodes env a [] m of
                  None \<Rightarrow> None
                | Some (replies, Inl p, m1) \<Rightarrow> Some (hello # replies, Some p, m1)
                | Some (replies, Inr numnodes, m1) \<Rightarrow>
                    Some (hello # replies @
                      [RespReply \<lparr>rsNumNodes = numnodes, rsMsg = ''sendCommandsToNodes finished''\<rparr>],
                      None, m1)))
           else Some ([hello, RespReply \<lparr>rsNumNodes = 0, rsMsg = ''unknown command''\<rparr>], None, m)))"

section \<open>Registering a slave\<close>

text \<open>
  One connection of \<^verbatim>\<open>registerSlaves\<close>, from the remote address \<open>raddr\<close>: the identifier sent
  back, a panic, or nothing when receiving fails. \<^verbatim>\<open>netaddr\<close> is set by the first slave.
\<close>

definition learnNetaddr :: "vitalData \<Rightarrow> string \<Rightarrow> string" where
  "learnNetaddr vd netaddr =
     (if netaddr = [] then splitN2 CHR '':'' (vdParentAddr vd) ! 0 else netaddr)"

definition fixServerAddr :: "string \<Rightarrow> vitalData \<Rightarrow> runtime_error + vitalData" where
  "fixServerAddr raddr vd =
     (if length (vdServerAddr vd) < length ''0.0.0.0'' then Inl SliceOutOfRange
      else if take (length ''0.0.0.0'') (vdServerAddr vd) = ''0.0.0.0''
      then Inr (vd\<lparr>vdServerAddr := splitN2 CHR '':'' raddr ! 0 @ drop 7 (vdServerAddr vd)\<rparr>)
      else Inr vd)"

definition registerSlave ::
  "string \<Rightarrow> 'c \<Rightarrow> vitalData option \<Rightarrow> 'c master \<Rightarrow> (runtime_error + string option) \<times> 'c master"
  where
  "registerSlave raddr c received m =
     (case received of
        None \<Rightarrow> (Inr None, m)
      | Some vd \<Rightarrow>
          (let m1 = m\<lparr>mNetaddr := learnNetaddr vd (mNetaddr m)\<rparr>
           in case fixServerAddr raddr vd of
                Inl p \<Rightarrow> (Inl p, m1)
              | Inr vd' \<Rightarrow>
                  (case Add (nSlaves m1) vd' c of
                     (resp, sv) \<Rightarrow> (Inr (Some resp), m1\<lparr>nSlaves := sv\<rparr>))))"

lemma fixServerAddr_7:
  "fixServerAddr raddr vd =
     (if length (vdServerAddr vd) < 7 then Inl SliceOutOfRange
      else if take 7 (vdServerAddr vd) = ''0.0.0.0''
      then Inr (vd\<lparr>vdServerAddr := splitN2 CHR '':'' raddr ! 0 @ drop 7 (vdServerAddr vd)\<rparr>)
      else Inr vd)"
proof -
  have "length ''0.0.0.0'' = 7" by simp
  then show ?thesis by (simp only: fixServerAddr_def)
qed

end
