(* ===== verification/Config.thy ===== *)
theory Config
  imports Forth
begin

text \<open>
  The command line of gproc (\<^verbatim>\<open>src/src/gproc/main.go\<close>): the flags with their defaults, how
  package \<^verbatim>\<open>flag\<close> reads them, the three values that are expressions for the evaluator of
  package \<^verbatim>\<open>forth\<close>, and the choice of a role.
\<close>

section \<open>Flags\<close>

record config =
  cfPrefix :: string
  cfLocalbin :: bool
  cfDoPrivateMount :: bool
  cfDebug :: bool
  cfFilesToTakeAlong :: string
  cfRoot :: string
  cfLibs :: string
  cfBinRoot :: string
  cfDefaultMasterUDS :: string
  cfIoProxyPort :: string
  cfCmdPort :: string
  cfDefaultFam :: string
  cfGprocBin :: string
  cfParent :: string
  cfMyAddress :: string
  cfMyId :: string

definition defaultConfig :: config where
  "defaultConfig =
     \<lparr>cfPrefix = [], cfLocalbin = False, cfDoPrivateMount = True, cfDebug = False,
      cfFilesToTakeAlong = [], cfRoot = [], cfLibs = ''/lib:/usr/lib'', cfBinRoot = ''/tmp/xproc'',
      cfDefaultMasterUDS = ''/tmp/g'', cfIoProxyPort = ''0'', cfCmdPort = ''6666'',
      cfDefaultFam = ''tcp4'', cfGprocBin = ''gproc'', cfParent = ''hostname'',
      cfMyAddress = ''hostname'', cfMyId = ''0''\<rparr>"

definition boolFlags :: "(string \<times> (bool \<Rightarrow> config \<Rightarrow> config)) list" where
  "boolFlags =
     [(''localbin'', \<lambda>b c. c\<lparr>cfLocalbin := b\<rparr>),
      (''p'', \<lambda>b c. c\<lparr>cfDoPrivateMount := b\<rparr>),
      (''debug'', \<lambda>b c. c\<lparr>cfDebug := b\<rparr>)]"

definition stringFlags :: "(string \<times> (string \<Rightarrow> config \<Rightarrow> config)) list" where
  "stringFlags =
     [(''prefix'', \<lambda>v c. c\<lparr>cfPrefix := v\<rparr>),
      (''f'', \<lambda>v c. c\<lparr>cfFilesToTakeAlong := v\<rparr>),
      (''r'', \<lambda>v c. c\<lparr>cfRoot := v\<rparr>),
      (''L'', \<lambda>v c. c\<lparr>cfLibs := v\<rparr>),
      (''binRoot'', \<lambda>v c. c\<lparr>cfBinRoot := v\<rparr>),
      (''defaultMasterUDS'', \<lambda>v c. c\<lparr>cfDefaultMasterUDS := v\<rparr>),
      (''iopp'', \<lambda>v c. c\<lparr>cfIoProxyPort := v\<rparr>),
      (''cmdport'', \<lambda>v c. c\<lparr>cfCmdPort := v\<rparr>),
      (''fam'', \<lambda>v c. c\<lparr>cfDefaultFam := v\<rparr>),
      (''gprocBin'', \<lambda>v c. c\<lparr>cfGprocBin := v\<rparr>),
      (''myParent'', \<lambda>v c. c\<lparr>cfParent := v\<rparr>),
      (''myAddress'', \<lambda>v c. c\<lparr>cfMyAddress := v\<rparr>),
      (''myId'', \<lambda>v c. c\<lparr>cfMyId := v\<rparr>)]"

section \<open>Package flag\<close>

text \<open>\<^verbatim>\<open>strconv.ParseBool\<close>.\<close>

definition parseBool :: "string \<Rightarrow> bool option" where
  "parseBool s =
     (if s \<in> set [''1'', ''t'', ''T'', ''true'', ''TRUE'', ''True''] then Some True
      else if s \<in> set [''0'', ''f'', ''F'', ''false'', ''FALSE'', ''False''] then Some False
      else None)"

text \<open>A flag argument without its hyphens is a name and, behind an equals sign, a value.\<close>

definition flagNameValue :: "string \<Rightarrow> string \<times> string option" where
  "flagNameValue s =
     (case splitN2 CHR ''='' s of
        [name] \<Rightarrow> (name, None)
      | name # val # _ \<Rightarrow> (name, Some val)
      | [] \<Rightarrow> ([], None))"

text \<open>
  \<^verbatim>\<open>flag.Parse\<close>: flags are read up to the first argument that is not one, or to \<^verbatim>\<open>--\<close>. Any
  error ends the program with status 2, here \<open>None\<close>.
\<close>

fun parseArgs :: "config \<Rightarrow> string list \<Rightarrow> (config \<times> string list) option" where
  "parseArgs c [] = Some (c, [])"
| "parseArgs c (s # args) =
     (if length s < 2 \<or> hd s \<noteq> CHR ''-'' then Some (c, s # args)
      else if s = ''--'' then Some (c, args)
      else
        (let body = (if s ! 1 = CHR ''-'' then drop 2 s else drop 1 s)
         in if body = [] \<or> hd body = CHR ''-'' \<or> hd body = CHR ''='' then None
            else (case flagNameValue body of (name, value) \<Rightarrow>
              (case map_of boolFlags name of
                 Some upd \<Rightarrow>
                   (case value of
                      None \<Rightarrow> parseArgs (upd True c) args
                    | Some v \<Rightarrow>
                        (case parseBool v of None \<Rightarrow> None | Some b \<Rightarrow> parseArgs (upd b c) args))
               | None \<Rightarrow>
                   (case map_of stringFlags name of
                      None \<Rightarrow> None
                    | Some upd \<Rightarrow>
                        (case value of
                           Some v \<Rightarrow> parseArgs (upd v c) args
                         | None \<Rightarrow>
                             (case args of [] \<Rightarrow> None | v # rest \<Rightarrow> parseArgs (upd v c) rest)))))))"

section \<open>Roles\<close>

datatype role =
    RoleMaster
  | RoleSlave
  | RoleExec string "string list"
  | RoleInfo
  | RoleRun
  | Usage

definition chooseRole :: "string list \<Rightarrow> role" where
  "chooseRole args =
     (let a0 = (if args = [] then [] else args ! 0)
      in if a0 \<in> set [''MASTER'', ''master'', ''m''] then (if length args > 1 then Usage else RoleMaster)
         else if a0 \<in> set [''WORKER'', ''worker'', ''s''] then (if length args \<noteq> 1 then Usage else RoleSlave)
         else if a0 \<in> set [''EXEC'', ''exec'', ''e''] then
           (if length args < 3 then Usage else RoleExec (args ! 1) (drop 2 args))
         else if a0 \<in> set [''INFO'', ''info'', ''i''] then (if length args > 1 then Usage else RoleInfo)
         else if a0 = ''R'' then RoleRun
         else Usage)"

text \<open>
  \<^verbatim>\<open>main\<close>: the three expressions are evaluated on one stack, in this order, and an error or a
  panic in one of them ends the program. The result is the configuration, the address to
  listen on and the role; an evaluation without enough fuel for its words is \<open>None\<close>.
\<close>

datatype start = Exit2 | Crash | Started config string role

definition evalFlag ::
  "string option \<Rightarrow> opmap \<Rightarrow> nat \<Rightarrow> string \<Rightarrow> forthstack \<Rightarrow> (string option \<times> forthstack) option" where
  "evalFlag host om n v f =
     (case Eval host om n v f of
        None \<Rightarrow> None
      | Some (Returned r None, g) \<Rightarrow> Some (Some r, g)
      | Some (Returned r (Some e), g) \<Rightarrow> Some (None, g)
      | Some (Panicked p, g) \<Rightarrow> Some (None, g))"

definition mainStart :: "string option \<Rightarrow> string list \<Rightarrow> start option" where
  "mainStart host argv =
     (case parseArgs defaultConfig argv of
        None \<Rightarrow> Some Exit2
      | Some (c, args) \<Rightarrow>
          (case evalFlag host opmap0 0 (cfMyId c) New of
             None \<Rightarrow> None
           | Some (None, _) \<Rightarrow> Some Crash
           | Some (Some i, f1) \<Rightarrow>
               (case evalFlag host opmap0 0 (cfMyAddress c) f1 of
                  None \<Rightarrow> None
                | Some (None, _) \<Rightarrow> Some Crash
                | Some (Some a, f2) \<Rightarrow>
                    (case evalFlag host opmap0 0 (cfParent c) f2 of
                       None \<Rightarrow> None
                     | Some (None, _) \<Rightarrow> Some Crash
                     | Some (Some p, f3) \<Rightarrow>
                         (let c' = c\<lparr>cfMyId := i, cfMyAddress := a, cfParent := p\<rparr>
                          in Some (Started c' (a @ '':'' @ cfCmdPort c') (chooseRole args)))))))"

section \<open>Reading flags\<close>

lemma flagNameValue_eq: "CHR ''='' \<notin> set n \<Longrightarrow> flagNameValue (n @ CHR ''='' # v) = (n, Some v)"
  by (simp add: flagNameValue_def)

text \<open>How a single argument of the form \<^verbatim>\<open>-name=value\<close> is read.\<close>

lemma parseArgs_eqArg:
  assumes "n \<noteq> []" and "hd n \<noteq> CHR ''-''" and "CHR ''='' \<notin> set n"
  shows "parseArgs c ((CHR ''-'' # n @ CHR ''='' # v) # args) =
    (case map_of boolFlags n of
       Some upd \<Rightarrow> (case parseBool v of None \<Rightarrow> None | Some b \<Rightarrow> parseArgs (upd b c) args)
     | None \<Rightarrow>
         (case map_of stringFlags n of
            None \<Rightarrow> None
          | Some upd \<Rightarrow> parseArgs (upd v c) args))"
proof -
  obtain h t where n: "n = h # t" using assms(1) by (cases n) auto
  with assms have "h \<noteq> CHR ''-''" "h \<noteq> CHR ''=''" by auto
  moreover have "flagNameValue (h # t @ CHR ''='' # v) = (n, Some v)"
    using flagNameValue_eq [OF assms(3)] n by simp
  ultimately show ?thesis using n by (simp split: option.split)
qed

end
