(* ===== verification/Slave.thy ===== *)
theory Slave
  imports Master Config
begin

text \<open>
  The slave (\<^verbatim>\<open>src/src/gproc/slave.go\<close>): how it joins its parent, the child process it starts
  for every command it is sent, what that process does (\<^verbatim>\<open>slaveProc\<close>) and the program it
  runs (\<^verbatim>\<open>runLocal\<close>). The state of a slave is a \<^verbatim>\<open>node\<close> as the master's; the child has one of
  its own, in which no slaves are registered.
\<close>

section \<open>Joining\<close>

text \<open>The checks of \<^verbatim>\<open>runSlave\<close>; a message is a panic of \<^verbatim>\<open>log_error\<close>.\<close>

definition slaveChecks :: "goint \<Rightarrow> config \<Rightarrow> string option" where
  "slaveChecks uid conf =
     (if cfDoPrivateMount conf \<and> uid \<noteq> 0 then Some ''Slave: Need to run as root for private mounts''
      else if cfParent conf = [] then Some ''Slave: must set parent IP with -myParent switch''
      else if cfMyAddress conf = [] then Some ''Slave: must set myAddress IP with -myAddress switch''
      else if cfMyId conf = [] then Some ''Slave: must set myId with -myId switch''
      else None)"

definition masterAddr :: "config \<Rightarrow> string" where
  "masterAddr conf = cfParent conf @ '':'' @ cfCmdPort conf"

text \<open>The address on which the slave listens for commands, from its end of the connection.\<close>

definition peerAddr :: "string \<Rightarrow> string" where
  "peerAddr laddr = split CHR '':'' laddr ! 0 @ '':0''"

definition slaveVital :: "config \<Rightarrow> string \<Rightarrow> string \<Rightarrow> string \<Rightarrow> vitalData" where
  "slaveVital conf laddr raddr server =
     \<lparr>vdHostReady = True, vdError = [], vdHostAddr = laddr, vdParentAddr = raddr,
      vdServerAddr = server, vdId = cfMyId conf, vdNodes = [], vdExceptlist = Map.empty\<rparr>"

text \<open>
  \<^verbatim>\<open>initSlave\<close> sends these data; the response sets \<^verbatim>\<open>id\<close>, and no response is a panic.
\<close>

definition initSlave :: "string option \<Rightarrow> string + string" where
  "initSlave resp = (case resp of None \<Rightarrow> Inl (''Can'' @ CHR 0x27 # ''t start slave'') | Some i \<Rightarrow> Inr i)"

section \<open>Starting the child process\<close>

definition showBool :: "bool \<Rightarrow> string" where
  "showBool b = (if b then ''true'' else ''false'')"

definition childArgv :: "config \<Rightarrow> string \<Rightarrow> string list" where
  "childArgv conf sid =
     [''gproc'',
      ''-debug='' @ showBool (cfDebug conf),
      ''-p='' @ showBool (cfDoPrivateMount conf),
      ''-binRoot='' @ cfBinRoot conf,
      ''-parent='' @ cfParent conf,
      ''-prefix='' @ sid,
      ''R'']"

text \<open>
  The slave's answer to its child: the nodes of the list the child has read, resolved to
  the addresses of the slave's own slaves.
\<close>

definition answerNodes ::
  "'c env \<Rightarrow> ('c, 'z) node_scheme \<Rightarrow> nodeExecList \<Rightarrow> runtime_error + nodeExecList" where
  "answerNodes env st ne =
     bindE (ServIntersect (slaveOrder env (nDials st) (nSlaves st)) (nSlaves st) (Nodes ne))
       (\<lambda>ns. Inr (ne\<lparr>Nodes := ns\<rparr>))"

section \<open>Running the program\<close>

record program =
  pgPath :: string
  pgArgv :: "string list"
  pgEnv :: "string list"
  pgDir :: string

fun ldLibPath :: "config \<Rightarrow> startReq \<Rightarrow> string list \<Rightarrow> string \<Rightarrow> string" where
  "ldLibPath conf req [] acc = acc"
| "ldLibPath conf req (s # ss) acc =
     ldLibPath conf req ss (acc @ cfBinRoot conf @ rqPath req @ s @ '':'')"

definition runLocal :: "config \<Rightarrow> startReq \<Rightarrow> runtime_error + program" where
  "runLocal conf req =
     (case rqArgs req of
        [] \<Rightarrow> Inl IndexOutOfRange
      | a0 # _ \<Rightarrow>
          (let pathbase = cfBinRoot conf;
               execpath = (if rqLocalBin req then a0 else pathbase @ rqPath req @ a0);
               env = rqEnv req @ [ldLibPath conf req (rqLibList req) ''LD_LIBRARY_PATH='']
           in Inr \<lparr>pgPath = execpath, pgArgv = rqArgs req, pgEnv = env,
                   pgDir = pathbase @ ''/'' @ rqCwd req\<rparr>))"

section \<open>The child process\<close>

text \<open>
  What the child finds: whether the private mount works, whether the parent's proxy for the
  input and output can be dialled, the address its own proxy gets if it can listen, and the answer of
  the slave that started it. How it ends: it waits for a number of workers below it and for
  its own program, or it stops before that.
\<close>

record childEnv =
  ceMountOk :: bool
  ceProxyUp :: bool
  ceListen :: "string option"
  ceAnswer :: "nodeExecList \<Rightarrow> nodeExecList option"

datatype childEnd = ChildPanic | NoProxy | BadNodes | NoAnswer | WaitsFor goint

text \<open>
  The result has the program it starts (or the panic in starting it), what it asks the slave
  for, and its end; the requests it sends are in the state. \<open>None\<close> is a node list whose
  range never ends.
\<close>

record childRun =
  crStarted :: "(runtime_error + program) option"
  crAsked :: "nodeExecList option"
  crEnd :: childEnd

definition useProxy :: "childEnv \<Rightarrow> nodeExecList \<Rightarrow> startReq \<Rightarrow> startReq option" where
  "useProxy ce avail req =
     (if length (Nodes avail) > 0
      then (case ceListen ce of
              None \<Rightarrow> None
            | Some addr \<Rightarrow> Some (req\<lparr>rqLfam := ''tcp'', rqLserver := addr\<rparr>))
      else Some req)"

definition slaveProc ::
  "config \<Rightarrow> 'c env \<Rightarrow> childEnv \<Rightarrow> startReq option \<Rightarrow> ('c, 'z) node_scheme
     \<Rightarrow> (childRun \<times> ('c, 'z) node_scheme) option" where
  "slaveProc conf env ce received st =
     (if cfDoPrivateMount conf \<and> \<not> ceMountOk ce
      then Some (\<lparr>crStarted = None, crAsked = None, crEnd = ChildPanic\<rparr>, st)
      else case received of
        None \<Rightarrow> Some (\<lparr>crStarted = None, crAsked = None, crEnd = ChildPanic\<rparr>, st)
      | Some req \<Rightarrow>
          if \<not> ceProxyUp ce
          then Some (\<lparr>crStarted = None, crAsked = None, crEnd = NoProxy\<rparr>, st)
          else
            (let started = Some (runLocal conf req)
             in case parseNodeList (rqNodes req) of
                  None \<Rightarrow> None
                | Some (slaveNodes, Some err) \<Rightarrow>
                    Some (\<lparr>crStarted = started, crAsked = None, crEnd = BadNodes\<rparr>, st)
                | Some ([], None) \<Rightarrow>
                    Some (\<lparr>crStarted = started, crAsked = None, crEnd = ChildPanic\<rparr>, st)
                | Some (ne # _, None) \<Rightarrow>
                    (case ceAnswer ce ne of
                       None \<Rightarrow> Some (\<lparr>crStarted = started, crAsked = Some ne, crEnd = NoAnswer\<rparr>, st)
                     | Some avail \<Rightarrow>
                         (case useProxy ce avail req of
                            None \<Rightarrow> Some (\<lparr>crStarted = started, crAsked = Some ne, crEnd = ChildPanic\<rparr>, st)
                          | Some req1 \<Rightarrow>
                              (case sendCommandsToANodeSet env req1 (Subnodes ne) (cfBinRoot conf)
                                  (Nodes avail) st of
                                 (nnodes, req2, st') \<Rightarrow>
                                   Some (\<lparr>crStarted = started, crAsked = Some ne,
                                          crEnd = WaitsFor (of_nat (length (Nodes avail)))\<rparr>, st'))))))"

text \<open>The registry with which the child starts.\<close>

definition childNode :: "'c node" where
  "childNode = \<lparr>nSlaves = newSlaves, nDials = 0, nSent = []\<rparr>"

end
