(* ===== verification/MasterProps.thy ===== *)
theory MasterProps
  imports Master "HOL-Library.List_Lexorder" "HOL-Library.Char_ord"
begin

text \<open>
  What the master guarantees: the number it reports is the number of requests it sent, it
  sends only to registered slaves and forgets those it cannot reach, and its state stays
  consistent whatever its users and slaves do.
\<close>

section \<open>One set of nodes\<close>

text \<open>The attempts to dial a list of addresses, counted from \<open>n\<close>.\<close>

fun attempts :: "'c env \<Rightarrow> nat \<Rightarrow> string list \<Rightarrow> (string \<times> bool) list" where
  "attempts env n [] = []"
| "attempts env n (s # ss) = (s, dialOk env n s) # attempts env (Suc n) ss"

definition reached :: "'c env \<Rightarrow> nat \<Rightarrow> string list \<Rightarrow> string list" where
  "reached env n ss = map fst (filter snd (attempts env n ss))"

definition unreached :: "'c env \<Rightarrow> nat \<Rightarrow> string list \<Rightarrow> string list" where
  "unreached env n ss = map fst (filter (\<lambda>x. \<not> snd x) (attempts env n ss))"

lemma reached_simps [simp]:
  "reached env n [] = []"
  "reached env n (s # ss) = (if dialOk env n s then s # reached env (Suc n) ss else reached env (Suc n) ss)"
  "unreached env n [] = []"
  "unreached env n (s # ss) = (if dialOk env n s then unreached env (Suc n) ss else s # unreached env (Suc n) ss)"
  by (simp_all add: reached_def unreached_def)

lemma set_reached: "set (reached env n ss) \<subseteq> set ss" "set (unreached env n ss) \<subseteq> set ss"
  by (induction ss arbitrary: n) (auto split: if_splits)

definition forget :: "string \<Rightarrow> 'c slaves \<Rightarrow> 'c slaves" where
  "forget s sv = (case Get sv s of None \<Rightarrow> sv | Some si \<Rightarrow> Remove sv si)"

lemma sendEach_eq:
  "sendEach env req root ss k st =
     (k + of_nat (length (reached env (nDials st) ss)),
      st\<lparr>nDials := nDials st + length ss,
         nSent := nSent st @ map (\<lambda>s. (s, relayReq req root)) (reached env (nDials st) ss),
         nSlaves := fold forget (unreached env (nDials st) ss) (nSlaves st)\<rparr>)"
proof (induction ss arbitrary: k st)
  case (Cons s ss)
  show ?case
  proof (cases "dialOk env (nDials st) s")
    case True
    then show ?thesis
      by (simp add: cacheRelayFilesAndDelegateExec_def Let_def Cons.IH)
  next
    case False
    then show ?thesis
      by (cases "Get (nSlaves st) s")
        (simp_all add: cacheRelayFilesAndDelegateExec_def Let_def Cons.IH forget_def)
  qed
qed simp

lemma forget_names:
  assumes "slaves_inv sv"
  shows "slaves_inv (fold forget ns sv)"
    and "nodesOf (fold forget ns sv) = {(i, a) \<in> nodesOf sv. i \<notin> set ns \<and> a \<notin> set ns}"
proof -
  have f: "fold forget ns sv
      = fold (\<lambda>n s. case Get s n of None \<Rightarrow> s | Some i \<Rightarrow> Remove s i) ns sv"
    unfolding forget_def ..
  note d = reg.drop_names [OF assms, of ns, folded f]
  from d show "slaves_inv (fold forget ns sv)" by blast
  from d have "member (fold forget ns sv) j \<longleftrightarrow> member sv j \<and> (\<forall>n\<in>set ns. \<not> named j n)" for j by blast
  then show "nodesOf (fold forget ns sv) = {(i, a) \<in> nodesOf sv. i \<notin> set ns \<and> a \<notin> set ns}"
    by (auto simp: nodesOf_def named_def)
qed

text \<open>
  C19. \<^verbatim>\<open>sendCommandsToANodeSet\<close> returns the number of addresses it could dial. To each of
  them, in order, it has sent the request with the node list of the next level and the
  files of the command; the slaves it could not dial, whether given by identifier or by
  address, are gone from the registry, and no others.
\<close>
theorem sendCommandsToANodeSet_spec:
  assumes "slaves_inv (nSlaves st)"
    and "sendCommandsToANodeSet env req subs root ss st = (n, req', st')"
  shows "n = of_nat (length (reached env (nDials st) ss)) \<and>
    req' = req\<lparr>rqNodes := subs\<rparr> \<and>
    nSent st' = nSent st @
      map (\<lambda>s. (s, (relayReq req root)\<lparr>rqNodes := subs\<rparr>)) (reached env (nDials st) ss) \<and>
    slaves_inv (nSlaves st') \<and>
    nodesOf (nSlaves st') =
      {(i, a) \<in> nodesOf (nSlaves st).
        i \<notin> set (unreached env (nDials st) ss) \<and> a \<notin> set (unreached env (nDials st) ss)}"
  using assms(2) forget_names [OF assms(1), of "unreached env (nDials st) ss"]
  by (auto simp: sendCommandsToANodeSet_def sendEach_eq relayReq_Nodes)

section \<open>A node list\<close>

definition okOrder :: "'c env \<Rightarrow> bool" where
  "okOrder env \<longleftrightarrow> (\<forall>n sv. finite (dom (Slaves sv)) \<longrightarrow> keyOrder (slaveOrder env n sv) (Slaves sv))"

definition selectNodes :: "'c env \<Rightarrow> nat \<Rightarrow> 'c slaves \<Rightarrow> string list \<Rightarrow> string list" where
  "selectNodes env n sv ns =
     (if hd ns = ''.'' then map (\<lambda>k. siServer (the (Slaves sv k))) (slaveOrder env n sv)
      else gets sv ns)"

lemma ServIntersect_select:
  "ns \<noteq> [] \<Longrightarrow> ServIntersect (slaveOrder env n sv) sv ns = Inr (selectNodes env n sv ns)"
  by (cases ns) (auto simp: selectNodes_def)

lemma set_gets: "slaves_inv sv \<Longrightarrow> set (gets sv ns) \<subseteq> snd ` nodesOf sv"
proof -
  assume inv: "slaves_inv sv"
  have "siServer s \<in> snd ` nodesOf sv" if "Get sv n = Some s" for n s
    using that reg.lookup_iff [OF inv, of n s] by (force simp: nodesOf_def)
  then show ?thesis by (auto simp: gets_filter map_filter_def split: option.splits)
qed

lemma set_selectNodes:
  assumes inv: "slaves_inv sv" and "okOrder env"
  shows "set (selectNodes env n sv ns) \<subseteq> snd ` nodesOf sv"
proof (cases "hd ns = ''.''")
  case True
  have "siServer (the (Slaves sv k)) \<in> snd ` nodesOf sv" if "k \<in> dom (Slaves sv)" for k
  proof -
    from that obtain s where s: "Slaves sv k = Some s" by blast
    with slaves_invD(1) [OF inv] have "member sv s" by (simp add: member_def)
    with s show ?thesis by (force simp: nodesOf_def)
  qed
  moreover from assms(2) have "set (slaveOrder env n sv) = dom (Slaves sv)"
    using slaves_invD(7) [OF inv] by (simp add: okOrder_def)
  ultimately have "\<forall>k\<in>set (slaveOrder env n sv). siServer (the (Slaves sv k)) \<in> snd ` nodesOf sv" by blast
  with True show ?thesis by (simp add: selectNodes_def image_subset_iff del: in_set_conv_nth)
next
  case False
  then show ?thesis using set_gets [OF inv] by (simp add: selectNodes_def)
qed

text \<open>What sending to a list of entries adds to the log, and that it only removes slaves.\<close>

lemma sendEntries_spec:
  assumes "slaves_inv (nSlaves st)" and "okOrder env" and "\<forall>ne\<in>set es. Nodes ne \<noteq> []"
  shows "\<exists>news st'. sendEntries env req root es k st = (Inr (k + of_nat (length news)), st') \<and>
    nSent st' = nSent st @ news \<and> slaves_inv (nSlaves st') \<and>
    nodesOf (nSlaves st') \<subseteq> nodesOf (nSlaves st) \<and>
    (\<forall>(s, q)\<in>set news. s \<in> snd ` nodesOf (nSlaves st) \<and>
       (\<exists>ne\<in>set es. q = (relayReq req root)\<lparr>rqNodes := Subnodes ne\<rparr>))"
  using assms(1,3)
proof (induction es arbitrary: req k st)
  case Nil
  then show ?case by (intro exI [of _ "[]"] exI [of _ st]) simp
next
  case (Cons e es)
  let ?ss = "selectNodes env (nDials st) (nSlaves st) (Nodes e)"
  from Cons.prems(2) have "Nodes e \<noteq> []" by simp
  note si = ServIntersect_select [OF this, of env "nDials st" "nSlaves st"]
  obtain n req' st1 where s1: "sendCommandsToANodeSet env req (Subnodes e) root ?ss st = (n, req', st1)"
    by (cases "sendCommandsToANodeSet env req (Subnodes e) root ?ss st")
  let ?news = "map (\<lambda>s. (s, (relayReq req root)\<lparr>rqNodes := Subnodes e\<rparr>)) (reached env (nDials st) ?ss)"
  from s1 forget_names [OF Cons.prems(1), of "unreached env (nDials st) ?ss"]
  have n: "n = of_nat (length ?news)" and r': "req' = req\<lparr>rqNodes := Subnodes e\<rparr>"
    and sent: "nSent st1 = nSent st @ ?news" and inv1: "slaves_inv (nSlaves st1)"
    and sub1: "nodesOf (nSlaves st1) \<subseteq> nodesOf (nSlaves st)"
    by (auto simp: sendCommandsToANodeSet_def sendEach_eq relayReq_Nodes)
  from Cons.IH [OF inv1, of req' "k + n"] Cons.prems(2) obtain news2 st2 where
    s2: "sendEntries env req' root es (k + n) st1 = (Inr (k + n + of_nat (length news2)), st2)"
    and sent2: "nSent st2 = nSent st1 @ news2" and inv2: "slaves_inv (nSlaves st2)"
    and sub2: "nodesOf (nSlaves st2) \<subseteq> nodesOf (nSlaves st1)"
    and q2: "\<forall>(s, q)\<in>set news2. s \<in> snd ` nodesOf (nSlaves st1) \<and>
       (\<exists>ne\<in>set es. q = (relayReq req' root)\<lparr>rqNodes := Subnodes ne\<rparr>)"
    by auto
  have q2': "s \<in> snd ` nodesOf (nSlaves st) \<and>
      (\<exists>ne\<in>set (e # es). q = (relayReq req root)\<lparr>rqNodes := Subnodes ne\<rparr>)"
    if "(s, q) \<in> set news2" for s q
    using q2 that sub1 unfolding r' relayReq_Nodes by fastforce
  have "set (reached env (nDials st) ?ss) \<subseteq> snd ` nodesOf (nSlaves st)"
    using set_reached(1) set_selectNodes [OF Cons.prems(1) assms(2)] by blast
  then have q1: "s \<in> snd ` nodesOf (nSlaves st) \<and>
      (\<exists>ne\<in>set (e # es). q = (relayReq req root)\<lparr>rqNodes := Subnodes ne\<rparr>)"
    if "(s, q) \<in> set ?news" for s q using that by auto
  have "sendEntries env req root (e # es) k st = (Inr (k + of_nat (length (?news @ news2))), st2)"
    using s2 n by (simp add: si s1 algebra_simps)
  moreover have "nSent st2 = nSent st @ ?news @ news2" using sent sent2 by simp
  moreover have "nodesOf (nSlaves st2) \<subseteq> nodesOf (nSlaves st)" using sub1 sub2 by blast
  moreover have "\<forall>(s, q)\<in>set (?news @ news2). s \<in> snd ` nodesOf (nSlaves st) \<and>
      (\<exists>ne\<in>set (e # es). q = (relayReq req root)\<lparr>rqNodes := Subnodes ne\<rparr>)"
    using q1 q2' unfolding set_append by blast
  ultimately show ?case using inv2 by blast
qed

lemma sendCommandsToNodes_spec:
  assumes inv: "slaves_inv (nSlaves st)" and "okOrder env"
    and run: "sendCommandsToNodes env req root st = Some (replies, r, st')"
  shows "\<exists>news es err. parseNodeList (rqNodes req) = Some (es, err) \<and>
    r = Inr (of_nat (length news)) \<and> nSent st' = nSent st @ news \<and>
    slaves_inv (nSlaves st') \<and> nodesOf (nSlaves st') \<subseteq> nodesOf (nSlaves st) \<and>
    (err \<noteq> None \<longrightarrow> news = [] \<and> st' = st) \<and>
    (\<forall>(s, q)\<in>set news. s \<in> snd ` nodesOf (nSlaves st) \<and>
       (\<exists>ne\<in>set es. q = (relayReq req root)\<lparr>rqNodes := Subnodes ne\<rparr>))"
proof -
  from run obtain es err where p: "parseNodeList (rqNodes req) = Some (es, err)"
    by (cases "parseNodeList (rqNodes req)") (auto simp: sendCommandsToNodes_def)
  show ?thesis
  proof (cases err)
    case (Some e)
    with p run inv show ?thesis
      by (intro exI [of _ "[]"] exI [of _ es] exI [of _ err]) (simp add: sendCommandsToNodes_def)
  next
    case None
    have "\<forall>ne\<in>set es. Nodes ne \<noteq> []" using parseNodeList_entries [OF p] by (metis entry_Nodes)
    from sendEntries_spec [OF inv assms(2) this, of req root 0] p None run
    show ?thesis by (fastforce simp: sendCommandsToNodes_def)
  qed
qed

text \<open>
  A network in which one address cannot be dialled, and a master with one slave.
\<close>

definition demoEnv :: "unit env" where
  "demoEnv =
     \<lparr>dialOk = (\<lambda>n s. s \<noteq> ''10.0.0.2:5000''),
      slaveOrder = (\<lambda>n sv. sorted_list_of_set (dom (Slaves sv))),
      exceptOrder = (\<lambda>m. sorted_list_of_set (dom m)),
      infoOrder = (\<lambda>m. sorted_list_of_set (dom m))\<rparr>"

lemma demoEnv_order: "okOrder demoEnv"
  by (simp add: okOrder_def demoEnv_def)

definition demoMaster :: "unit master" where
  "demoMaster = startMaster\<lparr>nSlaves := snd (Add newSlaves vd1 ())\<rparr>"

lemma demoMaster_inv: "slaves_inv (nSlaves demoMaster)"
  using Add_inv [OF slaves_inv_new fresh_vd1] by (simp add: demoMaster_def)

theorem sendCommandsToANodeSet_spec_witness:
  "fst (sendCommandsToANodeSet demoEnv zeroReq ''2'' [] [''10.0.0.1:5000'', ''10.0.0.2:5000''] demoMaster) = 1"
proof -
  obtain n req' st' where
    "sendCommandsToANodeSet demoEnv zeroReq ''2'' [] [''10.0.0.1:5000'', ''10.0.0.2:5000''] demoMaster
      = (n, req', st')" by (rule prod_cases3)
  with sendCommandsToANodeSet_spec [OF demoMaster_inv this] show ?thesis
    by (simp add: demoEnv_def demoMaster_def startMaster_def)
qed

text \<open>
  The number that the master reports to the user is the number of requests it has sent
  for the command, and it never panics over the node list. Each of them went to a slave
  that was registered when the command arrived, and carries the files of the command and
  the node list that an entry of the command has for the next level. A bad node list sends
  nothing and changes nothing.
\<close>
theorem sendCommandsToNodes_count:
  assumes "slaves_inv (nSlaves st)" and "okOrder env"
    and "sendCommandsToNodes env req root st = Some (replies, r, st')"
  shows "\<exists>news es err. parseNodeList (rqNodes req) = Some (es, err) \<and>
    r = Inr (of_nat (length news)) \<and> nSent st' = nSent st @ news \<and>
    slaves_inv (nSlaves st') \<and> nodesOf (nSlaves st') \<subseteq> nodesOf (nSlaves st) \<and>
    (err \<noteq> None \<longrightarrow> news = [] \<and> st' = st) \<and>
    (\<forall>(s, q)\<in>set news. s \<in> snd ` nodesOf (nSlaves st) \<and>
       (\<exists>ne\<in>set es. q = (relayReq req root)\<lparr>rqNodes := Subnodes ne\<rparr>))"
  using assms by (rule sendCommandsToNodes_spec)

theorem sendCommandsToNodes_count_witness:
  "\<exists>st'. sendCommandsToNodes demoEnv (zeroReq\<lparr>rqNodes := ''1''\<rparr>) [] demoMaster
     = Some ([], Inr (of_nat (length (nSent st'))), st')"
proof -
  have "parseNodeList ''1'' = Some ([\<lparr>Nodes = [''1''], Subnodes = []\<rparr>], None)"
    by (simp add: parseNodeList_def parseOne_def splitN2_def)
  then have run: "sendCommandsToNodes demoEnv (zeroReq\<lparr>rqNodes := ''1''\<rparr>) [] demoMaster
      = Some ([], sendEntries demoEnv (zeroReq\<lparr>rqNodes := ''1''\<rparr>) [] [\<lparr>Nodes = [''1''], Subnodes = []\<rparr>] 0 demoMaster)"
    by (simp add: sendCommandsToNodes_def)
  obtain r st' where se: "sendEntries demoEnv (zeroReq\<lparr>rqNodes := ''1''\<rparr>) [] [\<lparr>Nodes = [''1''], Subnodes = []\<rparr>] 0 demoMaster
      = (r, st')" by (rule prod.exhaust)
  from sendCommandsToNodes_count [OF demoMaster_inv demoEnv_order run [unfolded se]]
  have "r = Inr (of_nat (length (nSent st')))" by (auto simp: demoMaster_def startMaster_def)
  with run se show ?thesis by (intro exI [of _ st']) (simp only:)
qed

end
