(* ===== verification/MasterRuns.thy ===== *)
theory MasterRuns
  imports MasterProps
begin

text \<open>
  The runs of a master: from its start, connections of slaves and of users arrive in any
  order. A run ends with a handler that panics or never returns. What holds in every state
  a run reaches is proved by induction on the run.
\<close>

datatype 'c event = SlaveConn string 'c "vitalData option" | UserConn "startReq option"

text \<open>A slave that is new to the master: a restarted slave is a different case.\<close>

definition newSlave :: "'c slaves \<Rightarrow> vitalData \<Rightarrow> bool" where
  "newSlave sv vd \<longleftrightarrow> fresh sv vd \<and> vdServerAddr vd \<noteq> []"

inductive mrun :: "'c env \<Rightarrow> 'c event list \<Rightarrow> 'c master \<Rightarrow> bool" for env where
  Start: "mrun env [] startMaster"
| NoVital: "mrun env tr m \<Longrightarrow> mrun env (tr @ [SlaveConn raddr c None]) m"
| Slave: "mrun env tr m \<Longrightarrow> fixServerAddr raddr vd = Inr vd' \<Longrightarrow> newSlave (nSlaves m) vd' \<Longrightarrow>
    registerSlave raddr c (Some vd) m = (Inr resp, m') \<Longrightarrow>
    mrun env (tr @ [SlaveConn raddr c (Some vd)]) m'"
| User: "mrun env tr m \<Longrightarrow> serveCmd env received m = Some (replies, None, m') \<Longrightarrow>
    mrun env (tr @ [UserConn received]) m'"

inductive_cases mrun_NilE: "mrun env [] m"

section \<open>What the events of a run say\<close>

fun joined :: "'c event \<Rightarrow> (string \<times> string) set" where
  "joined (SlaveConn raddr c (Some vd)) =
     (case fixServerAddr raddr vd of Inl _ \<Rightarrow> {} | Inr vd' \<Rightarrow> {(vdId vd', vdServerAddr vd')})"
| "joined _ = {}"

fun excepted :: "'c event \<Rightarrow> string set" where
  "excepted (UserConn (Some a)) =
     (if rqCommand a \<noteq> [] \<and> rqCommand a ! 0 = CHR ''x'' then set (rqArgs a) else {})"
| "excepted _ = {}"

definition okEnv :: "'c env \<Rightarrow> bool" where
  "okEnv env \<longleftrightarrow> okOrder env \<and>
     (\<forall>m. finite (dom m) \<longrightarrow> keyOrder (exceptOrder env m) m) \<and>
     (\<forall>m. finite (dom m) \<longrightarrow> keyOrder (infoOrder env m) m)"

definition master_inv :: "'c event list \<Rightarrow> 'c master \<Rightarrow> bool" where
  "master_inv tr m \<longleftrightarrow>
     slaves_inv (nSlaves m) \<and> [] \<notin> dom (Addr2id (nSlaves m)) \<and>
     nodesOf (nSlaves m) \<subseteq> (\<Union>e\<in>set tr. joined e) \<and>
     fst ` set (nSent m) \<subseteq> snd ` (\<Union>e\<in>set tr. joined e) \<and>
     (\<forall>s. mExceptFiles m s = (if s \<in> (\<Union>e\<in>set tr. excepted e) then Some True else None)) \<and>
     set (mExceptList m) = (\<Union>e\<in>set tr. excepted e) \<and>
     (vdHostReady (mVital m) \<longrightarrow> mNetaddr m \<noteq> [] \<and> vdHostAddr (mVital m) = mNetaddr m \<and> vdError (mVital m) = []) \<and>
     (nSent m \<noteq> [] \<longrightarrow> vdHostReady (mVital m))"

lemma newSlaves_sel [simp]: "Slaves newSlaves = Map.empty" "Addr2id newSlaves = Map.empty"
  by (simp_all add: newSlaves_def)

lemma master_inv_start: "master_inv [] startMaster"
  by (simp add: master_inv_def startMaster_def)

lemma foldl_except: "foldl (\<lambda>ef s. ef(s \<mapsto> True)) m args x = (if x \<in> set args then Some True else m x)"
  by (induction args arbitrary: m) auto

lemma refreshVital_sel [simp]:
  "nSlaves (refreshVital m) = nSlaves m" "nSent (refreshVital m) = nSent m"
  "mNetaddr (refreshVital m) = mNetaddr m" "mExceptFiles (refreshVital m) = mExceptFiles m"
  "mExceptList (refreshVital m) = mExceptList m" "nDials (refreshVital m) = nDials m"
  by (simp_all add: refreshVital_def)

lemma refreshVital_vital:
  "mNetaddr m \<noteq> [] \<Longrightarrow> vdHostReady (mVital (refreshVital m)) \<and>
     vdHostAddr (mVital (refreshVital m)) = mNetaddr m \<and> vdError (mVital (refreshVital m)) = []"
  "mNetaddr m = [] \<Longrightarrow> refreshVital m = m"
  by (simp_all add: refreshVital_def)

lemma master_inv_refresh: "master_inv tr m \<Longrightarrow> master_inv tr (refreshVital m)"
  by (cases "mNetaddr m = []") (auto simp: refreshVital_vital master_inv_def)

lemma master_inv_more:
  assumes "master_inv tr m" and "excepted e = {}"
  shows "master_inv (tr @ [e]) m"
  using assms unfolding master_inv_def by (simp add: image_Un) blast

lemma dom_Addr2id_nodesOf: "slaves_inv sv \<Longrightarrow> dom (Addr2id sv) = snd ` nodesOf sv"
proof (intro equalityI subsetI)
  fix a assume inv: "slaves_inv sv" and "a \<in> dom (Addr2id sv)"
  then obtain k s where "Slaves sv k = Some s" "siServer s = a" using slaves_invD(4) by blast
  with slaves_invD(1) [OF inv] have "member sv s" by (auto simp: member_def)
  with \<open>siServer s = a\<close> show "a \<in> snd ` nodesOf sv" by (force simp: nodesOf_def)
next
  fix a assume inv: "slaves_inv sv" and "a \<in> snd ` nodesOf sv"
  then obtain s where "member sv s" "siServer s = a" by (auto simp: nodesOf_def)
  with slaves_invD(3) [OF inv] show "a \<in> dom (Addr2id sv)" by (force simp: member_def)
qed

lemma master_invD:
  assumes "master_inv tr m"
  shows "slaves_inv (nSlaves m)" and "[] \<notin> dom (Addr2id (nSlaves m))"
    and "nodesOf (nSlaves m) \<subseteq> (\<Union>e\<in>set tr. joined e)"
    and "fst ` set (nSent m) \<subseteq> snd ` (\<Union>e\<in>set tr. joined e)"
  using assms [unfolded master_inv_def] by (simp_all only: simp_thms)

lemma master_inv_blank: "master_inv tr m \<Longrightarrow> [] \<notin> snd ` nodesOf (nSlaves m)"
  using dom_Addr2id_nodesOf [OF master_invD(1)] master_invD(2) by metis

lemma finite_excepted: "finite (excepted e)"
  by (cases e rule: excepted.cases) simp_all

lemma registerSlave_inv:
  assumes inv: "master_inv tr m" and f: "fixServerAddr raddr vd = Inr vd'"
    and new: "newSlave (nSlaves m) vd'" and run: "registerSlave raddr c (Some vd) m = (Inr resp, m')"
  shows "master_inv (tr @ [SlaveConn raddr c (Some vd)]) m'"
proof -
  let ?sv = "snd (Add (nSlaves m) vd' c)"
  from run f have m': "m' = m\<lparr>mNetaddr := learnNetaddr vd (mNetaddr m), nSlaves := ?sv\<rparr>"
    by (cases "Add (nSlaves m) vd' c") (simp add: registerSlave_def Let_def)
  from inv new have "slaves_inv (nSlaves m)" and fr: "fresh (nSlaves m) vd'"
    by (simp_all add: master_inv_def newSlave_def)
  note add = Add_inv [OF this, of c] nodesOf_Add [OF fr, of c]
  have net: "mNetaddr m \<noteq> [] \<Longrightarrow> learnNetaddr vd (mNetaddr m) = mNetaddr m"
    by (simp add: learnNetaddr_def)
  from inv new have "[] \<notin> dom (Addr2id ?sv)"
    unfolding dom_Addr2id_nodesOf [OF add(1)] add(2)
    using master_inv_blank [OF inv] by (auto simp: newSlave_def)
  with inv add net f show ?thesis
    unfolding master_inv_def m' by (auto simp: image_Un)
qed

lemma sendEntries_frame:
  fixes st :: "'c master"
  shows "sendEntries env req root es k st = (r, st') \<Longrightarrow>
    mNetaddr st' = mNetaddr st \<and> mExceptFiles st' = mExceptFiles st \<and>
    mExceptList st' = mExceptList st \<and> mVital st' = mVital st"
proof (induction es arbitrary: req k st)
  case (Cons e es)
  show ?case
  proof (cases "ServIntersect (slaveOrder env (nDials st) (nSlaves st)) (nSlaves st) (Nodes e)")
    case (Inl p)
    with Cons.prems show ?thesis by simp
  next
    case (Inr ss)
    with Cons.prems obtain n req' st1 where
      s1: "sendCommandsToANodeSet env req (Subnodes e) root ss st = (n, req', st1)"
      and s2: "sendEntries env req' root es (k + n) st1 = (r, st')"
      by (auto split: prod.splits)
    from s1 have "mNetaddr st1 = mNetaddr st \<and> mExceptFiles st1 = mExceptFiles st \<and>
        mExceptList st1 = mExceptList st \<and> mVital st1 = mVital st"
      by (auto simp: sendCommandsToANodeSet_def sendEach_eq Let_def)
    with Cons.IH [OF s2] show ?thesis by simp
  qed
qed simp

lemma sendCommandsToNodes_frame:
  fixes st :: "'c master"
  assumes "sendCommandsToNodes env req root st = Some (rs, r, st')"
  shows "mNetaddr st' = mNetaddr st \<and> mExceptFiles st' = mExceptFiles st \<and>
    mExceptList st' = mExceptList st \<and> mVital st' = mVital st"
  using assms sendEntries_frame
  by (fastforce simp: sendCommandsToNodes_def split: option.splits)

lemma serveCmd_inv:
  fixes env :: "'c env"
  assumes env: "okEnv env" and inv: "master_inv tr m0"
    and run: "serveCmd env received m0 = Some (replies, None, m')"
  shows "master_inv (tr @ [UserConn received]) m'"
proof -
  define m where "m = refreshVital m0"
  have im: "master_inv tr m" unfolding m_def using inv by (rule master_inv_refresh)
  note run = run [unfolded serveCmd_def, folded m_def]
  show ?thesis
  proof (cases received)
    case None
    with run im show ?thesis by (auto simp: master_inv_more Let_def)
  next
    case (Some a)
    show ?thesis
    proof (cases "rqCommand a")
      case Nil
      with run Some show ?thesis by (simp add: Let_def)
    next
      case (Cons cc cs)
      consider (x) "cc = CHR ''x''" | (e) "cc = CHR ''e''" | (o) "cc \<noteq> CHR ''x''" "cc \<noteq> CHR ''e''" by blast
      then show ?thesis
      proof cases
        case x
        with run Some Cons have m': "m' = acceptExcepts env (rqArgs a) m" by (simp add: Let_def)
        let ?ef = "foldl (\<lambda>ef s. ef(s \<mapsto> True)) (mExceptFiles m) (rqArgs a)"
        have "?ef s = (if s \<in> (\<Union>e\<in>set tr. excepted e) \<union> set (rqArgs a) then Some True else None)" for s
          using im by (simp add: foldl_except master_inv_def)
        moreover from this have d: "dom ?ef = (\<Union>e\<in>set tr. excepted e) \<union> set (rqArgs a)" by (auto split: if_splits)
        then have "finite (dom ?ef)" by (simp add: finite_excepted)
        then have "set (exceptOrder env ?ef) = dom ?ef" using env by (simp add: okEnv_def)
        ultimately show ?thesis
          using im Some Cons x d unfolding m' acceptExcepts_def master_inv_def
          by (simp add: Let_def image_Un Un_commute)
      next
        case e
        have nx: "excepted (UserConn received :: 'c event) = {}" using Some Cons e by simp
        show ?thesis
        proof (cases "vdHostReady (mVital m)")
          case False
          with run Some Cons e have "m' = m" by (simp add: Let_def)
          with im nx show ?thesis by (simp add: master_inv_more)
        next
          case True
          with run Some Cons e obtain rs n where
            sc: "sendCommandsToNodes env a [] m = Some (rs, Inr n, m')"
            by (auto simp: Let_def split: option.splits sum.splits)
          from im env have "slaves_inv (nSlaves m)" "okOrder env" by (simp_all add: master_inv_def okEnv_def)
          from sendCommandsToNodes_spec [OF this sc] obtain news where
            sent: "nSent m' = nSent m @ news" and i: "slaves_inv (nSlaves m')"
            and sub: "nodesOf (nSlaves m') \<subseteq> nodesOf (nSlaves m)"
            and to: "fst ` set news \<subseteq> snd ` nodesOf (nSlaves m)" by force
          have rest: "mNetaddr m' = mNetaddr m \<and> mExceptFiles m' = mExceptFiles m \<and>
              mExceptList m' = mExceptList m \<and> mVital m' = mVital m"
            using sendCommandsToNodes_frame [OF sc] by simp
          have "[] \<notin> dom (Addr2id (nSlaves m'))"
            using master_inv_blank [OF im] sub unfolding dom_Addr2id_nodesOf [OF i] by blast
          moreover have "fst ` set (nSent m') \<subseteq> snd ` (\<Union>e\<in>set tr. joined e)"
          proof -
            note n = master_invD(3) [OF im] and old = master_invD(4) [OF im]
            from to image_mono [OF n, of snd]
            have "fst ` set news \<subseteq> snd ` (\<Union>e\<in>set tr. joined e)" by (rule subset_trans)
            with old show ?thesis by (simp only: sent set_append image_Un Un_subset_iff)
          qed
          ultimately have "master_inv tr m'"
            using im rest i True subset_trans [OF sub] unfolding master_inv_def by simp
          with nx show ?thesis by (simp add: master_inv_more)
        qed
      next
        case o
        with run Some Cons have "m' = m" by (simp add: Let_def split: if_splits)
        moreover have "excepted (UserConn received :: 'c event) = {}" using Some Cons o by simp
        ultimately show ?thesis using im by (simp add: master_inv_more)
      qed
    qed
  qed
qed


lemma mrun_inv:
  assumes "mrun env tr m" and "okEnv env" shows "master_inv tr m"
  using assms(1)
proof induction
  case Start
  then show ?case by (rule master_inv_start)
next
  case (NoVital tr m raddr c)
  then show ?case by (simp add: master_inv_more)
next
  case (Slave tr m raddr vd vd' c resp m')
  then show ?case by (intro registerSlave_inv)
next
  case (User tr m received replies m')
  with assms(2) show ?case by (intro serveCmd_inv)
qed


lemma demoEnv_ok: "okEnv demoEnv"
  using demoEnv_order by (simp add: okEnv_def demoEnv_def)

definition vd1conn :: "unit event" where
  "vd1conn = SlaveConn ''10.0.0.1:4000'' () (Some vd1)"

lemma demo_run: "mrun env [vd1conn] (snd (registerSlave ''10.0.0.1:4000'' () (Some vd1) startMaster))"
proof -
  have f: "fixServerAddr ''10.0.0.1:4000'' vd1 = Inr vd1" by (simp add: fixServerAddr_def vd1_def)
  have n: "newSlave (nSlaves (startMaster :: unit master)) vd1"
    using fresh_vd1 by (simp add: newSlave_def startMaster_def) (simp add: vd1_def)
  show ?thesis
    using mrun.Slave [OF mrun.Start f n, of "()" "Some ''1''" _ env] f
    by (simp add: vd1conn_def registerSlave_def Let_def Add_def startMaster_def mkSlave_def)
      (simp add: vd1_def)
qed


text \<open>
  The address under which a slave is registered can be dialled from elsewhere: when the
  slave reports that it listens on all its addresses, the master keeps the reported port and
  takes the host from the connection; any other reported address is kept as it is.
\<close>
theorem fixServerAddr_hostport:
  assumes "vdServerAddr vd = h @ '':'' @ p" and "CHR '':'' \<notin> set h" and "length h \<ge> 7"
    and "take 7 h = ''0.0.0.0'' \<Longrightarrow> h = ''0.0.0.0''"
    and "raddr = rh @ '':'' @ rp" and "CHR '':'' \<notin> set rh"
  shows "fixServerAddr raddr vd =
    Inr (vd\<lparr>vdServerAddr := (if h = ''0.0.0.0'' then rh else h) @ '':'' @ p\<rparr>)"
proof -
  have "splitN2 CHR '':'' raddr ! 0 = rh" using assms(5,6) by simp
  moreover have l: "length ''0.0.0.0'' = 7" by simp
  moreover have "\<not> length (vdServerAddr vd) < 7" "take 7 (vdServerAddr vd) = take 7 h"
    "drop 7 (vdServerAddr vd) = drop 7 h @ '':'' @ p" using assms(1,3) by simp_all
  moreover have "take 7 h = ''0.0.0.0'' \<longleftrightarrow> h = ''0.0.0.0''" "drop 7 ''0.0.0.0'' = []"
    using assms(4) by auto
  ultimately show ?thesis using assms(1) unfolding fixServerAddr_def l
    by (cases "h = ''0.0.0.0''") simp_all
qed

theorem fixServerAddr_hostport_witness:
  "fixServerAddr ''10.0.0.7:4001'' (vd1\<lparr>vdServerAddr := ''0.0.0.0:5000''\<rparr>) =
    Inr (vd1\<lparr>vdServerAddr := ''10.0.0.7:5000''\<rparr>)"
  using fixServerAddr_hostport [of "vd1\<lparr>vdServerAddr := ''0.0.0.0:5000''\<rparr>" "''0.0.0.0''" "''5000''"
      "''10.0.0.7:4001''" "''10.0.0.7''" "''4001''"]
  by simp

text \<open>
  The answer to an information request has one line for every registered slave, with
  its address and its identifier, and the number of slaves.
\<close>

lemma hostInfo_lines:
  assumes "slaves_inv sv" and "okEnv env"
  shows "\<exists>order. distinct order \<and> set order = nodesOf sv \<and>
    rsMsg (hostInfo env sv) = concat (map (\<lambda>(i, a). a @ '' '' @ i @ ''\<newline>'') order) \<and>
    rsNumNodes (hostInfo env sv) = of_nat (card (nodesOf sv))"
proof -
  let ?ks = "infoOrder env (Addr2id sv)"
  let ?f = "\<lambda>a. (the (Addr2id sv a), a)"
  have dom: "dom (Addr2id sv) = siServer ` the ` Slaves sv ` dom (Slaves sv)"
  proof (intro equalityI subsetI)
    fix a assume "a \<in> dom (Addr2id sv)"
    then obtain k where "Addr2id sv a = Some k" by blast
    with slaves_invD(4) [OF assms(1)] obtain s where "Slaves sv k = Some s" "siServer s = a" by blast
    then show "a \<in> siServer ` the ` Slaves sv ` dom (Slaves sv)" by force
  next
    fix a assume "a \<in> siServer ` the ` Slaves sv ` dom (Slaves sv)"
    with slaves_invD(3) [OF assms(1)] show "a \<in> dom (Addr2id sv)" by force
  qed
  have "finite (dom (Addr2id sv))" unfolding dom using slaves_invD(7) [OF assms(1)] by blast
  with assms(2) have ks: "distinct ?ks" "set ?ks = dom (Addr2id sv)" by (simp_all add: okEnv_def)
  have lines: "infoLines m is msg = msg @ concat (map (\<lambda>a. a @ '' '' @ the (m a) @ ''\<newline>'') is)" for m "is" msg
    by (induction "is" arbitrary: msg) simp_all
  have nodes: "nodesOf sv = ?f ` dom (Addr2id sv)"
  proof (intro equalityI subsetI)
    fix x assume "x \<in> nodesOf sv"
    then obtain s where "x = (siId s, siServer s)" "Slaves sv (siId s) = Some s"
      by (auto simp: nodesOf_def member_def)
    with slaves_invD(3) [OF assms(1)] show "x \<in> ?f ` dom (Addr2id sv)" by force
  next
    fix x assume "x \<in> ?f ` dom (Addr2id sv)"
    then obtain a k where x: "x = (k, a)" and "Addr2id sv a = Some k" by auto
    with slaves_invD(4) [OF assms(1)] obtain s where s: "Slaves sv k = Some s" "siServer s = a" by blast
    with slaves_invD(1) [OF assms(1)] have "siId s = k" by blast
    with s x show "x \<in> nodesOf sv" by (force simp: nodesOf_def member_def)
  qed
  have inj: "inj_on ?f (dom (Addr2id sv))" by (auto intro: inj_onI)
  show ?thesis
  proof (intro exI [of _ "map ?f ?ks"] conjI)
    show "distinct (map ?f ?ks)" using ks inj by (simp add: distinct_map)
    show "set (map ?f ?ks) = nodesOf sv" using ks nodes by simp
    show "rsMsg (hostInfo env sv) = concat (map (\<lambda>(i, a). a @ '' '' @ i @ ''\<newline>'') (map ?f ?ks))"
      by (simp add: hostInfo_def Let_def lines comp_def)
    have "card (nodesOf sv) = length ?ks"
      unfolding nodes card_image [OF inj] using ks distinct_card by metis
    then show "rsNumNodes (hostInfo env sv) = of_nat (card (nodesOf sv))"
      by (simp add: hostInfo_def Let_def)
  qed
qed

end
