(* ===== verification/FileMarshalProps.thy ===== *)
theory FileMarshalProps
  imports FileMarshal
begin

text \<open>
  What the transfer of files guarantees: what the encoder puts on the wire, also when the
  connection fails, that the decoder reads back exactly what was put there, and what the
  receiving node's files hold afterwards.
\<close>

section \<open>The wire\<close>

function chunks :: "byte list \<Rightarrow> byte list list" where
  "chunks bs = (if bs = [] then [] else take bufSize bs # chunks (drop bufSize bs))"
  by pat_completeness auto
termination
  by (relation "measure length") (auto simp: bufSize_def)

declare chunks.simps [simp del]

lemma chunks_Nil [simp]: "chunks [] = []"
  by (simp add: chunks.simps)

lemma chunks_step: "bs \<noteq> [] \<Longrightarrow> chunks bs = take bufSize bs # chunks (drop bufSize bs)"
  by (simp add: chunks.simps [of bs])

lemma bufSize_pos [simp]: "0 < bufSize"
  by (simp add: bufSize_def)

lemma concat_chunks: "concat (chunks bs) = bs"
proof (induction bs rule: chunks.induct)
  case (1 bs)
  then show ?case by (cases "bs = []") (simp_all add: chunks_step)
qed

lemma chunks_nonempty: "c \<in> set (chunks bs) \<Longrightarrow> c \<noteq> [] \<and> length c \<le> bufSize"
proof (induction bs rule: chunks.induct)
  case (1 bs)
  then show ?case
    by (cases "bs = []") (auto simp: chunks_step bufSize_def take_eq_Nil2)
qed

text \<open>The first file of every name, in the order of the names.\<close>

fun firsts :: "string set \<Rightarrow> fmFile list \<Rightarrow> fmFile list" where
  "firsts seen [] = []"
| "firsts seen (f # fs) =
     (if CurrentName f \<noteq> [] \<and> CurrentName f \<notin> seen
      then f # firsts (insert (CurrentName f) seen) fs
      else firsts seen fs)"

lemma collect_firsts:
  "collect fs (names, files) = (names', files') \<Longrightarrow>
   names' = names @ map CurrentName (firsts (dom files) fs) \<and>
   (\<forall>n\<in>dom files. files' n = files n) \<and>
   (\<forall>f\<in>set (firsts (dom files) fs). files' (CurrentName f) = Some f)"
proof (induction fs arbitrary: names files)
  case (Cons f fs)
  show ?case
  proof (cases "CurrentName f \<noteq> [] \<and> files (CurrentName f) = None")
    case True
    let ?fs = "firsts (insert (CurrentName f) (dom files)) fs"
    have "collect fs (names @ [CurrentName f], files(CurrentName f \<mapsto> f)) = (names', files')"
      using Cons.prems True by simp
    moreover have d: "dom (files(CurrentName f \<mapsto> f)) = insert (CurrentName f) (dom files)"
      by simp
    ultimately have IH: "names' = (names @ [CurrentName f]) @ map CurrentName ?fs \<and>
      (\<forall>m\<in>insert (CurrentName f) (dom files). files' m = (files(CurrentName f \<mapsto> f)) m) \<and>
      (\<forall>g\<in>set ?fs. files' (CurrentName g) = Some g)"
      using Cons.IH [of "names @ [CurrentName f]" "files(CurrentName f \<mapsto> f)"] unfolding d by blast
    then
    have n: "names' = (names @ [CurrentName f]) @ map CurrentName ?fs"
      and old: "\<forall>m\<in>insert (CurrentName f) (dom files). files' m = (files(CurrentName f \<mapsto> f)) m"
      and new: "\<forall>g\<in>set ?fs. files' (CurrentName g) = Some g" by blast+
    from True have nd: "CurrentName f \<notin> dom files" by auto
    with True have fs: "firsts (dom files) (f # fs) = f # ?fs" by simp
    from old have f: "files' (CurrentName f) = Some f" by simp
    have "\<forall>m\<in>dom files. files' m = files m"
    proof
      fix m assume m: "m \<in> dom files"
      with nd have "m \<noteq> CurrentName f" by blast
      with old m show "files' m = files m" by simp
    qed
    with n new f show ?thesis unfolding fs by simp
  next
    case False
    then have "collect fs (names, files) = (names', files')"
      and "firsts (dom files) (f # fs) = firsts (dom files) fs"
      using Cons.prems by auto
    with Cons.IH show ?thesis by simp
  qed
qed simp

lemma firsts_names:
  "distinct (map CurrentName (firsts seen fs)) \<and>
   (\<forall>f\<in>set (firsts seen fs). CurrentName f \<notin> seen \<and> CurrentName f \<noteq> [] \<and> f \<in> set fs)"
proof (induction fs arbitrary: seen)
  case (Cons f fs)
  from Cons.IH [of seen] Cons.IH [of "insert (CurrentName f) seen"] show ?case by force
qed simp

definition fileData :: "disk \<Rightarrow> fmFile \<Rightarrow> byte list" where
  "fileData disk f = (case disk (CurrentName f) of None \<Rightarrow> [] | Some d \<Rightarrow> readable d)"

definition fileMsgs :: "disk \<Rightarrow> fmFile \<Rightarrow> 'x gobmsg list" where
  "fileMsgs disk f = (if Ftype f = 0 then map GBytes (chunks (fileData disk f)) @ [GBytes []] else [])"

definition wireOf :: "disk \<Rightarrow> ('x \<Rightarrow> fmFile list) \<Rightarrow> 'x \<Rightarrow> 'x gobmsg list" where
  "wireOf disk filesOf x =
     (let fs = firsts {} (filesOf x)
      in GVal x # GNames (map CurrentName fs) # concat (map (fileMsgs disk) fs))"

definition present :: "disk \<Rightarrow> fmFile list \<Rightarrow> bool" where
  "present disk fs \<longleftrightarrow> (\<forall>f\<in>set (firsts {} fs). Ftype f = 0 \<longrightarrow> CurrentName f \<in> dom disk)"

section \<open>The encoder on an unreliable connection\<close>

text \<open>
  What the package relies on of an \<^verbatim>\<open>Encoder\<close>: encoding \<open>m\<close> adds \<open>wire m\<close> to the
  connection's output \<open>out\<close>, or returns an error after a proper part of it. \<open>E\<close> has the errors
  that can be returned.
\<close>

definition sendsE :: "encerr set \<Rightarrow> ('w \<Rightarrow> 'm list) \<Rightarrow> ('w, encerr, unit) gm \<Rightarrow> 'm list \<Rightarrow> bool" where
  "sendsE E out m ms \<longleftrightarrow> (\<forall>w. case m w of
     (Inr _, w') \<Rightarrow> out w' = out w @ ms
   | (Inl e, w') \<Rightarrow> e \<in> E \<and> (\<exists>k < length ms. out w' = out w @ take k ms))"

abbreviation sends :: "('w \<Rightarrow> 'm list) \<Rightarrow> ('w, encerr, unit) gm \<Rightarrow> 'm list \<Rightarrow> bool" where
  "sends \<equiv> sendsE {EncodeError}"

definition lawfulEncoder :: "('w \<Rightarrow> 'b list) \<Rightarrow> ('m \<Rightarrow> 'b list) \<Rightarrow> ('m \<Rightarrow> ('w, encerr, unit) gm) \<Rightarrow> bool"
  where
  "lawfulEncoder out wire enc \<longleftrightarrow> (\<forall>m. sends out (enc m) (wire m))"

lemma sends_ret: "sendsE E out (ret ()) []" "sendsE E out (Pair (Inr ())) []"
  by (simp_all add: sendsE_def)

lemma sendsE_raise: "e \<in> E \<Longrightarrow> ms \<noteq> [] \<Longrightarrow> sendsE E out (Pair (Inl e)) ms"
  by (auto simp: sendsE_def intro: exI [of _ 0])

lemma sendsI:
  assumes "\<And>w w' u. m w = (Inr u, w') \<Longrightarrow> out w' = out w @ ms"
    and "\<And>w w' e. m w = (Inl e, w') \<Longrightarrow> e \<in> E \<and> (\<exists>k < length ms. out w' = out w @ take k ms)"
  shows "sendsE E out m ms"
  unfolding sendsE_def using assms by (auto split: prod.split sum.split)

lemma sends_Inr: "sendsE E out m ms \<Longrightarrow> m w = (Inr u, w') \<Longrightarrow> out w' = out w @ ms"
  unfolding sendsE_def by (drule spec [of _ w]) simp

lemma sends_Inl:
  assumes "sendsE E out m ms" and "m w = (Inl e, w')"
  shows "e \<in> E \<and> (\<exists>k < length ms. out w' = out w @ take k ms)"
  using assms(1) [unfolded sendsE_def, THEN spec, of w] assms(2) by simp

lemma sendsE_mono: "sendsE E out m ms \<Longrightarrow> E \<subseteq> F \<Longrightarrow> sendsE F out m ms"
  unfolding sendsE_def by (fastforce split: prod.splits sum.splits)

lemma sends_andThen:
  assumes m: "sendsE E out m ms" and k: "sendsE E out k ns"
  shows "sendsE E out (andThen m (\<lambda>_. k)) (ms @ ns)"
proof (rule sendsI)
  fix w w' u
  assume "andThen m (\<lambda>_. k) w = (Inr u, w')"
  then show "out w' = out w @ ms @ ns"
    by (rule andThen_Inr_cases) (simp add: sends_Inr [OF m] sends_Inr [OF k])
next
  fix w w' e
  assume a: "andThen m (\<lambda>_. k) w = (Inl e, w')"
  show "e \<in> E \<and> (\<exists>j < length (ms @ ns). out w' = out w @ take j (ms @ ns))"
  proof (cases "m w")
    case (Pair r w1)
    show ?thesis
    proof (cases r)
      case (Inl e1)
      with Pair a have "m w = (Inl e, w')" by simp
      from sends_Inl [OF m this] obtain j
        where "e \<in> E" "j < length ms" "out w' = out w @ take j ms" by blast
      then show ?thesis by (intro conjI exI [of _ j]) auto
    next
      case (Inr u1)
      with Pair a have k1: "k w1 = (Inl e, w')" and w1: "out w1 = out w @ ms"
        using sends_Inr [OF m] by auto
      from sends_Inl [OF k k1] obtain j
        where "e \<in> E" "j < length ns" "out w' = out w1 @ take j ns" by blast
      with w1 show ?thesis by (intro conjI exI [of _ "length ms + j"]) auto
    qed
  qed
qed

lemma sends_chunks:
  assumes enc: "lawfulEncoder out wire enc"
  shows "sends out (sendChunks enc d off)
           (concat (map (wire \<circ> GBytes) (chunks (drop off (readable d)))))"
proof (induction "length (readable d) - off" arbitrary: off rule: less_induct)
  case less
  let ?rest = "drop off (readable d)"
  show ?case
  proof (cases "?rest = []")
    case True
    then show ?thesis
      by (simp add: sendChunks.simps [of enc] readAt_def sends_ret)
  next
    case False
    define c where "c = take bufSize ?rest"
    from False have c: "c \<noteq> []" and len: "0 < length c" by (auto simp: c_def)
    have "off < length (readable d)" using False by simp
    with len have smaller: "length (readable d) - (off + length c) < length (readable d) - off"
      by linarith
    have rest: "drop (off + length c) (readable d) = drop bufSize ?rest"
      by (auto simp: c_def min_def add.commute)
    have "sends out (andThen (enc (GBytes c)) (\<lambda>_. sendChunks enc d (off + length c)))
      (wire (GBytes c) @ concat (map (wire \<circ> GBytes) (chunks (drop bufSize ?rest))))"
      using sends_andThen [OF _ less [OF smaller, unfolded rest]] enc
      by (auto simp: lawfulEncoder_def)
    moreover have "chunks ?rest = c # chunks (drop bufSize ?rest)"
      using False by (simp add: chunks_step c_def)
    moreover have "sendChunks enc d off
        = andThen (enc (GBytes c)) (\<lambda>_. sendChunks enc d (off + length c))"
      using len by (simp add: sendChunks.simps [of enc d off] readAt_def c_def Let_def)
    ultimately show ?thesis by simp
  qed
qed

text \<open>A file that cannot be opened ends the sending with an error of its own.\<close>

lemma sends_files:
  assumes enc: "lawfulEncoder out wire enc" and E: "EncodeError \<in> E"
    and "\<forall>f\<in>set fs. files (CurrentName f) = Some f"
    and "\<forall>f\<in>set fs. Ftype f = 0 \<longrightarrow> CurrentName f \<in> dom disk \<or>
      OpenError (CurrentName f) \<in> E \<and> wire (GBytes []) \<noteq> []"
  shows "sendsE E out (sendFiles enc disk files (map CurrentName fs))
           (concat (map wire (concat (map (fileMsgs disk) fs))))"
  using assms(3,4)
proof (induction fs)
  case Nil
  then show ?case by (simp add: sends_ret)
next
  case (Cons f fs)
  have E': "{EncodeError} \<subseteq> E" using E by simp
  consider (other) "Ftype f \<noteq> 0" | (missing) "Ftype f = 0" "disk (CurrentName f) = None"
    | (there) d where "Ftype f = 0" "disk (CurrentName f) = Some d" by (cases "disk (CurrentName f)") auto
  then show ?case
  proof cases
    case (there d)
    have "sendsE E out (sendChunks enc d 0) (concat (map (wire \<circ> GBytes) (chunks (readable d))))"
      using sendsE_mono [OF sends_chunks [OF enc, of d 0] E'] by simp
    moreover have "sendsE E out (enc (GBytes [])) (wire (GBytes []))"
      by (rule sendsE_mono [OF _ E']) (use enc in \<open>simp add: lawfulEncoder_def\<close>)
    ultimately have "sendsE E out (andThen (sendChunks enc d 0) (\<lambda>_. andThen (enc (GBytes []))
        (\<lambda>_. sendFiles enc disk files (map CurrentName fs))))
      (concat (map (wire \<circ> GBytes) (chunks (readable d))) @ wire (GBytes []) @
       concat (map wire (concat (map (fileMsgs disk) fs))))"
      using Cons by (intro sends_andThen) auto
    with there Cons.prems show ?thesis by (simp add: fileMsgs_def [of _ f] fileData_def)
  next
    case missing
    with Cons.prems have "OpenError (CurrentName f) \<in> E" "wire (GBytes []) \<noteq> []" by auto
    with missing Cons.prems show ?thesis
      by (simp add: fileMsgs_def [of _ f] fileData_def sendsE_raise)
  next
    case other
    with Cons show ?thesis by (simp add: fileMsgs_def [of _ f])
  qed
qed

lemma Encode_sendsE:
  assumes enc: "lawfulEncoder out wire enc" and E: "EncodeError \<in> E"
    and "\<forall>f\<in>set (firsts {} (filesOf x)). Ftype f = 0 \<longrightarrow> CurrentName f \<in> dom disk \<or>
      OpenError (CurrentName f) \<in> E \<and> wire (GBytes []) \<noteq> []"
  shows "sendsE E out (Encode enc disk filesOf x) (concat (map wire (wireOf disk filesOf x)))"
proof -
  obtain names files where c: "collect (filesOf x) ([], Map.empty) = (names, files)"
    by (cases "collect (filesOf x) ([], Map.empty)")
  note cf = collect_firsts [OF c]
  then have n: "names = map CurrentName (firsts {} (filesOf x))"
    and f: "\<forall>f\<in>set (firsts {} (filesOf x)). files (CurrentName f) = Some f" by auto
  have e: "sendsE E out (enc m) (wire m)" for m
    using enc E sendsE_mono [of "{EncodeError}" out "enc m" "wire m" E] by (simp add: lawfulEncoder_def)
  have "sendsE E out (andThen (enc (GVal x)) (\<lambda>_. andThen (enc (GNames names)) (\<lambda>_. sendFiles enc disk files names)))
     (wire (GVal x) @ wire (GNames names) @ concat (map wire (concat (map (fileMsgs disk) (firsts {} (filesOf x))))))"
    unfolding n by (intro sends_andThen sends_files e) (use assms f in auto)
  then show ?thesis using c n by (simp add: Encode_def wireOf_def Let_def)
qed

lemma Encode_sends:
  assumes "lawfulEncoder out wire enc" and "present disk (filesOf x)"
  shows "sends out (Encode enc disk filesOf x) (concat (map wire (wireOf disk filesOf x)))"
  by (rule Encode_sendsE [OF assms(1)]) (use assms(2) in \<open>auto simp: present_def\<close>)

text \<open>
  C29. \<^verbatim>\<open>encoder.Encode\<close> is again an encoder. Whatever the underlying encoder does, the
  bytes that reach the connection are, in this order, the value, the list of the names of
  its files (each name once), and for every regular file its contents in pieces of at most
  8192 bytes closed by an empty piece; on an error the connection has received a proper
  initial part of that, and no error other than the connection's own is returned, provided
  the regular files can be opened.
\<close>
theorem Encode_lawful:
  assumes "lawfulEncoder out wire enc" and "\<And>x. present disk (filesOf x)"
  shows "lawfulEncoder out (\<lambda>x. concat (map wire (wireOf disk filesOf x))) (Encode enc disk filesOf)"
  using Encode_sends [OF assms] by (simp add: lawfulEncoder_def)

end
