(* ===== verification/FileTransfer.thy ===== *)
theory FileTransfer
  imports "HOL-Library.Sublist" FileMarshalProps
begin

text \<open>
  The receiving side of \<^verbatim>\<open>filemarshal\<close>: the decoder reads back exactly what the encoder put
  on the wire and leaves what follows it, it fails on every proper initial part of it, and
  the calls it makes to the operating system put the contents of every file in its place.
  The operating system is arbitrary: \<open>fails\<close> decides, from all the calls made before, whether
  a call fails and how.
\<close>

section \<open>The operating system as a log of calls\<close>

type_synonym 'e failures = "oscall list \<Rightarrow> oscall \<Rightarrow> 'e option"

definition logOs :: "'e failures \<Rightarrow> (oscall list, 'e) os" where
  "logOs fails c log = ((case fails log c of None \<Rightarrow> Inr () | Some e \<Rightarrow> Inl e), log @ [c])"

text \<open>The calls that create, write and close regular files.\<close>

fun isData :: "oscall \<Rightarrow> bool" where
  "isData (OpenRdwrCreate n) = True"
| "isData (WriteTo n bs) = True"
| "isData (CloseFile n) = True"
| "isData _ = False"

definition dataCalls :: "oscall list \<Rightarrow> oscall list" where
  "dataCalls log = filter isData log"

definition dataOk :: "'e failures \<Rightarrow> bool" where
  "dataOk fails \<longleftrightarrow> (\<forall>log c. isData c \<longrightarrow> fails log c = None)"

lemma dataCalls_simps [simp]:
  "dataCalls [] = []"
  "dataCalls (l @ m) = dataCalls l @ dataCalls m"
  "dataCalls (c # l) = (if isData c then c # dataCalls l else dataCalls l)"
  by (simp_all add: dataCalls_def)

lemma dataCalls_writes [simp]: "dataCalls (map (WriteTo d) cs) = map (WriteTo d) cs"
  by (induction cs) simp_all

lemma logOs_data: "dataOk fails \<Longrightarrow> isData c \<Longrightarrow> logOs fails c log = (Inr (), log @ [c])"
  by (simp add: logOs_def dataOk_def)

lemma snd_logOs [simp]: "snd (logOs fails c log) = log @ [c]"
  by (simp add: logOs_def)

lemma ignore_logOs [simp]: "ignore (logOs fails c) log = log @ [c]"
  by (simp add: ignore_def)

lemma dataCalls_ensureDir [simp]: "dataCalls (ensureDir (logOs fails) dir log) = dataCalls log"
  by (simp add: ensureDir_def logOs_def split: option.split)

lemma dataCalls_recvDir [simp]: "dataCalls (recvDir (logOs fails) d f log) = dataCalls log"
  by (simp add: recvDir_def logOs_def split: option.split)

section \<open>Reading back one file\<close>

definition destOf :: "string \<Rightarrow> fmFile \<Rightarrow> string" where
  "destOf destDir f = destDir @ DestName f"

text \<open>The record of a received file: an absolute symlink is put under the destination.\<close>

definition rooted :: "string \<Rightarrow> fmFile \<Rightarrow> fmFile" where
  "rooted destDir f =
     (if Ftype f = 2 \<and> SymlinkTarget f \<noteq> [] \<and> hd (SymlinkTarget f) = CHR ''/''
      then f\<lparr>SymlinkTarget := destDir @ SymlinkTarget f\<rparr> else f)"

lemma rooted_name [simp]: "CurrentName (rooted destDir f) = CurrentName f"
  by (simp add: rooted_def)

definition storeCalls :: "disk \<Rightarrow> string \<Rightarrow> fmFile \<Rightarrow> oscall list" where
  "storeCalls disk destDir f =
     (if Ftype f = 0
      then OpenRdwrCreate (destOf destDir f)
           # map (WriteTo (destOf destDir f)) (chunks (fileData disk f))
           @ [CloseFile (destOf destDir f)]
      else [])"

lemma recvChunks_wire:
  assumes "dataOk fails" and "\<forall>c\<in>set cs. c \<noteq> []"
  shows "recvChunks (logOs fails) dest (map GBytes cs @ GBytes [] # ms) log
       = (Inr (), ms, log @ map (WriteTo dest) cs)"
  using assms(2) by (induction cs arbitrary: log) (simp_all add: logOs_data [OF assms(1)])

lemma recvFile_wire:
  assumes ok: "dataOk fails" and sym: "Ftype f = 2 \<Longrightarrow> SymlinkTarget f \<noteq> []"
  shows "\<exists>log'. recvFile (logOs fails) destDir f (fileMsgs disk f @ ms) log
      = (Inr (rooted destDir f), ms, log') \<and>
     dataCalls log' = dataCalls log @ storeCalls disk destDir f"
proof -
  consider (reg) "Ftype f = 0" | (dir) "Ftype f = 1" | (sym) "Ftype f = 2"
    | (other) "Ftype f \<noteq> 0" "Ftype f \<noteq> 1" "Ftype f \<noteq> 2" by blast
  then show ?thesis
  proof cases
    case reg
    have ne: "\<forall>c\<in>set (chunks (fileData disk f)). c \<noteq> []" using chunks_nonempty by blast
    from reg show ?thesis
      by (simp add: recvFile_def recvRegular_def rooted_def Let_def logOs_data [OF ok]
          fileMsgs_def recvChunks_wire [OF ok ne] storeCalls_def destOf_def)
  next
    case dir
    then show ?thesis
      by (simp add: recvFile_def rooted_def fileMsgs_def storeCalls_def)
  next
    case sym
    with assms(2) show ?thesis
      by (auto simp: recvFile_def recvSymlink_def rooted_def fileMsgs_def storeCalls_def Let_def)
  next
    case other
    then show ?thesis by (simp add: recvFile_def rooted_def fileMsgs_def storeCalls_def)
  qed
qed

section \<open>Reading back all files\<close>

text \<open>What the files of the received value look like afterwards.\<close>

definition delivered :: "string \<Rightarrow> fmFile list \<Rightarrow> fmFile list" where
  "delivered destDir fs =
     map (\<lambda>f. case List.find (\<lambda>g. CurrentName g = CurrentName f) (firsts {} fs) of
                None \<Rightarrow> f | Some g \<Rightarrow> rooted destDir g) fs"

definition findName :: "string \<Rightarrow> fmFile list \<Rightarrow> fmFile option" where
  "findName name fs = List.find (\<lambda>f. CurrentName f \<noteq> [] \<and> CurrentName f = name) fs"

lemma findName_overwrite:
  "CurrentName g = name \<Longrightarrow> n \<noteq> name \<Longrightarrow> findName n (overwrite name g fs) = findName n fs"
  by (induction fs) (auto simp: findName_def overwrite_def)

definition receiveAll :: "string \<Rightarrow> fmFile list \<Rightarrow> fmFile list \<Rightarrow> fmFile list" where
  "receiveAll destDir gs fs =
     map (\<lambda>f. case List.find (\<lambda>g. CurrentName g = CurrentName f) gs of
                None \<Rightarrow> f | Some g \<Rightarrow> rooted destDir g) fs"

lemma receiveAll_Cons:
  assumes "\<forall>h\<in>set gs. CurrentName h \<noteq> CurrentName g"
  shows "receiveAll destDir gs (overwrite (CurrentName g) (rooted destDir g) fs)
       = receiveAll destDir (g # gs) fs"
proof -
  from assms have "List.find (\<lambda>h. CurrentName h = CurrentName g) gs = None"
    by (auto simp: find_None_iff)
  then show ?thesis by (auto simp: receiveAll_def overwrite_def)
qed

lemma recvFiles_wire:
  assumes ok: "dataOk fails"
    and "\<forall>g\<in>set gs. findName (CurrentName g) fs = Some g"
    and "\<forall>g\<in>set gs. Ftype g = 2 \<longrightarrow> SymlinkTarget g \<noteq> []"
    and "distinct (map CurrentName gs)"
  shows "\<exists>log'. recvFiles (logOs fails) destDir (map CurrentName gs) fs
        (concat (map (fileMsgs disk) gs) @ ms) log
      = (Inr (receiveAll destDir gs fs), ms, log') \<and>
     dataCalls log' = dataCalls log @ concat (map (storeCalls disk destDir) gs)"
  using assms(2-)
proof (induction gs arbitrary: fs log)
  case Nil
  then show ?case by (simp add: receiveAll_def)
next
  case (Cons g gs)
  let ?fs = "overwrite (CurrentName g) (rooted destDir g) fs"
  let ?ms = "concat (map (fileMsgs disk) gs) @ ms"
  from Cons.prems(2) have "Ftype g = 2 \<Longrightarrow> SymlinkTarget g \<noteq> []" by simp
  from recvFile_wire [OF ok this, of destDir disk ?ms log]
  obtain log1 where f: "recvFile (logOs fails) destDir g (fileMsgs disk g @ ?ms) log
      = (Inr (rooted destDir g), ?ms, log1)"
    and d1: "dataCalls log1 = dataCalls log @ storeCalls disk destDir g" by blast
  from Cons.prems(3) have ne: "\<forall>h\<in>set gs. CurrentName h \<noteq> CurrentName g"
    by (metis distinct.simps(2) image_eqI list.simps(9) set_map)
  with Cons.prems(1) have "\<forall>h\<in>set gs. findName (CurrentName h) ?fs = Some h"
    by (simp add: findName_overwrite)
  moreover from Cons.prems(2,3) have "\<forall>h\<in>set gs. Ftype h = 2 \<longrightarrow> SymlinkTarget h \<noteq> []"
    and "distinct (map CurrentName gs)" by simp_all
  ultimately obtain log' where
    fs: "recvFiles (logOs fails) destDir (map CurrentName gs) ?fs ?ms log1
      = (Inr (receiveAll destDir gs ?fs), ms, log')"
    and d2: "dataCalls log' = dataCalls log1 @ concat (map (storeCalls disk destDir) gs)"
    using Cons.IH [of ?fs log1] by blast
  note ra = receiveAll_Cons [OF ne]
  from Cons.prems(1) f fs show ?case
    by (simp add: findName_def d1 d2 ra)
qed

lemma findName_firsts:
  "g \<in> set (firsts seen fs) \<Longrightarrow> findName (CurrentName g) fs = Some g"
proof (induction fs arbitrary: seen)
  case (Cons f fs)
  show ?case
  proof (cases "CurrentName f \<noteq> [] \<and> CurrentName f \<notin> seen")
    case True
    with Cons.prems consider "g = f" | "g \<in> set (firsts (insert (CurrentName f) seen) fs)" by auto
    then show ?thesis
    proof cases
      case 2
      with Cons.IH have "findName (CurrentName g) fs = Some g" by blast
      moreover have "CurrentName g \<noteq> CurrentName f" using 2 firsts_names by blast
      ultimately show ?thesis by (simp add: findName_def)
    qed (use True in \<open>simp add: findName_def\<close>)
  next
    case False
    with Cons.prems have g: "g \<in> set (firsts seen fs)" by auto
    with Cons.IH have "findName (CurrentName g) fs = Some g" by blast
    moreover have "CurrentName g \<notin> seen" "CurrentName g \<noteq> []" using g firsts_names by blast+
    ultimately show ?thesis using False by (auto simp: findName_def)
  qed
qed simp

definition linksOk :: "fmFile list \<Rightarrow> bool" where
  "linksOk fs \<longleftrightarrow> (\<forall>f\<in>set fs. Ftype f = 2 \<longrightarrow> SymlinkTarget f \<noteq> [])"

lemma Decode_wire:
  assumes "dataOk fails" and "linksOk (filesOf x)"
  shows "\<exists>log'. Decode (logOs fails) destDir filesOf (wireOf disk filesOf x @ rest) log
      = (Inr (x, delivered destDir (filesOf x)), rest, log') \<and>
     dataCalls log' = dataCalls log @ concat (map (storeCalls disk destDir) (firsts {} (filesOf x)))"
proof -
  let ?gs = "firsts {} (filesOf x)"
  have "\<forall>g\<in>set ?gs. findName (CurrentName g) (filesOf x) = Some g"
    using findName_firsts by blast
  moreover have "\<forall>g\<in>set ?gs. Ftype g = 2 \<longrightarrow> SymlinkTarget g \<noteq> []"
    using assms(2) firsts_names [of "{}" "filesOf x"] by (auto simp: linksOk_def)
  moreover have "distinct (map CurrentName ?gs)" using firsts_names by blast
  ultimately obtain log' where
    "recvFiles (logOs fails) destDir (map CurrentName ?gs) (filesOf x)
        (concat (map (fileMsgs disk) ?gs) @ rest) log
      = (Inr (receiveAll destDir ?gs (filesOf x)), rest, log')"
    "dataCalls log' = dataCalls log @ concat (map (storeCalls disk destDir) ?gs)"
    using recvFiles_wire [OF assms(1)] by blast
  then show ?thesis
    by (simp add: wireOf_def Let_def delivered_def receiveAll_def)
qed

section \<open>A connection that breaks\<close>

lemma recvChunks_shape:
  "\<forall>c\<in>set cs. c \<noteq> [] \<Longrightarrow>
   (\<exists>e. fst (recvChunks os dest (map GBytes cs @ GBytes [] # ms) s) = Inl e) \<or>
   (\<exists>t. recvChunks os dest (map GBytes cs @ GBytes [] # ms) s = (Inr (), ms, t))"
proof (induction cs arbitrary: s)
  case (Cons c cs)
  then show ?case
    by (cases "os (WriteTo dest c) s"; cases "fst (os (WriteTo dest c) s)") auto
qed simp

text \<open>What can follow the part of a value that was sent: nothing, or another value.\<close>

definition fromVal :: "'x gobmsg list \<Rightarrow> bool" where
  "fromVal ms \<longleftrightarrow> (case ms of GVal x # _ \<Rightarrow> True | _ \<Rightarrow> ms = [])"

lemma fromVal_simps [simp]: "fromVal []" "fromVal (GVal x # ms)"
  by (simp_all add: fromVal_def)

lemma fromVal_cases:
  assumes "fromVal ms"
  obtains "ms = []" | x r where "ms = GVal x # r"
  using assms by (auto simp: fromVal_def split: list.splits gobmsg.splits)

lemma recvChunks_short:
  "\<forall>c\<in>set cs. c \<noteq> [] \<Longrightarrow> k \<le> length cs \<Longrightarrow> fromVal rest \<Longrightarrow>
   \<exists>e. fst (recvChunks os dest (take k (map GBytes cs @ [GBytes []]) @ rest) s) = Inl e"
proof (induction cs arbitrary: k s)
  case Nil
  then show ?case by (auto elim: fromVal_cases)
next
  case (Cons c cs)
  show ?case
  proof (cases k)
    case (Suc j)
    with Cons show ?thesis
      by (cases "os (WriteTo dest c) s"; cases "fst (os (WriteTo dest c) s)") auto
  qed (use Cons.prems in \<open>auto elim: fromVal_cases\<close>)
qed

lemma recvRegular_Inl:
  assumes "\<And>t. \<exists>e. fst (recvChunks os d ms t) = Inl e"
  shows "\<exists>e. fst (recvRegular os d f ms s) = Inl e"
proof -
  define s1 where "s1 = ensureDir os (fst (pathSplit d)) s"
  obtain r s2 where o: "os (OpenRdwrCreate d) s1 = (r, s2)" by (cases "os (OpenRdwrCreate d) s1")
  obtain r' ms' s3 where c: "recvChunks os d ms (ignore (os (Chown d (Uid f) (Gid f))) s2) = (r', ms', s3)"
    by (cases "recvChunks os d ms (ignore (os (Chown d (Uid f) (Gid f))) s2)")
  with assms obtain e where "r' = Inl e" by (metis fst_conv)
  with o c show ?thesis by (cases r) (simp_all add: recvRegular_def s1_def [symmetric])
qed

lemma recvRegular_shape:
  assumes "\<And>t. (\<exists>e. fst (recvChunks os d ms t) = Inl e) \<or> (\<exists>u. recvChunks os d ms t = (Inr (), ms', u))"
  shows "(\<exists>e. fst (recvRegular os d f ms s) = Inl e) \<or> (\<exists>u. recvRegular os d f ms s = (Inr (), ms', u))"
proof -
  define s1 where "s1 = ensureDir os (fst (pathSplit d)) s"
  obtain r s2 where o: "os (OpenRdwrCreate d) s1 = (r, s2)" by (cases "os (OpenRdwrCreate d) s1")
  obtain r' m s3 where c: "recvChunks os d ms (ignore (os (Chown d (Uid f) (Gid f))) s2) = (r', m, s3)"
    by (cases "recvChunks os d ms (ignore (os (Chown d (Uid f) (Gid f))) s2)")
  obtain r'' s4 where cl: "os (CloseFile d) s3 = (r'', s4)" by (cases "os (CloseFile d) s3")
  have "(\<exists>e. r' = Inl e) \<or> (r' = Inr () \<and> m = ms')"
    using assms [of "ignore (os (Chown d (Uid f) (Gid f))) s2"] c by auto
  with o c cl show ?thesis
    by (cases r; cases r'') (auto simp: recvRegular_def s1_def [symmetric])
qed

lemma recvFile_shape:
  "(\<exists>e. fst (recvFile os destDir f (fileMsgs disk f @ ms) s) = Inl e) \<or>
   (\<exists>g t. recvFile os destDir f (fileMsgs disk f @ ms) s = (Inr g, ms, t) \<and> CurrentName g = CurrentName f)"
proof -
  consider (reg) "Ftype f = 0" | (dir) "Ftype f = 1" | (sym) "Ftype f = 2"
    | (other) "Ftype f \<noteq> 0" "Ftype f \<noteq> 1" "Ftype f \<noteq> 2" by blast
  then show ?thesis
  proof cases
    case reg
    let ?d = "destDir @ DestName f" and ?ms = "map GBytes (chunks (fileData disk f)) @ GBytes [] # ms"
    have "\<forall>c\<in>set (chunks (fileData disk f)). c \<noteq> []" using chunks_nonempty by blast
    from recvChunks_shape [OF this, of os ?d ms]
    have "(\<exists>e. fst (recvChunks os ?d ?ms t) = Inl e) \<or> (\<exists>u. recvChunks os ?d ?ms t = (Inr (), ms, u))" for t .
    note sh = recvRegular_shape [OF this, of f s]
    obtain r m t where rr: "recvRegular os ?d f ?ms s = (r, m, t)" by (cases "recvRegular os ?d f ?ms s")
    with sh reg show ?thesis by (auto simp: recvFile_def fileMsgs_def)
  next
    case sym
    then show ?thesis
      by (auto simp: recvFile_def recvSymlink_def fileMsgs_def Let_def)
  qed (simp_all add: recvFile_def fileMsgs_def)
qed

lemma recvFile_short:
  fixes os :: "('o, 'e) os" and disk :: disk and f :: fmFile
  defines "w \<equiv> fileMsgs disk f :: 'x gobmsg list"
  assumes k': "k < length w" and rest: "fromVal rest"
  shows "\<exists>e. fst (recvFile os destDir f (take k w @ rest) s) = Inl e"
proof -
  from k' have reg: "Ftype f = 0" and k: "k \<le> length (chunks (fileData disk f))"
    by (auto simp: w_def fileMsgs_def split: if_splits)
  let ?d = "destDir @ DestName f" and ?ms = "take k (map GBytes (chunks (fileData disk f)) @ [GBytes []]) @ rest"
  have "\<forall>c\<in>set (chunks (fileData disk f)). c \<noteq> []" using chunks_nonempty by blast
  from recvChunks_short [OF this k rest, of os ?d]
  have "\<exists>e. fst (recvChunks os ?d (?ms :: 'x gobmsg list) t) = Inl e" for t .
  from recvRegular_Inl [OF this, of f s] obtain e where
    "fst (recvRegular os ?d f (?ms :: 'x gobmsg list) s) = Inl e" by blast
  moreover have "w = map GBytes (chunks (fileData disk f)) @ [GBytes []]"
    using reg by (simp add: w_def fileMsgs_def)
  ultimately show ?thesis using reg
    by (cases "recvRegular os ?d f (?ms :: 'x gobmsg list) s") (simp add: recvFile_def)
qed

lemma recvFiles_short:
  fixes os :: "('o, 'e) os" and disk :: disk
  assumes "\<forall>g\<in>set gs. findName (CurrentName g) fs = Some g"
    and "distinct (map CurrentName gs)"
    and "k < length (concat (map (fileMsgs disk) gs) :: 'x gobmsg list)" and rest: "fromVal rest"
  shows "\<exists>e. fst (recvFiles os destDir (map CurrentName gs) fs
        (take k (concat (map (fileMsgs disk) gs) :: 'x gobmsg list) @ rest) s) = Inl e"
  using assms(1-3)
proof (induction gs arbitrary: fs s k)
  case (Cons g gs)
  from Cons.prems(1) have fg: "List.find (\<lambda>f. CurrentName f \<noteq> [] \<and> CurrentName f = CurrentName g) fs = Some g"
    by (simp add: findName_def)
  show ?case
  proof (cases "k < length (fileMsgs disk g :: 'x gobmsg list)")
    case True
    then obtain e where "fst (recvFile os destDir g (take k (fileMsgs disk g :: 'x gobmsg list) @ rest) s) = Inl e"
      using recvFile_short [OF True rest, of os destDir s] by blast
    with True fg show ?thesis
      by (cases "recvFile os destDir g (take k (fileMsgs disk g :: 'x gobmsg list) @ rest) s") simp
  next
    case False
    let ?k = "k - length (fileMsgs disk g :: 'x gobmsg list)"
    let ?ms = "take ?k (concat (map (fileMsgs disk) gs) :: 'x gobmsg list) @ rest"
    have tk: "take k (concat (map (fileMsgs disk) (g # gs))) @ rest = fileMsgs disk g @ ?ms" using False by simp
    from recvFile_shape [of os destDir g disk ?ms s] show ?thesis
    proof
      assume "\<exists>e. fst (recvFile os destDir g (fileMsgs disk g @ ?ms) s) = Inl e"
      with fg show ?thesis unfolding tk
        by (cases "recvFile os destDir g (fileMsgs disk g @ ?ms) s") auto
    next
      assume "\<exists>h t. recvFile os destDir g (fileMsgs disk g @ ?ms) s = (Inr h, ?ms, t) \<and> CurrentName h = CurrentName g"
      then obtain h t where r: "recvFile os destDir g (fileMsgs disk g @ ?ms) s = (Inr h, ?ms, t)"
        and h: "CurrentName h = CurrentName g" by blast
      let ?fs = "overwrite (CurrentName g) h fs"
      from Cons.prems(2) have ne: "\<forall>x\<in>set gs. CurrentName x \<noteq> CurrentName g"
        by (metis distinct.simps(2) image_eqI list.simps(9) set_map)
      with Cons.prems(1) h have "\<forall>x\<in>set gs. findName (CurrentName x) ?fs = Some x"
        by (simp add: findName_overwrite)
      moreover from Cons.prems(2) have "distinct (map CurrentName gs)" by simp
      moreover from Cons.prems(3) False
      have "?k < length (concat (map (fileMsgs disk) gs) :: 'x gobmsg list)" by auto
      ultimately obtain e where
        "fst (recvFiles os destDir (map CurrentName gs) ?fs ?ms t) = Inl e"
        using Cons.IH [of ?fs ?k t] by blast
      with fg r show ?thesis unfolding tk by simp
    qed
  qed
qed simp

lemma Decode_short:
  fixes os :: "('o, 'e) os" and filesOf :: "'x \<Rightarrow> fmFile list"
  assumes "k < length (wireOf disk filesOf x)" and rest: "fromVal rest" and "0 < k \<or> rest = []"
  shows "\<exists>e. fst (Decode os destDir filesOf (take k (wireOf disk filesOf x) @ rest) s) = Inl e"
proof -
  let ?gs = "firsts {} (filesOf x)"
  consider "k = 0" | "k = 1" | j where "k = Suc (Suc j)" by (metis One_nat_def nat.exhaust)
  then show ?thesis
  proof cases
    case 3
    have "\<forall>g\<in>set ?gs. findName (CurrentName g) (filesOf x) = Some g" using findName_firsts by blast
    moreover have "distinct (map CurrentName ?gs)" using firsts_names by blast
    moreover from assms 3 have "j < length (concat (map (fileMsgs disk) ?gs) :: 'x gobmsg list)"
      by (simp add: wireOf_def Let_def)
    ultimately obtain e where "fst (recvFiles os destDir (map CurrentName ?gs) (filesOf x)
        (take j (concat (map (fileMsgs disk) ?gs) :: 'x gobmsg list) @ rest) s) = Inl e"
      using recvFiles_short [where os = os and gs = ?gs and fs = "filesOf x" and k = j and disk = disk
          and destDir = destDir and s = s, OF _ _ _ rest] by blast
    with 3 show ?thesis
      by (cases "recvFiles os destDir (map CurrentName ?gs) (filesOf x)
          (take j (concat (map (fileMsgs disk) ?gs) :: 'x gobmsg list) @ rest) s") (simp add: wireOf_def Let_def)
  qed (use assms(3) rest in \<open>auto simp: wireOf_def Let_def elim: fromVal_cases\<close>)
qed

section \<open>Streams of values\<close>

text \<open>A reader that takes up to \<open>n\<close> values, until the first that fails.\<close>

fun getN :: "('m list \<Rightarrow> 's \<Rightarrow> ('e + 'y) \<times> 'm list \<times> 's) \<Rightarrow> nat \<Rightarrow> 'm list \<Rightarrow> 's \<Rightarrow> 'y list \<times> 'm list"
  where
  "getN get 0 ms s = ([], ms)"
| "getN get (Suc n) ms s =
     (case get ms s of (Inl e, ms', t) \<Rightarrow> ([], ms')
      | (Inr y, ms', t) \<Rightarrow> (case getN get n ms' t of (ys, ms'') \<Rightarrow> (y # ys, ms'')))"

text \<open>
  What the users of the package rely on: values written one after the other are read one
  after the other, each with its own messages and none of the next.
\<close>

locale value_stream =
  fixes put :: "'x \<Rightarrow> 'm list"
    and get :: "'m list \<Rightarrow> 's \<Rightarrow> ('e + 'y) \<times> 'm list \<times> 's"
    and good :: "'x \<Rightarrow> bool"
    and val :: "'x \<Rightarrow> 'y"
  assumes get_put: "good x \<Longrightarrow> \<exists>t. get (put x @ rest) s = (Inr (val x), rest, t)"
    and get_short: "k < length (put x) \<Longrightarrow> \<exists>e. fst (get (take k (put x)) s) = Inl e"
begin

lemma getN_put:
  "\<forall>x\<in>set xs. good x \<Longrightarrow>
   getN get (length xs) (concat (map put xs) @ rest) s = (map val xs, rest)"
proof (induction xs arbitrary: s)
  case (Cons x xs)
  obtain t where "get (put x @ concat (map put xs) @ rest) s = (Inr (val x), concat (map put xs) @ rest, t)"
    using get_put Cons.prems by (meson list.set_intros(1))
  with Cons show ?case by simp
qed simp

lemma getN_cut:
  assumes "\<forall>x\<in>set xs. good x" and "k < length (put y)"
  shows "fst (getN get (Suc (length xs)) (concat (map put xs) @ take k (put y)) s) = map val xs"
  using assms(1)
proof (induction xs arbitrary: s)
  case Nil
  from get_short [OF assms(2), of s] show ?case
    by (cases "get (take k (put y)) s") auto
next
  case (Cons x xs)
  obtain t where "get (put x @ concat (map put xs) @ take k (put y)) s
      = (Inr (val x), concat (map put xs) @ take k (put y), t)"
    using get_put Cons.prems by (meson list.set_intros(1))
  moreover obtain ys ms where "getN get (Suc (length xs)) (concat (map put xs) @ take k (put y)) t = (ys, ms)"
    by (cases "getN get (Suc (length xs)) (concat (map put xs) @ take k (put y)) t")
  moreover from this Cons.IH [of t] Cons.prems have "ys = map val xs" by simp
  ultimately show ?case
    by (simp del: getN.simps(2) add: getN.simps(2) [of get "Suc (length xs)" "put x @ concat (map put xs) @ take k (put y)"])
qed

end

text \<open>
  A connection on which values are cut off at any point and others follow: a value of which a
  part was sent is an error for the reader, whatever comes behind it.
\<close>

fun kept :: "('x \<Rightarrow> nat) \<Rightarrow> ('x \<times> nat) list \<Rightarrow> 'x list" where
  "kept len [] = []"
| "kept len ((x, k) # xks) =
     (if k = 0 then kept len xks else if len x \<le> k then x # kept len xks else [])"

lemma kept_subseq: "subseq (kept len xks) (map fst xks)"
  by (induction len xks rule: kept.induct) auto

lemma kept_all: "\<forall>(x, k)\<in>set xks. 0 < k \<and> len x \<le> k \<Longrightarrow> kept len xks = map fst xks"
  by (induction len xks rule: kept.induct) auto

locale cut_stream = value_stream put get good val
  for put :: "'x \<Rightarrow> 'm list" and get :: "'m list \<Rightarrow> 's \<Rightarrow> ('e + 'y) \<times> 'm list \<times> 's"
    and good :: "'x \<Rightarrow> bool" and val :: "'x \<Rightarrow> 'y" +
  fixes follows :: "'m list \<Rightarrow> bool"
  assumes put_ne: "put x \<noteq> []"
    and follows_Nil: "follows []"
    and follows_put: "0 < k \<Longrightarrow> follows (take k (put x) @ rest)"
    and get_cut: "0 < k \<Longrightarrow> k < length (put x) \<Longrightarrow> follows rest \<Longrightarrow>
      \<exists>e. fst (get (take k (put x) @ rest) s) = Inl e"
begin

lemma follows_cuts: "follows (concat (map (\<lambda>(x, k). take k (put x)) xks))"
proof (induction xks)
  case (Cons xk xks)
  then show ?case by (cases xk; cases "snd xk") (auto intro: follows_put [where k = "Suc _"])
qed (simp add: follows_Nil)

lemma getN_cuts:
  "\<forall>(x, k)\<in>set xks. good x \<Longrightarrow> length (kept (\<lambda>x. length (put x)) xks) < n \<Longrightarrow>
   fst (getN get n (concat (map (\<lambda>(x, k). take k (put x)) xks)) s) = map val (kept (\<lambda>x. length (put x)) xks)"
proof (induction xks arbitrary: n s)
  case Nil
  from get_short [of 0 undefined s] put_ne obtain e where "fst (get [] s) = Inl e" by auto
  with Nil show ?case by (cases n; cases "get [] s") auto
next
  case (Cons xk xks)
  obtain x k where xk: "xk = (x, k)" by (cases xk)
  let ?rest = "concat (map (\<lambda>(x, k). take k (put x)) xks)"
  obtain m where n: "n = Suc m" using Cons.prems(2) by (cases n) auto
  consider "k = 0" | "0 < k" "length (put x) \<le> k" | "0 < k" "k < length (put x)" by linarith
  then show ?case
  proof cases
    case 2
    obtain t where "get (put x @ ?rest) s = (Inr (val x), ?rest, t)"
      using get_put Cons.prems(1) xk by force
    moreover have "fst (getN get m ?rest t) = map val (kept (\<lambda>x. length (put x)) xks)"
      using Cons.IH [of m t] Cons.prems xk n 2 by simp
    ultimately show ?thesis using xk n 2 by (cases "getN get m ?rest t") simp
  next
    case 3
    from get_cut [OF 3 follows_cuts] obtain e where "fst (get (take k (put x) @ ?rest) s) = Inl e" by blast
    then show ?thesis using xk n 3 by (cases "get (take k (put x) @ ?rest) s") auto
  qed (use Cons xk in auto)
qed

end

lemma fromVal_take: "0 < k \<Longrightarrow> fromVal (take k (wireOf disk filesOf x) @ rest)"
  by (cases k) (simp_all add: wireOf_def Let_def)

interpretation filestream: value_stream
  "wireOf disk filesOf"
  "Decode (logOs fails) destDir filesOf"
  "\<lambda>x. dataOk fails \<and> linksOk (filesOf x)"
  "\<lambda>x. (x, delivered destDir (filesOf x))"
  for disk fails destDir and filesOf :: "'x \<Rightarrow> fmFile list"
proof
  fix x rest s
  assume "dataOk fails \<and> linksOk (filesOf x)"
  with Decode_wire [of fails filesOf x destDir disk rest s]
  show "\<exists>t. Decode (logOs fails) destDir filesOf (wireOf disk filesOf x @ rest) s
      = (Inr (x, delivered destDir (filesOf x)), rest, t)" by blast
next
  fix k x s
  assume "k < length (wireOf disk filesOf x)"
  then show "\<exists>e. fst (Decode (logOs fails) destDir filesOf (take k (wireOf disk filesOf x)) s) = Inl e"
    using Decode_short [of k disk filesOf x "[]"] by simp
qed

interpretation filecuts: cut_stream
  "wireOf disk filesOf"
  "Decode (logOs fails) destDir filesOf"
  "\<lambda>x. dataOk fails \<and> linksOk (filesOf x)"
  "\<lambda>x. (x, delivered destDir (filesOf x))"
  fromVal
  for disk fails destDir and filesOf :: "'x \<Rightarrow> fmFile list"
proof
  fix k x rest s
  assume "0 < k" "k < length (wireOf disk filesOf x)" "fromVal (rest :: 'x gobmsg list)"
  then show "\<exists>e. fst (Decode (logOs fails) destDir filesOf (take k (wireOf disk filesOf x) @ rest) s) = Inl e"
    by (intro Decode_short disjI1)
qed (simp_all add: fromVal_take, simp add: wireOf_def Let_def)

section \<open>Properties\<close>



text \<open>
  Several values on one connection. Values that are encoded one after the other are
  decoded one after the other, in order, and when the connection breaks inside the next one
  the receiver has exactly the values before it: no value is made of the messages of two.
\<close>
theorem Decode_stream:
  assumes "dataOk fails" and "\<forall>x\<in>set xs. linksOk (filesOf x)" and "k < length (wireOf disk filesOf y)"
  shows "getN (Decode (logOs fails) destDir filesOf) (length xs)
           (concat (map (wireOf disk filesOf) xs) @ rest) log
         = (map (\<lambda>x. (x, delivered destDir (filesOf x))) xs, rest) \<and>
    fst (getN (Decode (logOs fails) destDir filesOf) (Suc (length xs))
           (concat (map (wireOf disk filesOf) xs) @ take k (wireOf disk filesOf y)) log)
         = map (\<lambda>x. (x, delivered destDir (filesOf x))) xs"
proof (rule conjI)
  have good: "\<forall>x\<in>set xs. dataOk fails \<and> linksOk (filesOf x)" using assms by blast
  show "getN (Decode (logOs fails) destDir filesOf) (length xs)
           (concat (map (wireOf disk filesOf) xs) @ rest) log
         = (map (\<lambda>x. (x, delivered destDir (filesOf x))) xs, rest)"
    using good by (rule filestream.getN_put)
  show "fst (getN (Decode (logOs fails) destDir filesOf) (Suc (length xs))
           (concat (map (wireOf disk filesOf) xs) @ take k (wireOf disk filesOf y)) log)
         = map (\<lambda>x. (x, delivered destDir (filesOf x))) xs"
    using good assms(3) by (rule filestream.getN_cut)
qed

text \<open>A small instance: one regular file of two bytes, and connections with room for \<open>n\<close> messages.\<close>

definition demoFile :: fmFile where
  "demoFile = \<lparr>CurrentName = ''/bin/a'', DestName = ''/bin/a'', SymlinkTarget = [], Uid = 0, Gid = 0,
     Ftype = 0, Perm = 0x1ED\<rparr>"

definition demoDisk :: disk where
  "demoDisk = [''/bin/a'' \<mapsto> \<lparr>dContent = [7, 8], dFailAt = None\<rparr>]"

fun demoEnc :: "'m \<Rightarrow> (nat \<times> 'm list, encerr, unit) gm" where
  "demoEnc m (0, l) = (Inl EncodeError, (0, l))"
| "demoEnc m (Suc n, l) = (Inr (), (n, l @ [m]))"

lemma demoEnc_lawful: "lawfulEncoder snd (\<lambda>m. [m]) demoEnc"
  unfolding lawfulEncoder_def
proof
  fix m :: 'm
  show "sends snd (demoEnc m) [m]"
  proof (rule sendsI)
    show "snd w' = snd w @ [m]" if "demoEnc m w = (Inr u, w')" for w w' u
      using that by (cases "(m, w)" rule: demoEnc.cases) auto
    show "e \<in> {EncodeError} \<and> (\<exists>k<length [m]. snd w' = snd w @ take k [m])"
      if "demoEnc m w = (Inl e, w')" for w w' e
      using that by (cases "(m, w)" rule: demoEnc.cases) auto
  qed
qed

lemma demoPresent: "present demoDisk [demoFile]"
  by (simp add: present_def demoFile_def demoDisk_def)

lemma demoFields: "Ftype demoFile = 0" "DestName demoFile = ''/bin/a''" "CurrentName demoFile = ''/bin/a''"
  by (simp_all add: demoFile_def)

lemma demoFirsts: "firsts {} [demoFile] = [demoFile]"
  by (simp add: demoFile_def)

lemma demoChunks: "chunks (fileData demoDisk demoFile) = [[7, 8]]"
  by (simp add: fileData_def demoDisk_def demoFile_def readable_def chunks_step bufSize_def)

lemma demoWire: "wireOf demoDisk (\<lambda>x. [demoFile]) (5::nat)
    = [GVal 5, GNames [''/bin/a''], GBytes [7, 8], GBytes []]"
  using demoChunks by (simp add: wireOf_def demoFirsts fileMsgs_def) (simp add: demoFile_def)

lemma demoLinks: "linksOk [demoFile]"
  by (simp add: linksOk_def demoFile_def)

lemma demoOk: "dataOk (\<lambda>_ _. None)"
  by (simp add: dataOk_def)

lemma demoSend: "Encode demoEnc demoDisk (\<lambda>x. [demoFile]) (5::nat) (Suc (Suc (Suc 0)), [])
    = (Inl EncodeError, (0, [GVal 5, GNames [''/bin/a''], GBytes [7, 8]]))"
  by (simp add: Encode_def demoFile_def demoDisk_def andThen_def readAt_def readable_def bufSize_def
      sendChunks.simps [of demoEnc "\<lparr>dContent = [7, 8], dFailAt = None\<rparr>" 0]
      sendChunks.simps [of demoEnc "\<lparr>dContent = [7, 8], dFailAt = None\<rparr>" "Suc (Suc 0)"])

theorem Encode_lawful_witness:
  "lawfulEncoder snd (\<lambda>x. concat (map (\<lambda>m. [m]) (wireOf demoDisk (\<lambda>_. [demoFile]) (x::nat))))
     (Encode demoEnc demoDisk (\<lambda>_. [demoFile]))"
  using demoEnc_lawful demoPresent by (rule Encode_lawful)



theorem Decode_stream_witness:
  "fst (getN (Decode (logOs (\<lambda>_ _. None :: unit option)) ''/r'' (\<lambda>_. [demoFile])) 2
      [GVal (5::nat), GNames [''/bin/a''], GBytes [7, 8], GBytes [], GVal 5, GNames [''/bin/a''], GBytes [7, 8]] [])
   = [(5, [demoFile])]"
proof -
  have k: "3 < length (wireOf demoDisk (\<lambda>_. [demoFile]) (5::nat))" by (simp add: demoWire)
  have l: "\<forall>x\<in>set [5::nat]. linksOk [demoFile]" by (simp add: demoLinks)
  show ?thesis
    using Decode_stream [where fails = "\<lambda>_ _. None :: unit option" and filesOf = "\<lambda>_. [demoFile]" and xs = "[5::nat]", OF demoOk l k,
        where rest = "[]" and destDir = "''/r''" and log = "[]"]
    by (simp del: getN.simps Decode.simps add: demoWire delivered_def demoFirsts demoFields rooted_def numeral_2_eq_2)
qed

end
