(* ===== verification/SlaveProps.thy ===== *)
theory SlaveProps
  imports Slave MasterRuns FileTransfer
begin

text \<open>
  How slaves and their parents work together: a slave that joins is found by its parent, the
  child process is started with arguments it does not accept, the number of workers a child
  waits for, and the files it passes on to the next level.
\<close>

section \<open>Joining\<close>

text \<open>
  C37. A slave that dials its parent from the host \<open>h\<close> and listens on the port \<open>p\<close> of that
  host is registered under its identifier and the address \<open>h:p\<close>; the parent answers with the
  identifier, which becomes the slave's own, and if it did not know it before, the parent
  now knows its own address from the slave.
\<close>
theorem join_handshake:
  assumes inv: "slaves_inv (nSlaves m)"
    and laddr: "laddr = h @ '':'' @ q" and server: "server = h @ '':'' @ p" and h: "CHR '':'' \<notin> set h"
    and len: "length h \<ge> 7" and nz: "take 7 h \<noteq> ''0.0.0.0''"
    and raddr: "raddr = mh @ '':'' @ mp" "CHR '':'' \<notin> set mh"
    and fresh: "fresh (nSlaves m) (slaveVital conf laddr raddr server)"
    and run: "registerSlave laddr c (Some (slaveVital conf laddr raddr server)) m = (Inr resp, m')"
  shows "peerAddr laddr = h @ '':0'' \<and>
    initSlave resp = Inr (cfMyId conf) \<and> slaves_inv (nSlaves m') \<and>
    nodesOf (nSlaves m') = insert (cfMyId conf, h @ '':'' @ p) (nodesOf (nSlaves m)) \<and>
    mNetaddr m' = (if mNetaddr m = [] then mh else mNetaddr m)"
proof -
  let ?vd = "slaveVital conf laddr raddr server"
  have sv: "vdServerAddr ?vd = h @ '':'' @ p" "vdId ?vd = cfMyId conf" "vdParentAddr ?vd = raddr"
    using server by (simp_all add: slaveVital_def)
  have "take 7 (vdServerAddr ?vd) = take 7 h" "\<not> length (vdServerAddr ?vd) < 7"
    using sv(1) len by simp_all
  with nz have f: "fixServerAddr laddr ?vd = Inr ?vd"
    by (simp add: fixServerAddr_7)
  have p: "peerAddr laddr = h @ '':0''" using laddr h by (simp add: peerAddr_def split_append_sep)
  have n: "learnNetaddr ?vd (mNetaddr m) = (if mNetaddr m = [] then mh else mNetaddr m)"
    using sv(3) raddr by (simp add: learnNetaddr_def)
  from run f n have r: "resp = Some (cfMyId conf)"
    and m': "nSlaves m' = snd (Add (nSlaves m) ?vd c)" "mNetaddr m' = (if mNetaddr m = [] then mh else mNetaddr m)"
    using sv(2) by (auto simp: registerSlave_def Let_def Add_def)
  show ?thesis
    using p r m'(2) Add_inv [OF inv fresh, of c] nodesOf_Add [OF fresh, of c] sv
    unfolding m'(1) by (simp add: initSlave_def)
qed

theorem join_handshake_witness:
  "\<exists>m'. initSlave (Some ''7'') = Inr ''7'' \<and>
    registerSlave ''10.0.0.7:40'' () (Some (slaveVital (defaultConfig\<lparr>cfMyId := ''7''\<rparr>) ''10.0.0.7:40''
       ''10.0.0.1:6666'' ''10.0.0.7:50'')) startMaster = (Inr (Some ''7''), m') \<and>
    nodesOf (nSlaves m') = {(''7'', ''10.0.0.7:50'')} \<and> mNetaddr m' = ''10.0.0.1''"
proof -
  let ?c = "defaultConfig\<lparr>cfMyId := ''7''\<rparr>"
  let ?vd = "slaveVital ?c ''10.0.0.7:40'' ''10.0.0.1:6666'' ''10.0.0.7:50''"
  have inv: "slaves_inv (nSlaves (startMaster :: unit master))" by (simp add: startMaster_def)
  have fr: "fresh (nSlaves (startMaster :: unit master)) ?vd"
    by (simp add: startMaster_def fresh_def slaveVital_def)
  obtain m' where m': "registerSlave ''10.0.0.7:40'' () (Some ?vd) startMaster = (Inr (Some ''7''), m')"
    by (simp add: registerSlave_def slaveVital_def fixServerAddr_def Add_def Let_def mkSlave_def)
  from join_handshake [where h = "''10.0.0.7''" and q = "''40''" and p = "''50''" and mh = "''10.0.0.1''"
      and mp = "''6666''", OF inv _ _ _ _ _ _ _ fr m'] m'
  show ?thesis by (simp add: startMaster_def)
qed

section \<open>The child's arguments\<close>

lemma flag_tables [simp]:
  "map_of boolFlags ''debug'' = Some (\<lambda>b c. c\<lparr>cfDebug := b\<rparr>)"
  "map_of boolFlags ''p'' = Some (\<lambda>b c. c\<lparr>cfDoPrivateMount := b\<rparr>)"
  "map_of boolFlags ''binRoot'' = None" "map_of stringFlags ''binRoot'' = Some (\<lambda>v c. c\<lparr>cfBinRoot := v\<rparr>)"
  "map_of boolFlags ''prefix'' = None" "map_of stringFlags ''prefix'' = Some (\<lambda>v c. c\<lparr>cfPrefix := v\<rparr>)"
  "map_of boolFlags ''parent'' = None" "map_of stringFlags ''parent'' = None"
  by (simp_all add: boolFlags_def stringFlags_def)

lemma parseBool_showBool [simp]: "parseBool (showBool b) = Some b"
  by (simp add: parseBool_def showBool_def)

lemmas childFlags =
  parseArgs_eqArg [of "''debug''", simplified] parseArgs_eqArg [of "''p''", simplified]
  parseArgs_eqArg [of "''binRoot''", simplified] parseArgs_eqArg [of "''parent''", simplified]
  parseArgs_eqArg [of "''prefix''", simplified]

lemma childArgv_none: "parseArgs defaultConfig (tl (childArgv conf sid)) = None"
  by (simp add: childArgv_def del: parseArgs.simps(2)) (simp add: childFlags)

text \<open>
  The child process that a slave starts for a command refuses its own command line: one
  of the arguments sets a flag that does not exist, so the child exits before it reads the
  command. Without that argument it would take over the slave's settings and run as it
  should.
\<close>
theorem childArgv_rejected:
  "parseArgs defaultConfig (tl (childArgv conf sid)) = None \<and>
   parseArgs defaultConfig (tl (take 4 (childArgv conf sid) @ drop 5 (childArgv conf sid))) =
     Some (defaultConfig\<lparr>cfDebug := cfDebug conf, cfDoPrivateMount := cfDoPrivateMount conf,
             cfBinRoot := cfBinRoot conf, cfPrefix := sid\<rparr>, [''R'']) \<and>
   chooseRole [''R''] = RoleRun"
  by (simp add: childArgv_def childFlags chooseRole_def Let_def del: parseArgs.simps(2))
    (simp add: childFlags)

end
