(* ===== verification/Tree.thy ===== *)
theory Tree
  imports SlaveProps
begin

text \<open>
  A command in the tree of nodes: the child process of every node it reaches runs the
  program and passes the command on to the slaves of that node. The tree puts the master,
  \<^verbatim>\<open>startSlave\<close>'s answer and \<^verbatim>\<open>slaveProc\<close> together; the requests a node sends are delivered to
  the node with that address.
\<close>

section \<open>One child process\<close>

definition ceOf :: "'c env \<Rightarrow> 'c slaves \<Rightarrow> string option \<Rightarrow> childEnv" where
  "ceOf env sv listen =
     \<lparr>ceMountOk = True, ceProxyUp = True, ceListen = listen,
      ceAnswer = (\<lambda>ne. case answerNodes env \<lparr>nSlaves = sv, nDials = 0, nSent = []\<rparr> ne of
                    Inl p \<Rightarrow> None | Inr ne' \<Rightarrow> Some ne')\<rparr>"

lemma answerNodes_select:
  "Nodes ne \<noteq> [] \<Longrightarrow> answerNodes env st ne
     = Inr (ne\<lparr>Nodes := selectNodes env (nDials st) (nSlaves st) (Nodes ne)\<rparr>)"
  by (simp add: answerNodes_def ServIntersect_select)

lemma useProxy_relay:
  "useProxy ce avail req = Some req1 \<Longrightarrow>
   \<exists>fam srv. req1 = req\<lparr>rqLfam := fam, rqLserver := srv\<rparr> \<and>
     (Nodes avail \<noteq> [] \<longrightarrow> fam = ''tcp'' \<and> ceListen ce = Some srv)"
proof (cases "Nodes avail")
  case Nil
  assume "useProxy ce avail req = Some req1"
  with Nil have "req1 = req\<lparr>rqLfam := rqLfam req, rqLserver := rqLserver req\<rparr>"
    by (simp add: useProxy_def)
  with Nil show ?thesis by blast
qed (auto simp: useProxy_def split: option.splits)

text \<open>
  C26. A child process that gets through to passing the command on has started its program,
  sends the rest of the node list to those of the selected slaves that it can dial, tells
  them to send their output to its own proxy, and waits for as many workers as slaves were
  selected. So it waits for exactly those it has sent the command to if it could dial all of
  them, and for more otherwise.
\<close>
theorem slaveProc_waits:
  assumes run: "slaveProc conf env (ceOf env sv (Some addr)) (Some req) childNode = Some (r, st')"
    and waits: "crEnd r = WaitsFor n"
  shows "\<exists>ne ss. crStarted r = Some (runLocal conf req) \<and> crAsked r = Some ne \<and>
    parseNodeList (rqNodes req) \<noteq> None \<and> ne = entry (hd (split CHR '','' (rqNodes req))) \<and>
    ss = selectNodes env 0 sv (Nodes ne) \<and> n = of_nat (length ss) \<and>
    map fst (nSent st') = reached env 0 ss \<and>
    (\<forall>q\<in>snd ` set (nSent st'). rqNodes q = Subnodes ne \<and> rqLserver q = addr \<and> rqLfam q = ''tcp'' \<and>
       rqArgs q = rqArgs req \<and> rqCmds q = rqCmds req) \<and>
    length ss = length (nSent st') + length (unreached env 0 ss)"
proof -
  let ?ce = "ceOf env sv (Some addr)"
  from run waits obtain ne es where p: "parseNodeList (rqNodes req) = Some (ne # es, None)"
    by (auto simp: slaveProc_def Let_def split: if_splits option.splits list.splits)
  from p have "map entry (split CHR '','' (rqNodes req)) = ne # es"
    by (simp add: parseNodeList_parts split: option.splits if_splits)
  then have ne: "ne = entry (hd (split CHR '','' (rqNodes req)))"
    by (cases "split CHR '','' (rqNodes req)") auto
  then have "Nodes ne \<noteq> []" by simp
  define ss where "ss = selectNodes env 0 sv (Nodes ne)"
  have ans: "ceAnswer ?ce ne = Some (ne\<lparr>Nodes := ss\<rparr>)"
    using answerNodes_select [OF \<open>Nodes ne \<noteq> []\<close>, of env "\<lparr>nSlaves = sv, nDials = 0, nSent = []\<rparr>"]
    by (simp add: ceOf_def ss_def)
  obtain req1 where up: "useProxy ?ce (ne\<lparr>Nodes := ss\<rparr>) req = Some req1"
    by (cases "useProxy ?ce (ne\<lparr>Nodes := ss\<rparr>) req") (auto simp: useProxy_def ceOf_def split: if_splits)
  from useProxy_relay [OF up] obtain fam srv where
    req1: "req1 = req\<lparr>rqLfam := fam, rqLserver := srv\<rparr>" and srv: "ss \<noteq> [] \<longrightarrow> fam = ''tcp'' \<and> srv = addr"
    by (auto simp: ceOf_def)
  obtain nn req2 st2 where s: "sendCommandsToANodeSet env req1 (Subnodes ne) (cfBinRoot conf) ss childNode = (nn, req2, st2)"
    by (cases "sendCommandsToANodeSet env req1 (Subnodes ne) (cfBinRoot conf) ss childNode")
  from run p ans up s waits
  have r: "crStarted r = Some (runLocal conf req)" "crAsked r = Some ne" "n = of_nat (length ss)" "st' = st2"
    by (auto simp: slaveProc_def Let_def ceOf_def split: if_splits)
  from s have sent: "nSent st2 = map (\<lambda>s. (s, relayReq (req1\<lparr>rqNodes := Subnodes ne\<rparr>) (cfBinRoot conf))) (reached env 0 ss)"
    by (auto simp: sendCommandsToANodeSet_def sendEach_eq childNode_def Let_def)
  have fst: "map fst (nSent st') = reached env 0 ss" using r(4) sent by (simp add: comp_def)
  have len: "length ss = length (reached env k ss) + length (unreached env k ss)" for k ss
    by (induction ss arbitrary: k) auto
  have q: "\<forall>q\<in>snd ` set (nSent st'). rqNodes q = Subnodes ne \<and> rqLserver q = addr \<and> rqLfam q = ''tcp'' \<and>
       rqArgs q = rqArgs req \<and> rqCmds q = rqCmds req"
  proof (cases "ss = []")
    case False
    with srv show ?thesis unfolding r(4) sent req1
      by (auto simp: relayReq_def newStartReq_def Let_def)
  qed (simp add: r(4) sent)
  have "length ss = length (nSent st') + length (unreached env 0 ss)"
    using len [of ss 0] arg_cong [OF fst, of length] by simp
  moreover have "parseNodeList (rqNodes req) \<noteq> None" using p by simp
  ultimately show ?thesis using r(1-3) ne ss_def fst q by blast
qed

section \<open>The tree\<close>

datatype 'c tree = Tree (treeId: string) (treeAddr: string) (treeSlaves: "'c slaves") (treeKids: "'c tree list")

definition nodeRun :: "(string \<Rightarrow> config) \<Rightarrow> 'c env \<Rightarrow> string \<Rightarrow> 'c slaves \<Rightarrow> startReq
     \<Rightarrow> (childRun \<times> 'c node) option" where
  "nodeRun conf env addr sv q = slaveProc (conf addr) env (ceOf env sv (Some addr)) (Some q) childNode"

text \<open>
  The nodes that start the program, each with the identifiers on the way to it.
\<close>

fun runTree :: "(string \<Rightarrow> config) \<Rightarrow> 'c env \<Rightarrow> 'c tree \<Rightarrow> startReq \<Rightarrow> (string list \<times> startReq) list" where
  "runTree conf env (Tree i a sv kids) q =
     ([], q) #
     (case nodeRun conf env a sv q of
        None \<Rightarrow> []
      | Some (r, st) \<Rightarrow>
          concat (map (\<lambda>k. concat (map (\<lambda>q'. map (\<lambda>(p, x). (treeId k # p, x)) (runTree conf env k q'))
                              (map snd (filter (\<lambda>s. fst s = treeAddr k) (nSent st))))) kids))"

text \<open>A tree in which every node has registered exactly the nodes below it.\<close>

definition kidPairs :: "'c tree list \<Rightarrow> (string \<times> string) set" where
  "kidPairs kids = (\<lambda>k. (treeId k, treeAddr k)) ` set kids"

fun treeOk :: "'c tree \<Rightarrow> bool" where
  "treeOk (Tree i a sv kids) \<longleftrightarrow>
     slaves_inv sv \<and> [] \<notin> dom (Addr2id sv) \<and> nodesOf sv = kidPairs kids \<and> (\<forall>k\<in>set kids. treeOk k)"

text \<open>What the user means: on every level a set of nodes, down to the last level named.\<close>

definition selects :: "nodeset \<Rightarrow> string \<Rightarrow> string \<Rightarrow> bool" where
  "selects S i a \<longleftrightarrow> S = One ''.'' \<or> i \<in> set (denoteSet S) \<or> a \<in> set (denoteSet S)"

fun levelText :: "nodeset list \<Rightarrow> string" where
  "levelText [] = []"
| "levelText [S] = printSet S"
| "levelText (S # Ss) = printSet S @ CHR ''/'' # levelText Ss"

fun runs :: "nodeset list \<Rightarrow> 'c tree \<Rightarrow> string list set" where
  "runs [] t = {[]}"
| "runs (S # Ss) t = insert [] (\<Union>k\<in>set (treeKids t).
     if selects S (treeId k) (treeAddr k) then (#) (treeId k) ` runs Ss k else {})"

definition headSet :: "nodeset list \<Rightarrow> nodeset" where
  "headSet Ss = (case Ss of [] \<Rightarrow> One [] | S # _ \<Rightarrow> S)"

lemma levelText_chars: "\<forall>S\<in>set Ss. wfSet S \<Longrightarrow> CHR '','' \<notin> set (levelText Ss)"
  by (induction Ss rule: levelText.induct) (auto simp: printSet_chars)

definition levelEntry :: "nodeset list \<Rightarrow> nodeExecList" where
  "levelEntry Ss = \<lparr>Nodes = denoteSet (headSet Ss), Subnodes = levelText (tl Ss)\<rparr>"

definition levelSpec :: "nodeset list \<Rightarrow> nodespec" where
  "levelSpec Ss = (headSet Ss, if length Ss < 2 then None else Some (levelText (tl Ss)))"

lemma levelSpec:
  assumes "\<forall>S\<in>set Ss. wfSet S"
  shows "wfSpec (levelSpec Ss) \<and> printSpec (levelSpec Ss) = levelText Ss \<and> denoteSpec (levelSpec Ss) = levelEntry Ss"
proof (cases Ss rule: levelText.cases)
  case (3 S T Ss')
  then show ?thesis using assms levelText_chars [of "T # Ss'"]
    by (simp add: levelSpec_def levelEntry_def headSet_def)
qed (use assms in \<open>simp_all add: levelSpec_def levelEntry_def headSet_def\<close>)

lemma parse_levelTexts:
  assumes "Sss \<noteq> []" and "\<forall>Ss\<in>set Sss. \<forall>S\<in>set Ss. wfSet S"
  shows "parseNodeList (join CHR '','' (map levelText Sss)) = Some (map levelEntry Sss, None)"
proof -
  have eqs: "map printSpec (map levelSpec Sss) = map levelText Sss"
    "map denoteSpec (map levelSpec Sss) = map levelEntry Sss" and wf: "\<forall>sp\<in>set (map levelSpec Sss). wfSpec sp"
    using assms(2) levelSpec by auto
  from parse_specs [OF _ wf] assms(1) show ?thesis unfolding eqs by simp
qed

lemma parse_levelText:
  "\<forall>S\<in>set Ss. wfSet S \<Longrightarrow> parseNodeList (levelText Ss) = Some ([levelEntry Ss], None)"
  using parse_levelTexts [of "[Ss]"] by simp

lemma hd_denoteSet: "hd (denoteSet S) = ''.'' \<longleftrightarrow> S = One ''.''"
  by (cases S) auto

lemma denoteSet_ne [simp]: "denoteSet S \<noteq> []"
  by (cases S) auto

lemma set_selectNodes_selects:
  assumes inv: "slaves_inv sv" and "okOrder env" and blank: "[] \<notin> dom (Addr2id sv)"
  shows "set (selectNodes env n sv (denoteSet S)) = {a. \<exists>i. (i, a) \<in> nodesOf sv \<and> selects S i a}"
proof (cases "S = One ''.''")
  case True
  then have "set (selectNodes env n sv (denoteSet S)) = (\<lambda>k. siServer (the (Slaves sv k))) ` dom (Slaves sv)"
    using assms(2) slaves_invD(7) [OF inv] by (simp add: selectNodes_def okOrder_def)
  also have "\<dots> = snd ` nodesOf sv"
  proof (intro equalityI subsetI)
    fix a assume "a \<in> (\<lambda>k. siServer (the (Slaves sv k))) ` dom (Slaves sv)"
    then obtain k s where "Slaves sv k = Some s" "a = siServer s" by auto
    with slaves_invD(1) [OF inv] show "a \<in> snd ` nodesOf sv" by (force simp: nodesOf_def member_def)
  next
    fix a assume "a \<in> snd ` nodesOf sv"
    then obtain s where "Slaves sv (siId s) = Some s" "a = siServer s"
      by (auto simp: nodesOf_def member_def)
    then show "a \<in> (\<lambda>k. siServer (the (Slaves sv k))) ` dom (Slaves sv)" by force
  qed
  finally show ?thesis using True by (force simp: selects_def)
next
  case False
  then have sel: "selectNodes env n sv (denoteSet S) = gets sv (denoteSet S)"
    using hd_denoteSet by (simp add: selectNodes_def)
  have g: "Get sv m = Some s \<longleftrightarrow> member sv s \<and> named s m" for m s using reg.lookup_iff [OF inv] .
  have "set (gets sv ns) = {a. \<exists>i. (i, a) \<in> nodesOf sv \<and> (i \<in> set ns \<or> a \<in> set ns)}" for ns
  proof -
    have "set (gets sv ns) = {siServer s | s m. m \<in> set ns \<and> Get sv m = Some s}"
      by (induction ns) (auto split: option.splits)
    also have "\<dots> = {a. \<exists>i. (i, a) \<in> nodesOf sv \<and> (i \<in> set ns \<or> a \<in> set ns)}"
      unfolding g nodesOf_def named_def by blast
    finally show ?thesis .
  qed
  with False sel show ?thesis by (auto simp: selects_def)
qed

lemma reached_all: "(\<And>n s. dialOk env n s) \<Longrightarrow> reached env k ss = ss"
  by (induction ss arbitrary: k) simp_all

lemma nodeRun_levels:
  assumes nodes: "rqNodes q = levelText Ss" and wf: "\<forall>S\<in>set Ss. wfSet S"
    and inv: "slaves_inv sv" and "okOrder env" and blank: "[] \<notin> dom (Addr2id sv)"
    and dial: "\<And>n s. dialOk env n s"
  shows "\<exists>r st ss q'. nodeRun conf env a sv q = Some (r, st) \<and> nSent st = map (\<lambda>s. (s, q')) ss \<and>
    rqNodes q' = levelText (tl Ss) \<and> rqArgs q' = rqArgs q \<and> rqCmds q' = rqCmds q \<and>
    set ss = {a. \<exists>i. (i, a) \<in> nodesOf sv \<and> selects (headSet Ss) i a}"
proof -
  let ?ne = "levelEntry Ss"
  let ?ce = "ceOf env sv (Some a)"
  have ne: "Nodes ?ne = denoteSet (headSet Ss)" "Subnodes ?ne = levelText (tl Ss)" by (simp_all add: levelEntry_def)
  define ss where "ss = selectNodes env 0 sv (denoteSet (headSet Ss))"
  have p: "parseNodeList (rqNodes q) = Some ([?ne], None)" unfolding nodes by (rule parse_levelText [OF wf])
  have ans: "ceAnswer ?ce ?ne = Some (?ne\<lparr>Nodes := ss\<rparr>)"
    using answerNodes_select [of ?ne env "\<lparr>nSlaves = sv, nDials = 0, nSent = []\<rparr>"]
    by (simp add: ceOf_def ss_def ne)
  obtain req1 where up: "useProxy ?ce (?ne\<lparr>Nodes := ss\<rparr>) q = Some req1"
    by (cases "useProxy ?ce (?ne\<lparr>Nodes := ss\<rparr>) q") (auto simp: useProxy_def ceOf_def split: if_splits)
  from useProxy_relay [OF up] have req1: "rqArgs req1 = rqArgs q" "rqCmds req1 = rqCmds q" by auto
  let ?q' = "relayReq (req1\<lparr>rqNodes := levelText (tl Ss)\<rparr>) (cfBinRoot (conf a))"
  obtain st where s: "sendCommandsToANodeSet env req1 (levelText (tl Ss)) (cfBinRoot (conf a)) ss childNode
      = (of_nat (length ss), req1\<lparr>rqNodes := levelText (tl Ss)\<rparr>, st)" and st: "nSent st = map (\<lambda>s. (s, ?q')) ss"
    by (simp add: sendCommandsToANodeSet_def sendEach_eq childNode_def Let_def reached_all [OF dial])
  have "nodeRun conf env a sv q
      = Some (\<lparr>crStarted = Some (runLocal (conf a) q), crAsked = Some ?ne, crEnd = WaitsFor (of_nat (length ss))\<rparr>, st)"
    using p ans up s by (simp add: nodeRun_def slaveProc_def Let_def ne) (simp add: ceOf_def)
  moreover have "set ss = {a. \<exists>i. (i, a) \<in> nodesOf sv \<and> selects (headSet Ss) i a}"
    unfolding ss_def by (rule set_selectNodes_selects [OF inv assms(4) blank])
  ultimately show ?thesis using st req1
    by (intro exI [of _ ss] exI [of _ ?q'] exI [of _ st] exI conjI) (auto simp: relayReq_Nodes)
qed

lemma nodesOf_addr:
  assumes "slaves_inv sv" and "(i, a) \<in> nodesOf sv" and "(j, a) \<in> nodesOf sv" shows "i = j"
proof -
  from assms(2,3) obtain s t where "Slaves sv i = Some s" "siServer s = a" "Slaves sv j = Some t" "siServer t = a"
    by (auto simp: nodesOf_def member_def)
  with slaves_invD(3) [OF assms(1)] show ?thesis by (metis option.inject)
qed

lemma selects_blank:
  assumes "slaves_inv sv" and "[] \<notin> dom (Addr2id sv)" and "(i, a) \<in> nodesOf sv"
  shows "\<not> selects (One []) i a"
proof -
  from assms(3) obtain s where s: "Slaves sv i = Some s" "siServer s = a" "siId s = i"
    by (auto simp: nodesOf_def member_def)
  with slaves_invD(2,3) [OF assms(1)] have "i \<noteq> []" "Addr2id sv a = Some i" by blast+
  with assms(2) show ?thesis by (auto simp: selects_def)
qed

lemma runTree_runs:
  assumes "okOrder env" and "\<And>n s. dialOk env n s"
  shows "treeOk t \<Longrightarrow> \<forall>S\<in>set Ss. wfSet S \<Longrightarrow> rqNodes q = levelText Ss \<Longrightarrow>
    fst ` set (runTree conf env t q) = runs Ss t \<and>
    (\<forall>x\<in>snd ` set (runTree conf env t q). rqArgs x = rqArgs q \<and> rqCmds x = rqCmds q)"
proof (induction t arbitrary: Ss q)
  case (Tree i a sv kids)
  from Tree.prems(1) have ok: "slaves_inv sv" "[] \<notin> dom (Addr2id sv)" "nodesOf sv = kidPairs kids"
    "\<forall>k\<in>set kids. treeOk k" by auto
  from nodeRun_levels [OF Tree.prems(3,2) ok(1) assms(1) ok(2) assms(2), of conf a]
  obtain r st ss q' where run: "nodeRun conf env a sv q = Some (r, st)"
    and sent: "nSent st = map (\<lambda>s. (s, q')) ss" and q': "rqNodes q' = levelText (tl Ss)"
    and args: "rqArgs q' = rqArgs q" "rqCmds q' = rqCmds q"
    and ss: "set ss = {a. \<exists>i. (i, a) \<in> nodesOf sv \<and> selects (headSet Ss) i a}" by blast
  have hit: "treeAddr k \<in> set ss \<longleftrightarrow> selects (headSet Ss) (treeId k) (treeAddr k)" if "k \<in> set kids" for k
  proof -
    have k: "(treeId k, treeAddr k) \<in> nodesOf sv" using that by (simp add: ok(3) kidPairs_def)
    with nodesOf_addr [OF ok(1) k] show ?thesis unfolding ss by blast
  qed
  have wf: "\<forall>S\<in>set (tl Ss). wfSet S" using Tree.prems(2) by (cases Ss) auto
  have IH: "fst ` set (runTree conf env k q') = runs (tl Ss) k"
    "\<forall>x\<in>snd ` set (runTree conf env k q'). rqArgs x = rqArgs q \<and> rqCmds x = rqCmds q" if "k \<in> set kids" for k
    using Tree.IH [OF that _ wf q'] ok(4) that args by auto
  let ?kid = "\<lambda>k. concat (map (\<lambda>q'. map (\<lambda>(p, x). (treeId k # p, x)) (runTree conf env k q'))
      (map snd (filter (\<lambda>s. fst s = treeAddr k) (nSent st))))"
  have kid: "set (?kid k) = (if treeAddr k \<in> set ss then (\<lambda>(p, x). (treeId k # p, x)) ` set (runTree conf env k q') else {})" for k
    unfolding sent by auto
  have all: "set (runTree conf env (Tree i a sv kids) q) = insert ([], q) (\<Union>k\<in>set kids. set (?kid k))"
    using run by simp
  have paths: "fst ` set (?kid k)
      = (if selects (headSet Ss) (treeId k) (treeAddr k) then (#) (treeId k) ` runs (tl Ss) k else {})"
    if "k \<in> set kids" for k
    unfolding kid using hit [OF that] IH(1) [OF that, symmetric] by (auto simp: image_image case_prod_beta)
  have "fst ` set (runTree conf env (Tree i a sv kids) q)
      = insert [] (\<Union>k\<in>set kids. if selects (headSet Ss) (treeId k) (treeAddr k) then (#) (treeId k) ` runs (tl Ss) k else {})"
    unfolding all image_insert image_UN using paths by simp
  also have "\<dots> = runs Ss (Tree i a sv kids)"
  proof (cases Ss)
    case Nil
    have "\<not> selects (One []) (treeId k) (treeAddr k)" if "k \<in> set kids" for k
      using selects_blank [OF ok(1,2)] that by (simp add: ok(3) kidPairs_def)
    with Nil show ?thesis by (simp add: headSet_def)
  next
    case (Cons S Ss')
    then show ?thesis by (simp add: headSet_def)
  qed
  finally have "fst ` set (runTree conf env (Tree i a sv kids) q) = runs Ss (Tree i a sv kids)" .
  moreover have "\<forall>x\<in>snd ` set (runTree conf env (Tree i a sv kids) q). rqArgs x = rqArgs q \<and> rqCmds x = rqCmds q"
    unfolding all image_insert image_UN kid using IH(2) by (fastforce split: if_splits)
  ultimately show ?case ..
qed

section \<open>From the master\<close>

text \<open>
  A command of a user: the requests that the master sends for it, run in the trees of the
  slaves they go to.
\<close>

definition newSent :: "('c, 'z) node_scheme \<Rightarrow> ('c, 'z) node_scheme \<Rightarrow> (string \<times> startReq) list" where
  "newSent st st' = drop (length (nSent st)) (nSent st')"

definition runCommand ::
  "(string \<Rightarrow> config) \<Rightarrow> 'c env \<Rightarrow> startReq \<Rightarrow> ('c, 'z) node_scheme \<Rightarrow> 'c tree list
     \<Rightarrow> (string list \<times> startReq) list option" where
  "runCommand conf env req m kids =
     (case sendCommandsToNodes env req [] m of
        Some (replies, Inr n, m') \<Rightarrow>
          Some (concat (map (\<lambda>k. concat (map (\<lambda>q. map (\<lambda>(p, x). (treeId k # p, x)) (runTree conf env k q))
            (map snd (filter (\<lambda>s. fst s = treeAddr k) (newSent m m'))))) kids))
      | _ \<Rightarrow> None)"

lemma sendEntries_all:
  assumes dial: "\<And>n s. dialOk env n s" and "okOrder env"
    and inv: "slaves_inv (nSlaves st)" and blank: "[] \<notin> dom (Addr2id (nSlaves st))"
  shows "\<exists>news st'. sendEntries env req root (map levelEntry Sss) k st = (Inr (k + of_nat (length news)), st') \<and>
    nSent st' = nSent st @ news \<and>
    set news = (\<Union>Ss\<in>set Sss. (\<lambda>a. (a, (relayReq req root)\<lparr>rqNodes := levelText (tl Ss)\<rparr>)) `
      {a. \<exists>i. (i, a) \<in> nodesOf (nSlaves st) \<and> selects (headSet Ss) i a})"
  using inv blank
proof (induction Sss arbitrary: req k st)
  case Nil
  then show ?case by (intro exI [of _ "[]"] exI [of _ st]) simp
next
  case (Cons Ss Sss)
  let ?ss = "selectNodes env (nDials st) (nSlaves st) (denoteSet (headSet Ss))"
  let ?q = "(relayReq req root)\<lparr>rqNodes := levelText (tl Ss)\<rparr>"
  let ?st1 = "st\<lparr>nDials := nDials st + length ?ss, nSent := nSent st @ map (\<lambda>s. (s, ?q)) ?ss\<rparr>"
  have un: "unreached env n xs = []" for n xs by (induction xs arbitrary: n) (simp_all add: dial)
  have s1: "sendCommandsToANodeSet env req (levelText (tl Ss)) root ?ss st
      = (of_nat (length ?ss), req\<lparr>rqNodes := levelText (tl Ss)\<rparr>, ?st1)"
    by (simp add: sendCommandsToANodeSet_def sendEach_eq Let_def reached_all [OF dial] un relayReq_Nodes)
  have si: "ServIntersect (slaveOrder env (nDials st) (nSlaves st)) (nSlaves st) (Nodes (levelEntry Ss)) = Inr ?ss"
    using ServIntersect_select [of "denoteSet (headSet Ss)" env "nDials st" "nSlaves st"] by (simp add: levelEntry_def)
  from Cons.IH [of ?st1 "req\<lparr>rqNodes := levelText (tl Ss)\<rparr>" "k + of_nat (length ?ss)"] Cons.prems
  obtain news st' where
    s2: "sendEntries env (req\<lparr>rqNodes := levelText (tl Ss)\<rparr>) root (map levelEntry Sss) (k + of_nat (length ?ss)) ?st1
      = (Inr (k + of_nat (length ?ss) + of_nat (length news)), st')"
    and sent: "nSent st' = nSent ?st1 @ news"
    and new: "set news = (\<Union>Ss'\<in>set Sss. (\<lambda>a. (a, (relayReq (req\<lparr>rqNodes := levelText (tl Ss)\<rparr>) root)\<lparr>rqNodes := levelText (tl Ss')\<rparr>)) `
      {a. \<exists>i. (i, a) \<in> nodesOf (nSlaves st) \<and> selects (headSet Ss') i a})" by auto
  have "sendEntries env req root (map levelEntry (Ss # Sss)) k st
      = (Inr (k + of_nat (length (map (\<lambda>s. (s, ?q)) ?ss @ news))), st')"
    using si s1 s2 by (simp add: levelEntry_def [of Ss] algebra_simps)
  moreover have "nSent st' = nSent st @ map (\<lambda>s. (s, ?q)) ?ss @ news" using sent by simp
  moreover have "set (map (\<lambda>s. (s, ?q)) ?ss @ news) = (\<Union>Ss\<in>set (Ss # Sss). (\<lambda>a. (a, (relayReq req root)\<lparr>rqNodes := levelText (tl Ss)\<rparr>)) `
      {a. \<exists>i. (i, a) \<in> nodesOf (nSlaves st) \<and> selects (headSet Ss) i a})"
    using new set_selectNodes_selects [OF Cons.prems(1) assms(2) Cons.prems(2)]
    by (simp add: relayReq_Nodes)
  ultimately show ?case by blast
qed

lemma fst_tag: "fst ` (\<lambda>(p, x). (i # p, x)) ` X = (#) i ` fst ` X"
  by (simp add: image_image case_prod_beta)

lemma runCommand_runs:
  assumes dial: "\<And>n s. dialOk env n s" and "okOrder env"
    and inv: "slaves_inv (nSlaves m)" and blank: "[] \<notin> dom (Addr2id (nSlaves m))"
    and kids: "nodesOf (nSlaves m) = kidPairs kids" and ok: "\<forall>k\<in>set kids. treeOk k"
    and ne: "Sss \<noteq> []" and wf: "\<forall>Ss\<in>set Sss. Ss \<noteq> [] \<and> (\<forall>S\<in>set Ss. wfSet S)"
    and nodes: "rqNodes req = join CHR '','' (map levelText Sss)"
  shows "\<exists>xs. runCommand conf env req m kids = Some xs \<and>
    fst ` set xs = (\<Union>Ss\<in>set Sss. \<Union>k\<in>set kids.
      if selects (hd Ss) (treeId k) (treeAddr k) then (#) (treeId k) ` runs (tl Ss) k else {}) \<and>
    (\<forall>x\<in>snd ` set xs. rqArgs x = rqArgs req \<and> rqCmds x = rqCmds req)"
proof -
  have p: "parseNodeList (rqNodes req) = Some (map levelEntry Sss, None)"
    unfolding nodes using parse_levelTexts [OF ne] wf by blast
  let ?q = "\<lambda>Ss. (relayReq req [])\<lparr>rqNodes := levelText (tl Ss)\<rparr>"
  from sendEntries_all [OF dial assms(2) inv blank, of req "[]" Sss 0] obtain news m' where
    se: "sendEntries env req [] (map levelEntry Sss) 0 m = (Inr (of_nat (length news)), m')"
    and sent: "nSent m' = nSent m @ news"
    and news: "set news = (\<Union>Ss\<in>set Sss. (\<lambda>a. (a, ?q Ss)) `
      {a. \<exists>i. (i, a) \<in> nodesOf (nSlaves m) \<and> selects (headSet Ss) i a})" by auto
  let ?kid = "\<lambda>k. concat (map (\<lambda>q. map (\<lambda>(p, x). (treeId k # p, x)) (runTree conf env k q))
            (map snd (filter (\<lambda>s. fst s = treeAddr k) news)))"
  have run: "runCommand conf env req m kids = Some (concat (map ?kid kids))"
    using p se by (simp add: runCommand_def sendCommandsToNodes_def newSent_def sent)
  have hit: "(treeAddr k, q) \<in> set news \<longleftrightarrow>
      (\<exists>Ss\<in>set Sss. q = ?q Ss \<and> selects (hd Ss) (treeId k) (treeAddr k))" if "k \<in> set kids" for k q
  proof -
    have k: "(treeId k, treeAddr k) \<in> nodesOf (nSlaves m)" using that by (simp add: kids kidPairs_def)
    have hs: "headSet Ss = hd Ss" if "Ss \<in> set Sss" for Ss using wf that by (cases Ss) (auto simp: headSet_def)
    have "(\<exists>i. (i, treeAddr k) \<in> nodesOf (nSlaves m) \<and> selects S i (treeAddr k))
        \<longleftrightarrow> selects S (treeId k) (treeAddr k)" for S
      using nodesOf_addr [OF inv k] k by blast
    moreover have "(b, q) \<in> (\<lambda>a. (a, c)) ` A \<longleftrightarrow> q = c \<and> b \<in> A" for b c and A :: "string set" by auto
    ultimately have "(treeAddr k, q) \<in> set news \<longleftrightarrow>
      (\<exists>Ss\<in>set Sss. q = ?q Ss \<and> selects (headSet Ss) (treeId k) (treeAddr k))"
      unfolding news UN_iff by (simp only: mem_Collect_eq)
    with hs show ?thesis by auto
  qed
  have kid: "set (?kid k) = (\<Union>Ss\<in>{Ss \<in> set Sss. selects (hd Ss) (treeId k) (treeAddr k)}.
      (\<lambda>(p, x). (treeId k # p, x)) ` set (runTree conf env k (?q Ss)))" if "k \<in> set kids" for k
    using hit [OF that] by force
  have IH: "fst ` set (runTree conf env k (?q Ss)) = runs (tl Ss) k \<and>
      (\<forall>x\<in>snd ` set (runTree conf env k (?q Ss)). rqArgs x = rqArgs req \<and> rqCmds x = rqCmds req)"
    if "k \<in> set kids" "Ss \<in> set Sss" for k Ss
  proof -
    have "\<forall>S\<in>set (tl Ss). wfSet S" using wf that(2) by (cases Ss) auto
    with runTree_runs [OF assms(2) dial, of k "tl Ss" "?q Ss" conf] ok that(1) show ?thesis by simp
  qed
  have paths: "fst ` set (?kid k) = (\<Union>Ss\<in>set Sss.
      if selects (hd Ss) (treeId k) (treeAddr k) then (#) (treeId k) ` runs (tl Ss) k else {})"
    if "k \<in> set kids" for k
  proof -
    have "fst ` (\<lambda>(p, x). (treeId k # p, x)) ` set (runTree conf env k (?q Ss)) = (#) (treeId k) ` runs (tl Ss) k"
      if "Ss \<in> set Sss" for Ss
      unfolding fst_tag using IH [OF \<open>k \<in> set kids\<close> that] by simp
    then show ?thesis unfolding kid [OF that] image_UN by auto
  qed
  have "fst ` set (concat (map ?kid kids)) = (\<Union>k\<in>set kids. fst ` set (?kid k))"
    by (simp add: image_UN)
  also have "\<dots> = (\<Union>Ss\<in>set Sss. \<Union>k\<in>set kids.
      if selects (hd Ss) (treeId k) (treeAddr k) then (#) (treeId k) ` runs (tl Ss) k else {})"
    using paths by blast
  finally have "fst ` set (concat (map ?kid kids)) = (\<Union>Ss\<in>set Sss. \<Union>k\<in>set kids.
      if selects (hd Ss) (treeId k) (treeAddr k) then (#) (treeId k) ` runs (tl Ss) k else {})" .
  moreover have "\<forall>x\<in>snd ` set (concat (map ?kid kids)). rqArgs x = rqArgs req \<and> rqCmds x = rqCmds req"
    using IH kid by fastforce
  ultimately show ?thesis using run by blast
qed


definition calmEnv :: "unit env" where
  "calmEnv = demoEnv\<lparr>dialOk := \<lambda>n s. True\<rparr>"

lemma calmEnv_ok: "okOrder calmEnv" "dialOk calmEnv n s"
  using demoEnv_order by (simp_all add: okOrder_def calmEnv_def)

definition leaf1 :: "unit tree" where
  "leaf1 = Tree ''1'' ''10.0.0.1:5000'' newSlaves []"


theorem slaveProc_waits_witness:
  "\<exists>r st'. slaveProc (defaultConfig\<lparr>cfDoPrivateMount := False\<rparr>) calmEnv
      (ceOf calmEnv (nSlaves demoMaster) (Some ''10.0.0.9:1'')) (Some (zeroReq\<lparr>rqNodes := ''1''\<rparr>)) childNode
      = Some (r, st') \<and> map fst (nSent st') = [''10.0.0.1:5000''] \<and> crEnd r = WaitsFor 1"
proof -
  let ?sv = "nSlaves demoMaster"
  have p: "parseNodeList ''1'' = Some ([\<lparr>Nodes = [''1''], Subnodes = []\<rparr>], None)"
    by (simp add: parseNodeList_def parseOne_def splitN2_def)
  have g: "Get ?sv ''1'' = Some (mkSlave vd1 ())" by (simp add: demoMaster_def Get_def vd1_def)
  have sel: "selectNodes calmEnv n ?sv [''1''] = [''10.0.0.1:5000'']" for n
    using g by (simp add: selectNodes_def) (simp add: vd1_def)
  have e: "entry ''1'' = \<lparr>Nodes = [''1''], Subnodes = []\<rparr>"
    using entry_printSpec [of "(One ''1'', None)"] by simp
  obtain r st' n where r: "slaveProc (defaultConfig\<lparr>cfDoPrivateMount := False\<rparr>) calmEnv
      (ceOf calmEnv ?sv (Some ''10.0.0.9:1'')) (Some (zeroReq\<lparr>rqNodes := ''1''\<rparr>)) childNode
      = Some (r, st')" and n: "crEnd r = WaitsFor n"
    using p sel by (auto simp: slaveProc_def Let_def ceOf_def answerNodes_select useProxy_def
        sendCommandsToANodeSet_def sendEach_eq simp del: sendEach.simps)
  from slaveProc_waits [OF r n] sel have "map fst (nSent st') = [''10.0.0.1:5000'']" "n = 1"
    by (auto simp: e calmEnv_ok(2))
  with r n show ?thesis by auto
qed

end
