(* ===== verification/Bootstrap.thy ===== *)
theory Bootstrap
  imports Slave ForthProps
begin

text \<open>
  The launchers (\<^verbatim>\<open>src/src/utils/startkane.go\<close>, \<^verbatim>\<open>startstrongbox.go\<close>, \<^verbatim>\<open>startkf.go\<close>, \<^verbatim>\<open>start.go\<close>): a loop over node
  numbers that starts \<^verbatim>\<open>ssh\<close> with a command line for gproc on each of them. The command line
  goes through the remote shell, which is a parameter: \<open>shellArgs\<close> says what is used of it.
  Starting a process is the parameter \<open>ok\<close>.
\<close>

section \<open>The launchers\<close>

text \<open>
  The error of \<^verbatim>\<open>os.StartProcess\<close> is printed and the process that is not there is waited for,
  which ends the launcher with a panic, as a missing level argument does.
\<close>

datatype launch = Launched "string list list" | LaunchCrash

definition quoted :: "string \<Rightarrow> string" where
  "quoted s = CHR 0x27 # s @ [CHR 0x27]"

definition blockSize :: goint where
  "blockSize = 20"

definition kaneArgs :: "bool \<Rightarrow> goint \<Rightarrow> goint \<Rightarrow> string list" where
  "kaneArgs privateMount debugLevel anode =
     (let node = ''root@kn'' @ itoa anode
      in [''ssh'', ''-o'', ''StrictHostKeyCHecking=no'', node, ''./gproc'',
          ''-myParent='' @ quoted ''172.16.255.254 kn hostname hostbase 20 roundup strcat hostname hostbase 20 % ifelse'',
          ''-myId='' @ quoted ''hostname hostbase'',
          ''-myAddress='' @ quoted ''hostname'',
          ''-p='' @ showBool privateMount @ '' '', ''-debug='' @ itoa debugLevel, ''s''])"

definition spawnAll :: "(string list \<Rightarrow> bool) \<Rightarrow> string list list \<Rightarrow> launch" where
  "spawnAll ok argvs = (if list_all ok argvs then Launched argvs else LaunchCrash)"

text \<open>\<open>None\<close> is the loop that never ends, where the highest number is the greatest integer.\<close>

definition kaneRunlevel ::
  "(string list \<Rightarrow> bool) \<Rightarrow> bool \<Rightarrow> goint \<Rightarrow> goint \<Rightarrow> goint \<Rightarrow> bool \<Rightarrow> launch option" where
  "kaneRunlevel ok privateMount debugLevel low high md =
     map_option (\<lambda>is. spawnAll ok
        (map (kaneArgs privateMount debugLevel) (filter (\<lambda>i. (remd i blockSize = Inr 0) = md) is)))
       (countUp low high)"

definition kaneMain ::
  "(string list \<Rightarrow> bool) \<Rightarrow> bool \<Rightarrow> goint \<Rightarrow> goint \<Rightarrow> goint \<Rightarrow> string list \<Rightarrow> launch option" where
  "kaneMain ok privateMount debugLevel low high args =
     (case args of
        [] \<Rightarrow> Some LaunchCrash
      | a # _ \<Rightarrow> (let level1 = (a = ''1'') in kaneRunlevel ok privateMount debugLevel low high level1))"

definition strongboxArgs :: "goint \<Rightarrow> goint \<Rightarrow> string list" where
  "strongboxArgs debugLevel anode =
     (let node = ''root@sb'' @ itoa anode
      in [''ssh'', ''-o'', ''StrictHostKeyCHecking=no'', node, ''./gproc_linux_arm'',
          ''-myParent='' @ quoted ''hostname base 7 roundup sb strcat 10.0.0.253 hostname base 7 % ifelse'',
          ''-myId='' @ quoted ''hostname base 7 % 1  + hostname base 7 / hostname base   7 %  ifelse'',
          ''-myAddress=hostname'', ''-debug='' @ itoa debugLevel, ''s''])"

definition strongboxRunlevel ::
  "(string list \<Rightarrow> bool) \<Rightarrow> goint \<Rightarrow> goint \<Rightarrow> goint \<Rightarrow> bool \<Rightarrow> launch option" where
  "strongboxRunlevel ok debugLevel low high mod7 =
     map_option (\<lambda>is. spawnAll ok
        (map (strongboxArgs debugLevel) (filter (\<lambda>i. (remd i 7 = Inr 0) = mod7) is)))
       (countUp low high)"

definition strongboxMain ::
  "(string list \<Rightarrow> bool) \<Rightarrow> goint \<Rightarrow> goint \<Rightarrow> goint \<Rightarrow> string list \<Rightarrow> launch option" where
  "strongboxMain ok debugLevel low high args =
     (case args of
        [] \<Rightarrow> Some LaunchCrash
      | a # _ \<Rightarrow> (let level1 = (a = ''1'') in strongboxRunlevel ok debugLevel low high level1))"

definition kfArgs :: "string \<Rightarrow> string \<Rightarrow> bool \<Rightarrow> goint \<Rightarrow> goint \<Rightarrow> string list" where
  "kfArgs binary parent privateMount debugLevel anode =
     (let node = ''root@kn'' @ itoa anode
      in [''ssh'', ''-o'', ''StrictHostKeyCHecking=no'', node, binary,
          ''-myParent='' @ quoted parent,
          ''-myId='' @ quoted ''hostname base  '',
          ''-myAddress=hostname'',
          ''-p='' @ showBool privateMount @ '' '', ''-debug='' @ itoa debugLevel, ''s''])"

definition kfRunlevel ::
  "(string list \<Rightarrow> bool) \<Rightarrow> string \<Rightarrow> string \<Rightarrow> bool \<Rightarrow> goint \<Rightarrow> goint \<Rightarrow> goint \<Rightarrow> launch option" where
  "kfRunlevel ok binary parent privateMount debugLevel low high =
     map_option (\<lambda>is. spawnAll ok (map (kfArgs binary parent privateMount debugLevel) is))
       (countUp low high)"

definition kfMain ::
  "(string list \<Rightarrow> bool) \<Rightarrow> string \<Rightarrow> string \<Rightarrow> bool \<Rightarrow> goint \<Rightarrow> goint \<Rightarrow> goint \<Rightarrow> launch option" where
  "kfMain ok binary parent privateMount debugLevel low high =
     kfRunlevel ok binary parent privateMount debugLevel low high"

text \<open>
  The oldest launcher, \<^verbatim>\<open>start.go\<close>. The name \<^verbatim>\<open>BLOCKSIZE\<close> it uses is declared nowhere; its value is
  a parameter here.
\<close>

definition startArgs :: "bool \<Rightarrow> goint \<Rightarrow> goint \<Rightarrow> string list" where
  "startArgs privateMount debugLevel anode =
     (let node = ''root@kn'' @ itoa anode
      in [''ssh'', ''-o'', ''StrictHostKeyCHecking=no'', node, ''./gproc_linux_amd64'',
          ''-myParent='' @ quoted ''hostname base 20 roundup kn strcat 10.1.234.234 hostname base 20 % ifelse'',
          ''-myId='' @ quoted ''hostname base 20 % 1  + hostname base 20 / hostname base    %  ifelse'',
          ''-myAddress=hostname'',
          ''-p='' @ showBool privateMount @ '' '', ''-debug='' @ itoa debugLevel, ''s''])"

definition startRunlevel ::
  "(string list \<Rightarrow> bool) \<Rightarrow> goint \<Rightarrow> bool \<Rightarrow> goint \<Rightarrow> goint \<Rightarrow> goint \<Rightarrow> bool \<Rightarrow> launch option" where
  "startRunlevel ok block privateMount debugLevel low high md =
     map_option (\<lambda>is. spawnAll ok
        (map (startArgs privateMount debugLevel) (filter (\<lambda>i. (remd i block = Inr 0) = md) is)))
       (countUp low high)"

definition startMain ::
  "(string list \<Rightarrow> bool) \<Rightarrow> goint \<Rightarrow> bool \<Rightarrow> goint \<Rightarrow> goint \<Rightarrow> goint \<Rightarrow> string list \<Rightarrow> launch option" where
  "startMain ok block privateMount debugLevel low high args =
     (case args of
        [] \<Rightarrow> Some LaunchCrash
      | a # _ \<Rightarrow> (let level1 = (a = ''1'') in startRunlevel ok block privateMount debugLevel low high level1))"

section \<open>The remote shell\<close>

text \<open>
  What is used of a shell: a word of plain characters is an argument, blanks behind it
  separate, and quotes around text without quotes are removed. \<open>cmd\<close> is the first word, so
  that nothing is said of the names a shell treats specially.
\<close>

definition plainChar :: "char \<Rightarrow> bool" where
  "plainChar c \<longleftrightarrow> isDigit c \<or>
     c \<in> set ''abcdefghijklmnopqrstuvwxyzABCDEFGHIJKLMNOPQRSTUVWXYZ-_./=''"

definition plainWord :: "string \<Rightarrow> bool" where
  "plainWord w \<longleftrightarrow> (\<forall>c\<in>set w. plainChar c)"

definition shellWord :: "string \<Rightarrow> string \<Rightarrow> bool" where
  "shellWord w a \<longleftrightarrow>
     (\<exists>opt v. w = opt @ quoted v \<and> a = opt @ v \<and> plainWord opt \<and> CHR 0x27 \<notin> set v) \<or>
     (\<exists>k. w = a @ replicate k CHR '' '' \<and> a \<noteq> [] \<and> plainWord a)"

definition shellArgs :: "string \<Rightarrow> (string list \<Rightarrow> string list) \<Rightarrow> bool" where
  "shellArgs cmd sh \<longleftrightarrow> (\<forall>ws as. list_all2 shellWord ws (cmd # as) \<longrightarrow> sh ws = cmd # as)"

text \<open>The arguments that the program on the node is started with.\<close>

definition remoteArgs :: "(string list \<Rightarrow> string list) \<Rightarrow> string list \<Rightarrow> string list" where
  "remoteArgs sh argv = tl (sh (drop 4 argv))"

lemma shellArgs_remote:
  assumes "shellArgs cmd sh" and "list_all2 shellWord (drop 4 argv) (cmd # as)"
  shows "remoteArgs sh argv = as"
  using assms by (simp add: shellArgs_def remoteArgs_def)

lemma shellWord_plain: "w \<noteq> [] \<Longrightarrow> plainWord w \<Longrightarrow> shellWord w w"
  by (auto simp: shellWord_def intro: exI [of _ 0])

lemma shellWord_blank: "w \<noteq> [] \<Longrightarrow> plainWord w \<Longrightarrow> shellWord (w @ '' '') w"
  by (auto simp: shellWord_def intro: exI [of _ 1])

lemma shellWord_quoted: "plainWord opt \<Longrightarrow> CHR 0x27 \<notin> set v \<Longrightarrow> shellWord (opt @ quoted v) (opt @ v)"
  by (auto simp: shellWord_def)

lemma plainWord_append [simp]: "plainWord (v @ w) \<longleftrightarrow> plainWord v \<and> plainWord w"
  by (auto simp: plainWord_def)

lemma plainWord_Cons [simp]: "plainWord (c # w) \<longleftrightarrow> plainChar c \<and> plainWord w" "plainWord []"
  by (auto simp: plainWord_def)

lemma plainChar_letter: "c \<in> set ''abcdefghijklmnopqrstuvwxyzABCDEFGHIJKLMNOPQRSTUVWXYZ-_./='' \<Longrightarrow> plainChar c"
  by (simp only: plainChar_def simp_thms)

lemma plainWord_itoa [simp]: "plainWord (itoa i)"
proof -
  have "plainChar c" if "c \<in> set (itoa i)" for c
    using itoa_chars [OF that] by (elim disjE) (simp add: plainChar_letter, simp add: plainChar_def)
  then show ?thesis by (simp add: plainWord_def)
qed

lemma plainWord_showBool [simp]: "plainWord (showBool b)" "showBool b \<noteq> []"
  by (simp_all add: plainChar_letter showBool_def)

lemmas shell_words = shellWord_plain shellWord_blank shellWord_quoted shellWord_blank [of "_ @ _", simplified append_assoc]

lemma kaneArgs_remote:
  assumes "shellArgs ''./gproc'' sh"
  shows "remoteArgs sh (kaneArgs p d i) =
    [''-myParent='' @ ''172.16.255.254 kn hostname hostbase 20 roundup strcat hostname hostbase 20 % ifelse'',
     ''-myId='' @ ''hostname hostbase'', ''-myAddress='' @ ''hostname'', ''-p='' @ showBool p,
     ''-debug='' @ itoa d, ''s'']"
  by (rule shellArgs_remote [OF assms], simp only: kaneArgs_def Let_def drop_Suc_Cons drop_0 numeral_nat
      list.rel_inject list_all2_Cons list_all2_Nil, intro conjI shell_words)
   (simp_all add: plainChar_letter)


section \<open>The command lines read\<close>

lemma parseArgs_string:
  assumes "n \<noteq> []" and "hd n \<noteq> CHR ''-''" and "CHR ''='' \<notin> set n"
    and "map_of boolFlags n = None" and "map_of stringFlags n = Some upd"
  shows "parseArgs c ((''-'' @ n @ ''='' @ v) # args) = parseArgs (upd v c) args"
  using parseArgs_eqArg [OF assms(1-3)] assms(4,5) by simp

lemma parseArgs_flags:
  "parseArgs c ((''-myParent='' @ v) # args) = parseArgs (c\<lparr>cfParent := v\<rparr>) args"
  "parseArgs c ((''-myId='' @ v) # args) = parseArgs (c\<lparr>cfMyId := v\<rparr>) args"
  "parseArgs c ((''-myAddress='' @ v) # args) = parseArgs (c\<lparr>cfMyAddress := v\<rparr>) args"
  "parseArgs c ((''-p='' @ showBool b) # args) = parseArgs (c\<lparr>cfDoPrivateMount := b\<rparr>) args"
  "parseArgs c ((''-debug='' @ itoa d) # args) =
     (case parseBool (itoa d) of None \<Rightarrow> None | Some b \<Rightarrow> parseArgs (c\<lparr>cfDebug := b\<rparr>) args)"
  using parseArgs_string [of "''myParent''" _ c v args] parseArgs_string [of "''myId''" _ c v args]
    parseArgs_string [of "''myAddress''" _ c v args] parseArgs_eqArg [of "''p''" c "showBool b" args]
    parseArgs_eqArg [of "''debug''" c "itoa d" args]
  by (simp_all add: boolFlags_def stringFlags_def parseBool_def showBool_def split: option.splits)

lemma parseArgs_command: "parseArgs c [''s''] = Some (c, [''s''])"
  by simp

lemma itoa_small: "itoa (0 :: goint) = ''0''" "itoa (1 :: goint) = ''1''"
  by code_simp+

lemma parseBool_itoa:
  "parseBool (itoa (d :: goint)) = (if d = 0 then Some False else if d = 1 then Some True else None)"
proof -
  have n: "itoa d \<noteq> v" if "hd v \<in> {CHR ''t'', CHR ''T'', CHR ''f'', CHR ''F''}" for v
  proof
    assume v: "itoa d = v"
    have "hd (itoa d) \<in> set (itoa d)" by simp
    with v have "hd v = CHR ''-'' \<or> isDigit (hd v)" using itoa_chars by metis
    with that show False by (auto simp: isDigit_def)
  qed
  have "itoa d = ''1'' \<longleftrightarrow> d = 1" "itoa d = ''0'' \<longleftrightarrow> d = 0"
    using itoa_inj [of d 1] itoa_inj [of d 0] itoa_small by auto
  with n show ?thesis by (simp add: parseBool_def itoa_small)
qed

text \<open>The value of a flag that is the postfix form of an expression.\<close>

lemma evalFlag_compile:
  assumes "s = join CHR '' '' (compile e)" and "wfexp opmap0 e" and "evalF host e = Inr v"
  shows "evalFlag host opmap0 n s f = Some (Some v, f)"
  using Eval_compile_value [OF stdops_opmap0 assms(2), of host n f] assms(1,3)
  by (simp add: evalFlag_def)


section \<open>The tree of the Kane launcher\<close>

definition kaneHost :: "nat \<Rightarrow> string" where
  "kaneHost i = ''kn'' @ digits i"

definition leaderOf :: "nat \<Rightarrow> nat" where
  "leaderOf i = (i + 19) div 20 * 20"

definition kaneParent :: "nat \<Rightarrow> string" where
  "kaneParent i = (if i mod 20 = 0 then ''172.16.255.254'' else kaneHost (leaderOf i))"

definition kaneConfig :: "bool \<Rightarrow> goint \<Rightarrow> nat \<Rightarrow> config" where
  "kaneConfig p d i = defaultConfig\<lparr>cfDoPrivateMount := p, cfDebug := (d = 1), cfMyId := digits i,
     cfMyAddress := kaneHost i, cfParent := kaneParent i\<rparr>"

lemma trimLeft_letters:
  "set ls \<subseteq> set cs \<Longrightarrow> ds \<noteq> [] \<Longrightarrow> hd ds \<notin> set cs \<Longrightarrow> trimLeft (ls @ ds) cs = ds"
  by (cases ds) (simp_all add: trimLeft_def dropWhile_append2 subset_iff)

lemma digit_no_letter:
  assumes "isDigit c"
  shows "c \<notin> set ''abcdefghijklmnopqrstuvwxyz -''"
proof -
  have "\<forall>k\<in>set (map of_char ''abcdefghijklmnopqrstuvwxyz -''). k < 48 \<or> (57 :: nat) < k" by simp
  then have "\<forall>d\<in>set ''abcdefghijklmnopqrstuvwxyz -''. of_char d < (48 :: nat) \<or> (57 :: nat) < of_char d"
    by (simp only: set_map ball_simps)
  with assms show ?thesis by (auto simp only: isDigit_def not_le)
qed

abbreviation nodeNumber :: fexp where "nodeNumber \<equiv> HostBase Host"

lemma nodeNumber_kane: "evalF (Some (kaneHost i)) nodeNumber = Inr (digits i)"
  using trimLeft_letters [of "''kn''" "''abcdefghijklmnopqrstuvwxyz -''" "digits i"]
    digit_no_letter [OF hd_digits_isDigit [of i]]
  by (simp add: kaneHost_def)

lemma asInt_20: "asInt ''20'' = Inr 20"
proof -
  have "digits 20 = ''20''" by (simp add: digits.simps)
  then show ?thesis using asInt_digits [of 20] by simp
qed

definition kaneParentExp :: fexp where
  "kaneParentExp = Cond (Lit ''172.16.255.254'')
     (Concat (Lit ''kn'') (Arith Roundup nodeNumber (Lit ''20'')))
     (Arith Mod nodeNumber (Lit ''20''))"

lemma kaneExps_compile:
  "''172.16.255.254 kn hostname hostbase 20 roundup strcat hostname hostbase 20 % ifelse'' =
     join CHR '' '' (compile kaneParentExp)"
  "''hostname hostbase'' = join CHR '' '' (compile nodeNumber)"
  "''hostname'' = join CHR '' '' (compile Host)"
  by (simp_all add: kaneParentExp_def)

lemma kaneExps_wf: "wfexp opmap0 kaneParentExp" "wfexp opmap0 nodeNumber" "wfexp opmap0 Host"
  by (simp_all add: kaneParentExp_def opmap0_def isArith_def)

lemma kaneParent_value:
  assumes "i + 19 < 2 ^ 63"
  shows "evalF (Some (kaneHost i)) kaneParentExp = Inr (kaneParent i)"
proof -
  have i: "i < 2 ^ 63" using assms by simp
  have l: "leaderOf i < 2 ^ 63" unfolding leaderOf_def using assms by (simp add: div_times_less_eq_dividend le_less_trans)
  have up: "arith Roundup (word_of_nat i) 20 = Inr (word_of_nat (leaderOf i))"
    using arith_roundup_nat [of 20 i] assms by (simp add: leaderOf_def add.commute del: arith.simps)
  have md: "arith Mod (word_of_nat i) 20 = Inr (word_of_nat (i mod 20))"
    using remd_nat [of i 20, where 'w = 64] i by simp
  have m: "i mod 20 < 2 ^ 63" "word_of_nat (i mod 20) = (0 :: goint) \<longleftrightarrow> i mod 20 = 0"
    using word_of_nat_eq_0 [of "i mod 20", where 'w = 64] i by (auto intro: le_less_trans [OF mod_less_eq_dividend])
  show ?thesis
    unfolding kaneParentExp_def evalF.simps(5,6) evalF.simps(4) nodeNumber_kane
    using up md l m i
    by (simp add: asInt_20 asInt_digits rt_def itoa_nat kaneParent_def kaneHost_def
        del: arith.simps evalF.simps(2-6))
qed

lemma kane_start:
  assumes "i + 19 < 2 ^ 63" and "shellArgs ''./gproc'' sh"
  shows "mainStart (Some (kaneHost i)) (remoteArgs sh (kaneArgs p d (word_of_nat i))) =
    Some (if d = 0 \<or> d = 1 then Started (kaneConfig p d i) (kaneHost i @ '':6666'') RoleSlave else Exit2)"
proof -
  have e: "evalFlag (Some (kaneHost i)) opmap0 0 (join CHR '' '' (compile kaneParentExp)) f = Some (Some (kaneParent i), f)"
    "evalFlag (Some (kaneHost i)) opmap0 0 (join CHR '' '' (compile nodeNumber)) f = Some (Some (digits i), f)"
    "evalFlag (Some (kaneHost i)) opmap0 0 (join CHR '' '' (compile Host)) f = Some (Some (kaneHost i), f)" for f
    by (rule evalFlag_compile [OF HOL.refl kaneExps_wf(1) kaneParent_value [OF assms(1)]],
        rule evalFlag_compile [OF HOL.refl kaneExps_wf(2) nodeNumber_kane],
        rule evalFlag_compile [OF HOL.refl kaneExps_wf(3)], simp)
  show ?thesis
    unfolding kaneArgs_remote [OF assms(2)] mainStart_def parseArgs_flags parseArgs_command parseBool_itoa
      kaneExps_compile
    by (simp add: e kaneConfig_def defaultConfig_def chooseRole_def Let_def del: compile.simps)
qed


lemma kane_countUp:
  assumes "h + 1 < 2 ^ 63" and "l \<le> h"
  shows "countUp (word_of_nat l :: goint) (word_of_nat h) = Some (map word_of_nat [l..<Suc h])"
  using assms by (intro countUp_nat) simp_all

lemma kane_level:
  assumes "i < 2 ^ 63"
  shows "remd (word_of_nat i) blockSize = Inr 0 \<longleftrightarrow> i mod 20 = 0"
proof -
  have "i mod 20 < 2 ^ 63" using assms by (auto intro: le_less_trans [OF mod_less_eq_dividend])
  then have "(word_of_nat (i mod 20) :: goint) = 0 \<longleftrightarrow> i mod 20 = 0"
    using word_of_nat_eq_0 [of "i mod 20", where 'w = 64] by simp
  then show ?thesis
    using remd_nat [of i 20, where 'w = 64] assms by (simp add: blockSize_def)
qed

lemma kane_spawned:
  assumes "h + 1 < 2 ^ 63"
  shows "map (kaneArgs p d) (filter (\<lambda>i. (remd i blockSize = Inr 0) = m) (map word_of_nat [l..<Suc h])) =
      map (\<lambda>i. kaneArgs p d (word_of_nat i)) (filter (\<lambda>i. (i mod 20 = 0) = m) [l..<Suc h])"
proof -
  have "filter (\<lambda>i. (remd (word_of_nat i :: goint) blockSize = Inr 0) = m) [l..<Suc h] =
      filter (\<lambda>i. (i mod 20 = 0) = m) [l..<Suc h]"
    by (rule filter_cong [OF HOL.refl]) (use kane_level assms in auto)
  then show ?thesis by (simp add: filter_map comp_def del: upt_Suc)
qed

text \<open>
  C30. The launcher builds a tree of two levels. With level 1 it starts gproc on exactly the
  multiples of 20 among the numbers it is given and with any other level on exactly the rest.
  On each node the command line that is left after the remote shell makes gproc a slave whose
  identifier is its number, whose address is its host name, and whose parent is the front end
  for a multiple of 20 and otherwise the next such node above it, at the address that node
  gives itself. That node is one of those level 1 starts exactly if it is not above the
  highest number. A debug level other than 0 and 1 makes every node refuse its command line.
\<close>
theorem kane_tree:
  assumes "h + 19 < 2 ^ 63" and "l \<le> h" and "shellArgs ''./gproc'' sh"
    and "\<And>i. l \<le> i \<Longrightarrow> i \<le> h \<Longrightarrow> ok (kaneArgs p d (word_of_nat i))"
  shows "kaneMain ok p d (word_of_nat l) (word_of_nat h) (lvl # args) =
      Some (Launched (map (\<lambda>i. kaneArgs p d (word_of_nat i))
        (filter (\<lambda>i. (i mod 20 = 0) = (lvl = ''1'')) [l..<Suc h]))) \<and>
    (\<forall>i. l \<le> i \<and> i \<le> h \<longrightarrow>
      mainStart (Some (kaneHost i)) (remoteArgs sh (kaneArgs p d (word_of_nat i))) =
        Some (if d = 0 \<or> d = 1 then Started (kaneConfig p d i) (kaneHost i @ '':6666'') RoleSlave else Exit2) \<and>
      (i mod 20 \<noteq> 0 \<longrightarrow>
         cfParent (kaneConfig p d i) = cfMyAddress (kaneConfig p d (leaderOf i)) \<and>
         leaderOf i mod 20 = 0 \<and> i < leaderOf i \<and> leaderOf i < i + 20 \<and>
         (leaderOf i \<in> set (filter (\<lambda>i. (i mod 20 = 0) = True) [l..<Suc h]) \<longleftrightarrow> leaderOf i \<le> h)))"
    (is "?launch \<and> ?nodes")
proof
  have "list_all ok (map (\<lambda>i. kaneArgs p d (word_of_nat i)) (filter P [l..<Suc h]))" for P
    using assms(4) by (auto simp: list_all_iff)
  then show ?launch
    using kane_countUp [of h l] kane_spawned [of h p d _ l] assms(1,2)
    by (simp add: kaneMain_def kaneRunlevel_def spawnAll_def del: upt_Suc)
next
  show ?nodes
  proof (intro allI impI conjI, goal_cases)
    case (1 i)
    with assms(1) show ?case by (intro kane_start assms(3)) simp
  next
    case (2 i)
    then show ?case by (simp add: kaneConfig_def kaneParent_def)
  next
    case (3 i)
    then show ?case by (simp add: leaderOf_def)
  next
    case (4 i)
    have "20 dvd leaderOf i" "i \<le> leaderOf i" using roundup_least [of 20 i] by (simp_all add: leaderOf_def)
    with 4 show ?case by (metis dvd_imp_mod_0 le_neq_implies_less)
  next
    case (5 i)
    then show ?case using roundup_least(3) [of 20 i] by (simp add: leaderOf_def)
  next
    case (6 i)
    have "20 dvd leaderOf i" "i \<le> leaderOf i" using roundup_least [of 20 i] by (simp_all add: leaderOf_def)
    with 6 show ?case by (auto simp: less_Suc_eq_le mod_eq_0_iff_dvd simp del: upt_Suc)
  qed
qed


text \<open>A shell: words between blanks, quotes removed.\<close>

fun lexShell :: "bool \<Rightarrow> string option \<Rightarrow> string \<Rightarrow> string list" where
  "lexShell q acc [] = (case acc of None \<Rightarrow> [] | Some a \<Rightarrow> [a])"
| "lexShell True acc (c # cs) =
     (if c = CHR 0x27 then lexShell False acc cs
      else lexShell True (Some ((case acc of None \<Rightarrow> [] | Some a \<Rightarrow> a) @ [c])) cs)"
| "lexShell False acc (c # cs) =
     (if c = CHR 0x27 then lexShell True (Some (case acc of None \<Rightarrow> [] | Some a \<Rightarrow> a)) cs
      else if c = CHR '' '' then (case acc of None \<Rightarrow> lexShell False None cs | Some a \<Rightarrow> a # lexShell False None cs)
      else lexShell False (Some ((case acc of None \<Rightarrow> [] | Some a \<Rightarrow> a) @ [c])) cs)"

definition demoShell :: "string list \<Rightarrow> string list" where
  "demoShell ws = lexShell False None (concat (map (\<lambda>w. w @ '' '') ws))"

lemma plainChar_not: "plainChar c \<Longrightarrow> c \<noteq> CHR 0x27 \<and> c \<noteq> CHR '' ''"
  by (auto simp: plainChar_def isDigit_def)

lemma lexShell_plain:
  "plainWord w \<Longrightarrow> lexShell False (Some a) (w @ r) = lexShell False (Some (a @ w)) r"
  by (induction w arbitrary: a) (auto dest: plainChar_not)

lemma lexShell_start:
  "plainWord w \<Longrightarrow> w \<noteq> [] \<Longrightarrow> lexShell False None (w @ r) = lexShell False (Some w) r"
  by (cases w) (auto dest: plainChar_not simp: lexShell_plain)

lemma lexShell_quoted:
  "CHR 0x27 \<notin> set v \<Longrightarrow> lexShell True (Some a) (v @ CHR 0x27 # r) = lexShell False (Some (a @ v)) r"
  by (induction v arbitrary: a) auto

lemma lexShell_blanks: "lexShell False None (replicate k CHR '' '' @ r) = lexShell False None r"
  by (induction k) auto

lemma lexShell_word:
  assumes "shellWord w a"
  shows "lexShell False None (w @ CHR '' '' # r) = a # lexShell False None r"
  using assms unfolding shellWord_def
proof (elim disjE exE conjE)
  fix opt v
  assume w: "w = opt @ quoted v" "a = opt @ v" "plainWord opt" "CHR 0x27 \<notin> set v"
  then show ?thesis
    by (cases "opt = []") (simp_all add: quoted_def lexShell_start lexShell_quoted)
next
  fix k
  assume w: "w = a @ replicate k CHR '' ''" "a \<noteq> []" "plainWord a"
  have "lexShell False (Some a) (replicate k CHR '' '' @ CHR '' '' # r) = a # lexShell False None r"
    using lexShell_blanks [of "k - 1" "CHR '' '' # r"] by (cases k) simp_all
  with w show ?thesis by (simp add: lexShell_start)
qed

lemma demoShell_args: "shellArgs cmd demoShell"
proof -
  have "list_all2 shellWord ws as \<Longrightarrow> demoShell ws = as" for ws as
    by (induction rule: list_all2_induct) (simp_all add: demoShell_def lexShell_word)
  then show ?thesis by (auto simp: shellArgs_def)
qed

theorem kane_tree_witness:
  "kaneMain (\<lambda>_. True) True 0 (word_of_nat 39) (word_of_nat 40) [''1''] =
      Some (Launched [kaneArgs True 0 40]) \<and>
   mainStart (Some ''kn39'') (remoteArgs demoShell (kaneArgs True 0 39)) =
      Some (Started (kaneConfig True 0 39) (kaneHost 39 @ '':6666'') RoleSlave) \<and>
   cfParent (kaneConfig True 0 39) = ''kn40''"
proof -
  have d: "digits 39 = ''39''" "digits 40 = ''40''" by (simp_all add: digits.simps)
  have l: "[39..<Suc 40] = [39, 40 :: nat]" by (simp add: upt_rec)
  have w: "word_of_nat 39 = (39 :: goint)" "word_of_nat 40 = (40 :: goint)" by simp_all
  have t: "kaneMain (\<lambda>_. True) True 0 (word_of_nat 39) (word_of_nat 40) (''1'' # []) =
      Some (Launched (map (\<lambda>i. kaneArgs True 0 (word_of_nat i))
        (filter (\<lambda>i. (i mod 20 = 0) = (''1'' = ''1'')) [39..<Suc 40]))) \<and>
    (\<forall>i. 39 \<le> i \<and> i \<le> 40 \<longrightarrow>
      mainStart (Some (kaneHost i)) (remoteArgs demoShell (kaneArgs True 0 (word_of_nat i))) =
        Some (if (0 :: goint) = 0 \<or> (0 :: goint) = 1
          then Started (kaneConfig True 0 i) (kaneHost i @ '':6666'') RoleSlave else Exit2) \<and>
      (i mod 20 \<noteq> 0 \<longrightarrow>
         cfParent (kaneConfig True 0 i) = cfMyAddress (kaneConfig True 0 (leaderOf i)) \<and>
         leaderOf i mod 20 = 0 \<and> i < leaderOf i \<and> leaderOf i < i + 20 \<and>
         (leaderOf i \<in> set (filter (\<lambda>i. (i mod 20 = 0) = True) [39..<Suc 40]) \<longleftrightarrow> leaderOf i \<le> 40)))"
    by (rule kane_tree [OF _ _ demoShell_args]) simp_all
  have host: "kaneHost 39 = ''kn39''" "kaneHost 40 = ''kn40''" by (simp_all add: kaneHost_def d)
  have parent: "cfParent (kaneConfig True 0 39) = ''kn40''"
    by (simp add: kaneConfig_def kaneParent_def leaderOf_def host)
  from t [THEN conjunct2, rule_format, of 39]
  have "mainStart (Some ''kn39'') (remoteArgs demoShell (kaneArgs True 0 39)) =
      Some (Started (kaneConfig True 0 39) (kaneHost 39 @ '':6666'') RoleSlave)"
    by (simp only: host w) simp
  moreover from t [THEN conjunct1]
  have "kaneMain (\<lambda>_. True) True 0 (word_of_nat 39) (word_of_nat 40) [''1''] =
      Some (Launched [kaneArgs True 0 40])"
    by (simp only: l) simp
  ultimately show ?thesis using parent by blast
qed


section \<open>The other launchers\<close>

lemma strongboxArgs_remote:
  assumes "shellArgs ''./gproc_linux_arm'' sh"
  shows "remoteArgs sh (strongboxArgs d i) =
    [''-myParent='' @ ''hostname base 7 roundup sb strcat 10.0.0.253 hostname base 7 % ifelse'',
     ''-myId='' @ ''hostname base 7 % 1  + hostname base 7 / hostname base   7 %  ifelse'',
     ''-myAddress='' @ ''hostname'', ''-debug='' @ itoa d, ''s'']"
proof -
  have a: "''-myAddress='' @ ''hostname'' = ''-myAddress=hostname''" by simp
  show ?thesis
    unfolding a
    by (rule shellArgs_remote [OF assms], simp only: strongboxArgs_def Let_def drop_Suc_Cons drop_0 numeral_nat
        list.rel_inject list_all2_Cons list_all2_Nil, intro conjI shell_words)
      (simp_all add: plainChar_letter)
qed

lemma kfArgs_remote:
  assumes "shellArgs binary sh" and "plainWord binary" "binary \<noteq> []" and "CHR 0x27 \<notin> set parent"
  shows "remoteArgs sh (kfArgs binary parent p d i) =
    [''-myParent='' @ parent, ''-myId='' @ ''hostname base  '', ''-myAddress='' @ ''hostname'',
     ''-p='' @ showBool p, ''-debug='' @ itoa d, ''s'']"
proof -
  have a: "''-myAddress='' @ ''hostname'' = ''-myAddress=hostname''" by simp
  show ?thesis
    unfolding a
    by (rule shellArgs_remote [OF assms(1)], simp only: kfArgs_def Let_def drop_Suc_Cons drop_0 numeral_nat
        list.rel_inject list_all2_Cons list_all2_Nil, intro conjI shell_words assms)
      (simp_all add: plainChar_letter)
qed

lemma startArgs_remote:
  assumes "shellArgs ''./gproc_linux_amd64'' sh"
  shows "remoteArgs sh (startArgs p d i) =
    [''-myParent='' @ ''hostname base 20 roundup kn strcat 10.1.234.234 hostname base 20 % ifelse'',
     ''-myId='' @ ''hostname base 20 % 1  + hostname base 20 / hostname base    %  ifelse'',
     ''-myAddress='' @ ''hostname'', ''-p='' @ showBool p, ''-debug='' @ itoa d, ''s'']"
proof -
  have a: "''-myAddress='' @ ''hostname'' = ''-myAddress=hostname''" by simp
  show ?thesis
    unfolding a
    by (rule shellArgs_remote [OF assms], simp only: startArgs_def Let_def drop_Suc_Cons drop_0 numeral_nat
        list.rel_inject list_all2_Cons list_all2_Nil, intro conjI shell_words)
      (simp_all add: plainChar_letter, simp add: plainChar_def isDigit_def)
qed

lemma asInt_base: "atoi ''base'' = (0 :: goint, Some ErrSyntax)"
  by (simp add: atoi_def parseUint_def isDigit_def)

lemma asInt_7: "atoi ''7'' = (7 :: goint, None)"
proof -
  have "digits 7 = ''7''" by (simp add: digits.simps)
  then show ?thesis using atoi_nat [of 7, where 'w = 64] by simp
qed

lemma strongboxId_fails:
  "\<exists>g. evalFlag host opmap0 0 ''hostname base 7 % 1  + hostname base 7 / hostname base   7 %  ifelse'' New =
     Some (None, g)"
  by (cases host)
    (simp_all add: evalFlag_def Eval_def iEval_def opmap0_def op_defs New_def asInt_base asInt_7
      op_apply [of _ "[h]" for h, simplified] andThen_def Pop_def toInt_def)

lemma atoi_20: "atoi ''20'' = (20 :: goint, None)"
proof -
  have "digits 20 = ''20''" by (simp add: digits.simps)
  then show ?thesis using atoi_nat [of 20, where 'w = 64] by simp
qed

lemma startId_fails:
  "\<exists>g. evalFlag host opmap0 0 ''hostname base 20 % 1  + hostname base 20 / hostname base    %  ifelse'' New =
     Some (None, g)"
  by (cases host)
    (simp_all add: evalFlag_def Eval_def iEval_def opmap0_def op_defs New_def asInt_base atoi_20
      op_apply [of _ "[h]" for h, simplified] andThen_def Pop_def toInt_def)

lemma kfId_value:
  "evalFlag (Some h) opmap0 0 ''hostname base  '' New = Some (Some ''base'', \<lparr>stack = [h]\<rparr>)"
  by (simp add: evalFlag_def Eval_def iEval_def opmap0_def op_defs New_def Pop_def)


definition kfConfig :: "string \<Rightarrow> bool \<Rightarrow> goint \<Rightarrow> string \<Rightarrow> config" where
  "kfConfig parent p d h = defaultConfig\<lparr>cfDoPrivateMount := p, cfDebug := (d = 1), cfMyId := ''base'',
     cfMyAddress := h, cfParent := parent\<rparr>"

lemma strongbox_start:
  assumes "shellArgs ''./gproc_linux_arm'' sh"
  shows "mainStart host (remoteArgs sh (strongboxArgs d i)) = Some (if d = 0 \<or> d = 1 then Crash else Exit2)"
  unfolding strongboxArgs_remote [OF assms] mainStart_def parseArgs_flags parseArgs_command parseBool_itoa
  using strongboxId_fails [of host] by auto

lemma start_start:
  assumes "shellArgs ''./gproc_linux_amd64'' sh"
  shows "mainStart host (remoteArgs sh (startArgs p d i)) = Some (if d = 0 \<or> d = 1 then Crash else Exit2)"
  unfolding startArgs_remote [OF assms] mainStart_def parseArgs_flags parseArgs_command parseBool_itoa
  using startId_fails [of host] by auto

lemma kf_start:
  assumes "shellArgs binary sh" "plainWord binary" "binary \<noteq> []" "CHR 0x27 \<notin> set parent"
    and parent: "wfexp opmap0 (Lit parent)"
  shows "mainStart (Some h) (remoteArgs sh (kfArgs binary parent p d i)) =
    Some (if d = 0 \<or> d = 1 then Started (kfConfig parent p d h) (h @ '':6666'') RoleSlave else Exit2)"
proof -
  have e: "evalFlag (Some h) opmap0 0 ''hostname'' f = Some (Some h, f)"
    "evalFlag (Some h) opmap0 0 parent f = Some (Some parent, f)" for f
    by (rule evalFlag_compile [OF kaneExps_compile(3) kaneExps_wf(3)], simp)
      (rule evalFlag_compile [OF _ parent], simp_all)
  show ?thesis
    unfolding kfArgs_remote [OF assms(1-4)] mainStart_def parseArgs_flags parseArgs_command parseBool_itoa
    by (simp add: e kfId_value kfConfig_def defaultConfig_def chooseRole_def Let_def)
qed

lemma spawned_args:
  "strongboxMain ok d low high args = Some (Launched argvs) \<Longrightarrow> argv \<in> set argvs \<Longrightarrow> \<exists>i. argv = strongboxArgs d i"
  "kfMain ok binary parent p d low high = Some (Launched argvs) \<Longrightarrow> argv \<in> set argvs \<Longrightarrow>
     \<exists>i. argv = kfArgs binary parent p d i"
  "startMain ok block p d low high args = Some (Launched argvs) \<Longrightarrow> argv \<in> set argvs \<Longrightarrow> \<exists>i. argv = startArgs p d i"
  by (auto simp: strongboxMain_def strongboxRunlevel_def kfMain_def kfRunlevel_def startMain_def startRunlevel_def
      spawnAll_def Let_def split: list.splits if_splits)

text \<open>
  The launchers written for an operator \<^verbatim>\<open>base\<close> do not give the nodes their numbers.
  Every command line of \<^verbatim>\<open>startstrongbox\<close> and of \<^verbatim>\<open>start\<close> makes gproc end with an error before it has
  done anything else, whatever the host name is. With \<^verbatim>\<open>startkf\<close> every node starts as a
  slave of the given parent at its own address, and all of them with the identifier
  \<^verbatim>\<open>base\<close>.
\<close>
theorem stale_launchers:
  assumes "shellArgs ''./gproc_linux_arm'' sh" "shellArgs ''./gproc_linux_amd64'' sh"
    and "shellArgs binary sh" "plainWord binary" "binary \<noteq> []" "CHR 0x27 \<notin> set parent"
    and "wfexp opmap0 (Lit parent)" and "d = 0 \<or> d = 1"
    and "strongboxMain ok d low high args = Some (Launched sb)"
    and "startMain ok block p d low high args = Some (Launched st)"
    and "kfMain ok binary parent p d low high = Some (Launched kf)"
  shows "(\<forall>argv\<in>set sb. \<forall>host. mainStart host (remoteArgs sh argv) = Some Crash) \<and>
    (\<forall>argv\<in>set st. \<forall>host. mainStart host (remoteArgs sh argv) = Some Crash) \<and>
    (\<forall>argv\<in>set kf. \<forall>h. mainStart (Some h) (remoteArgs sh argv) =
      Some (Started (kfConfig parent p d h) (h @ '':6666'') RoleSlave) \<and>
      cfMyId (kfConfig parent p d h) = ''base'')"
proof (intro conjI)
  show "\<forall>argv\<in>set sb. \<forall>host. mainStart host (remoteArgs sh argv) = Some Crash"
    using spawned_args(1) [OF assms(9)] strongbox_start [OF assms(1)] assms(8) by fastforce
  show "\<forall>argv\<in>set st. \<forall>host. mainStart host (remoteArgs sh argv) = Some Crash"
    using spawned_args(3) [OF assms(10)] start_start [OF assms(2)] assms(8) by fastforce
  show "\<forall>argv\<in>set kf. \<forall>h. mainStart (Some h) (remoteArgs sh argv) =
      Some (Started (kfConfig parent p d h) (h @ '':6666'') RoleSlave) \<and>
      cfMyId (kfConfig parent p d h) = ''base''"
    using spawned_args(2) [OF assms(11)] kf_start [OF assms(3-7)] assms(8)
    by (fastforce simp: kfConfig_def)
qed

lemma demoLaunch:
  "strongboxMain (\<lambda>_. True) 0 (word_of_nat 8) (word_of_nat 8) [''2''] = Some (Launched [strongboxArgs 0 8])"
  "startMain (\<lambda>_. True) 20 True 0 (word_of_nat 8) (word_of_nat 8) [''2''] = Some (Launched [startArgs True 0 8])"
  "kfMain (\<lambda>_. True) b q True 0 (word_of_nat 8) (word_of_nat 8) = Some (Launched [kfArgs b q True 0 8])"
  using kane_countUp [of 8 8]
  by (simp_all add: strongboxMain_def strongboxRunlevel_def startMain_def startRunlevel_def kfMain_def kfRunlevel_def
      spawnAll_def upt_rec remd_def)

theorem stale_launchers_witness:
  "mainStart (Some ''sb8'') (remoteArgs demoShell (strongboxArgs 0 8)) = Some Crash \<and>
   mainStart (Some ''kn8'') (remoteArgs demoShell (startArgs True 0 8)) = Some Crash \<and>
   mainStart (Some ''kn8'') (remoteArgs demoShell (kfArgs ''gproc_linux_amd64'' ''172.16.255.254'' True 0 8)) =
     Some (Started (kfConfig ''172.16.255.254'' True 0 ''kn8'') (''kn8'' @ '':6666'') RoleSlave) \<and>
   cfMyId (kfConfig ''172.16.255.254'' True 0 ''kn8'') = ''base''"
proof -
  have "(\<forall>argv\<in>set [strongboxArgs 0 8]. \<forall>host. mainStart host (remoteArgs demoShell argv) = Some Crash) \<and>
   (\<forall>argv\<in>set [startArgs True 0 8]. \<forall>host. mainStart host (remoteArgs demoShell argv) = Some Crash) \<and>
   (\<forall>argv\<in>set [kfArgs ''gproc_linux_amd64'' ''172.16.255.254'' True 0 8]. \<forall>h.
      mainStart (Some h) (remoteArgs demoShell argv) =
        Some (Started (kfConfig ''172.16.255.254'' True 0 h) (h @ '':6666'') RoleSlave) \<and>
      cfMyId (kfConfig ''172.16.255.254'' True 0 h) = ''base'')"
    by (rule stale_launchers [OF demoShell_args demoShell_args demoShell_args _ _ _ _ _ demoLaunch])
      (simp_all add: plainChar_letter plainChar_def isDigit_def opmap0_def)
  then show ?thesis by simp
qed

end
