(* ===== verification/Cluster.thy ===== *)
theory Cluster
  imports Tree Bootstrap
begin

text \<open>
  A whole cluster: the nodes that a launcher starts evaluate their command lines, join the
  node that each of them dials, and a command of a user then runs in the tree this gives.
\<close>

section \<open>Many slaves join\<close>

text \<open>
  The loop of \<^verbatim>\<open>registerSlaves\<close> over the connections that arrive one after the other: for each
  the remote address, the connection and the data the slave sends.
\<close>

fun joinAll :: "(string \<times> 'c \<times> vitalData) list \<Rightarrow> 'c master \<Rightarrow> runtime_error + 'c master" where
  "joinAll [] m = Inr m"
| "joinAll ((raddr, c, vd) # js) m =
     (case registerSlave raddr c (Some vd) m of
        (Inl p, m') \<Rightarrow> Inl p
      | (Inr resp, m') \<Rightarrow> joinAll js m')"

lemma dom_Slaves_nodesOf: "slaves_inv sv \<Longrightarrow> dom (Slaves sv) = fst ` nodesOf sv"
proof (intro equalityI subsetI)
  fix k assume inv: "slaves_inv sv" and "k \<in> dom (Slaves sv)"
  then obtain s where "Slaves sv k = Some s" by blast
  with slaves_invD(1) [OF inv this] show "k \<in> fst ` nodesOf sv" by (force simp: nodesOf_def member_def)
qed (auto simp: nodesOf_def member_def)

text \<open>The addresses with which a slave can be registered beside others.\<close>

definition joinOk :: "string \<times> 'c \<times> vitalData \<Rightarrow> bool" where
  "joinOk j \<longleftrightarrow> (case j of (raddr, c, vd) \<Rightarrow>
     7 \<le> length (vdServerAddr vd) \<and> take 7 (vdServerAddr vd) \<noteq> ''0.0.0.0'' \<and> vdId vd \<noteq> [])"

abbreviation joinPair :: "string \<times> 'c \<times> vitalData \<Rightarrow> string \<times> string" where
  "joinPair j \<equiv> (vdId (snd (snd j)), vdServerAddr (snd (snd j)))"

lemma joinAll_nodes:
  assumes "slaves_inv (nSlaves m)" and "\<forall>j\<in>set js. joinOk j"
    and "distinct (map (fst \<circ> joinPair) js)" and "distinct (map (snd \<circ> joinPair) js)"
    and "fst ` (nodesOf (nSlaves m) \<union> joinPair ` set js) \<inter> snd ` (nodesOf (nSlaves m) \<union> joinPair ` set js) = {}"
    and "fst ` joinPair ` set js \<inter> fst ` nodesOf (nSlaves m) = {}"
    and "snd ` joinPair ` set js \<inter> snd ` nodesOf (nSlaves m) = {}"
  shows "\<exists>m'. joinAll js m = Inr m' \<and> slaves_inv (nSlaves m') \<and>
    nodesOf (nSlaves m') = nodesOf (nSlaves m) \<union> joinPair ` set js"
  using assms
proof (induction js arbitrary: m)
  case (Cons j js)
  obtain raddr c vd where j: "j = (raddr, c, vd)" by (cases j)
  have f: "fixServerAddr raddr vd = Inr vd"
    using Cons.prems(2) by (simp add: j joinOk_def fixServerAddr_7)
  let ?m1 = "m\<lparr>mNetaddr := learnNetaddr vd (mNetaddr m), nSlaves := snd (Add (nSlaves m) vd c)\<rparr>"
  have r: "registerSlave raddr c (Some vd) m = (Inr (Some (vdId vd)), ?m1)"
    using f by (simp add: registerSlave_def Let_def Add_def)
  have fresh: "fresh (nSlaves m) vd"
    unfolding fresh_def dom_Slaves_nodesOf [OF Cons.prems(1)] dom_Addr2id_nodesOf [OF Cons.prems(1)]
    using Cons.prems(2,5-7) by (auto simp: j joinOk_def)
  have n1: "nodesOf (nSlaves ?m1) = insert (joinPair j) (nodesOf (nSlaves m))"
    using nodesOf_Add [OF fresh, of c] by (simp add: j)
  have new: "fst (joinPair j) \<notin> fst ` joinPair ` set js" "snd (joinPair j) \<notin> snd ` joinPair ` set js"
    using Cons.prems(3,4) by (simp_all add: image_image)
  have "\<exists>m'. joinAll js ?m1 = Inr m' \<and> slaves_inv (nSlaves m') \<and>
      nodesOf (nSlaves m') = nodesOf (nSlaves ?m1) \<union> joinPair ` set js"
  proof (rule Cons.IH)
    show "slaves_inv (nSlaves ?m1)" using Add_inv [OF Cons.prems(1) fresh] by simp
    show "fst ` joinPair ` set js \<inter> fst ` nodesOf (nSlaves ?m1) = {}"
      using new(1) Cons.prems(6) unfolding n1 image_insert list.set Int_insert_right by simp
    show "snd ` joinPair ` set js \<inter> snd ` nodesOf (nSlaves ?m1) = {}"
      using new(2) Cons.prems(7) unfolding n1 image_insert list.set Int_insert_right by simp
    show "fst ` (nodesOf (nSlaves ?m1) \<union> joinPair ` set js) \<inter> snd ` (nodesOf (nSlaves ?m1) \<union> joinPair ` set js) = {}"
      using Cons.prems(5) unfolding n1 by (simp only: list.set image_insert Un_insert_left Un_insert_right)
  qed (use Cons.prems(2-4) in simp_all)
  then show ?case using r n1 by (auto simp: j)
qed simp


section \<open>The tree of those who dial each other\<close>

text \<open>
  The nodes are numbers; \<open>conf\<close> has the configuration a node started with and \<open>listen\<close> the
  address on which it waits for slaves. A slave dials \<^verbatim>\<open>masterAddr\<close>; the nodes below an address
  are those that dial it. \<open>R\<close> has the state of the node at an address when all have joined.
\<close>

definition dialling :: "(nat \<Rightarrow> config) \<Rightarrow> string \<Rightarrow> nat list \<Rightarrow> nat list" where
  "dialling conf a js = filter (\<lambda>i. masterAddr (conf i) = a) js"

definition joinOf ::
  "(nat \<Rightarrow> config) \<Rightarrow> (nat \<Rightarrow> string) \<Rightarrow> (nat \<Rightarrow> string) \<Rightarrow> (nat \<Rightarrow> string) \<Rightarrow> nat \<Rightarrow> string \<times> unit \<times> vitalData"
  where
  "joinOf conf la ra sa i = (la i, (), slaveVital (conf i) (la i) (ra i) (sa i))"

fun dialTree ::
  "nat \<Rightarrow> (nat \<Rightarrow> config) \<Rightarrow> (nat \<Rightarrow> string) \<Rightarrow> (nat \<Rightarrow> string) \<Rightarrow> (string \<Rightarrow> unit master) \<Rightarrow> nat list \<Rightarrow> string
     \<Rightarrow> unit tree list" where
  "dialTree 0 conf listen sa R js a = []"
| "dialTree (Suc n) conf listen sa R js a =
     map (\<lambda>i. Tree (cfMyId (conf i)) (sa i) (nSlaves (R (listen i)))
                (dialTree n conf listen sa R js (listen i)))
       (dialling conf a js)"

lemma joinPair_joinOf: "joinPair (joinOf conf la ra sa i) = (cfMyId (conf i), sa i)"
  by (simp add: joinOf_def slaveVital_def)

lemma joins_at:
  assumes "distinct js" and "inj_on (\<lambda>i. cfMyId (conf i)) (set js)" and "inj_on sa (set js)"
    and "\<And>i. i \<in> set js \<Longrightarrow> 7 \<le> length (sa i) \<and> take 7 (sa i) \<noteq> ''0.0.0.0'' \<and> cfMyId (conf i) \<noteq> []"
    and "\<And>i j. i \<in> set js \<Longrightarrow> j \<in> set js \<Longrightarrow> cfMyId (conf i) \<noteq> sa j"
  shows "\<exists>m. joinAll (map (joinOf conf la ra sa) (dialling conf a js)) startMaster = Inr m \<and>
    slaves_inv (nSlaves m) \<and> nodesOf (nSlaves m) = (\<lambda>i. (cfMyId (conf i), sa i)) ` set (dialling conf a js)"
proof -
  let ?ds = "dialling conf a js" and ?m0 = "startMaster :: unit master"
  let ?js = "map (joinOf conf la ra sa) ?ds"
  have sub: "set ?ds \<subseteq> set js" "distinct ?ds" using assms(1) by (auto simp: dialling_def)
  have m0: "slaves_inv (nSlaves ?m0)" "nodesOf (nSlaves ?m0) = {}"
    by (simp_all add: startMaster_def nodesOf_def member_def)
  have pairs: "joinPair ` set ?js = (\<lambda>i. (cfMyId (conf i), sa i)) ` set ?ds"
    by (simp add: image_image joinOf_def slaveVital_def)
  have "distinct (map (\<lambda>i. cfMyId (conf i)) ?ds)" "distinct (map sa ?ds)"
    using sub inj_on_subset [OF assms(2)] inj_on_subset [OF assms(3)] by (simp_all add: distinct_map)
  then have "distinct (map (fst \<circ> joinPair) ?js)" "distinct (map (snd \<circ> joinPair) ?js)"
    by (simp_all add: comp_def joinOf_def slaveVital_def)
  moreover have "\<forall>j\<in>set ?js. joinOk j"
    using assms(4) sub by (auto simp: joinOk_def joinOf_def slaveVital_def)
  moreover have "fst ` (nodesOf (nSlaves ?m0) \<union> joinPair ` set ?js) \<inter>
      snd ` (nodesOf (nSlaves ?m0) \<union> joinPair ` set ?js) = {}"
    unfolding m0 pairs Un_empty_left image_image fst_conv snd_conv using assms(5) sub(1) by blast
  ultimately show ?thesis
    using joinAll_nodes [OF m0(1), of ?js] unfolding m0(2) pairs by simp
qed

lemma no_blank_addr:
  assumes "slaves_inv sv" and "nodesOf sv = (\<lambda>i. (f i, sa i)) ` A" and "\<And>i. i \<in> A \<Longrightarrow> sa i \<noteq> []"
  shows "[] \<notin> dom (Addr2id sv)"
proof -
  have "dom (Addr2id sv) = sa ` A" using assms(1,2) by (simp add: dom_Addr2id_nodesOf image_image)
  with assms(3) show ?thesis by force
qed

lemma dialling_sub: "i \<in> set (dialling conf a js) \<Longrightarrow> i \<in> set js"
  by (simp add: dialling_def)

text \<open>A tree of nodes that have joined is one in which commands can run.\<close>

lemma dialTree_ok:
  assumes "\<And>a. a \<in> A \<Longrightarrow> slaves_inv (nSlaves (R a)) \<and>
      nodesOf (nSlaves (R a)) = (\<lambda>i. (cfMyId (conf i), sa i)) ` set (dialling conf a js)"
    and "\<And>i. i \<in> set js \<Longrightarrow> sa i \<noteq> [] \<and> listen i \<in> A"
    and "\<And>i. i \<in> set js \<Longrightarrow> masterAddr (conf i) = a \<Longrightarrow> depth i < n"
    and "\<And>i j. i \<in> set js \<Longrightarrow> j \<in> set js \<Longrightarrow> masterAddr (conf j) = listen i \<Longrightarrow> depth j < depth i"
  shows "\<forall>k\<in>set (dialTree n conf listen sa R js a). treeOk k"
  using assms(3)
proof (induction n arbitrary: a)
  case (Suc n)
  show ?case
  proof
    fix k assume "k \<in> set (dialTree (Suc n) conf listen sa R js a)"
    then obtain i where i: "i \<in> set js" "masterAddr (conf i) = a"
      and k: "k = Tree (cfMyId (conf i)) (sa i) (nSlaves (R (listen i))) (dialTree n conf listen sa R js (listen i))"
      by (auto simp: dialling_def)
    note r = assms(1) [OF assms(2) [OF i(1), THEN conjunct2]]
    have deep: "depth j < n" if "j \<in> set js" "masterAddr (conf j) = listen i" for j
      using assms(4) [OF i(1) that] Suc.prems [OF i] by simp
    have pairs: "kidPairs (dialTree n conf listen sa R js (listen i)) =
        (\<lambda>i. (cfMyId (conf i), sa i)) ` set (dialling conf (listen i) js)"
    proof (cases n)
      case 0
      with deep have "dialling conf (listen i) js = []" by (auto simp: dialling_def filter_empty_conv)
      with 0 show ?thesis by (simp add: kidPairs_def)
    qed (simp add: kidPairs_def image_image)
    have "[] \<notin> dom (Addr2id (nSlaves (R (listen i))))"
      by (rule no_blank_addr [OF r [THEN conjunct1] r [THEN conjunct2]]) (use assms(2) dialling_sub in blast)
    then show "treeOk k" using r pairs Suc.IH [OF deep] by (simp add: k)
  qed
qed simp


section \<open>The cluster of the Kane launcher\<close>

definition frontEnd :: string where
  "frontEnd = ''172.16.255.254:6666''"

lemma kaneConfig_sel [simp]:
  "cfMyId (kaneConfig p d i) = digits i" "cfParent (kaneConfig p d i) = kaneParent i"
  "cfCmdPort (kaneConfig p d i) = ''6666''" "cfMyAddress (kaneConfig p d i) = kaneHost i"
  by (simp_all add: kaneConfig_def defaultConfig_def)

lemma digits_inj: "digits i = digits j \<longleftrightarrow> i = j"
  by (metis digitsVal_digits)

lemma kane_masterAddr:
  "masterAddr (kaneConfig p d i) = (if i mod 20 = 0 then frontEnd else kaneHost (leaderOf i) @ '':6666'')"
  by (simp add: masterAddr_def kaneParent_def frontEnd_def)

lemma kaneListen_eq:
  "kaneHost i @ '':6666'' = kaneHost j @ '':6666'' \<longleftrightarrow> i = j" "kaneHost i @ '':6666'' \<noteq> frontEnd"
  by (simp_all add: kaneHost_def digits_inj frontEnd_def)

lemma leaderOf_facts:
  "leaderOf i mod 20 = 0" "i \<le> leaderOf i" "i mod 20 = 0 \<Longrightarrow> leaderOf i = i"
proof -
  show "leaderOf i mod 20 = 0" by (simp add: leaderOf_def)
  show "i \<le> leaderOf i" using roundup_least(2) [of 20 i] by (simp add: leaderOf_def)
  show "i mod 20 = 0 \<Longrightarrow> leaderOf i = i" by (auto simp: leaderOf_def mod_eq_0_iff_dvd elim!: dvdE)
qed

lemma kane_dialling:
  "dialling (kaneConfig p d) frontEnd js = filter (\<lambda>i. i mod 20 = 0) js"
  "dialling (kaneConfig p d) (kaneHost L @ '':6666'') js = filter (\<lambda>i. i mod 20 \<noteq> 0 \<and> leaderOf i = L) js"
proof -
  have f: "masterAddr (kaneConfig p d i) = frontEnd \<longleftrightarrow> i mod 20 = 0" for i
    using kaneListen_eq(2) by (simp add: kane_masterAddr del: append_Cons)
  have L: "masterAddr (kaneConfig p d i) = kaneHost L @ '':6666'' \<longleftrightarrow> i mod 20 \<noteq> 0 \<and> leaderOf i = L" for i
    using kaneListen_eq(2) [of L, symmetric] kaneListen_eq(1) [of "leaderOf i" L]
    by (simp add: kane_masterAddr del: append_Cons append_same_eq)
  show "dialling (kaneConfig p d) frontEnd js = filter (\<lambda>i. i mod 20 = 0) js"
    by (simp add: dialling_def f)
  show "dialling (kaneConfig p d) (kaneHost L @ '':6666'') js = filter (\<lambda>i. i mod 20 \<noteq> 0 \<and> leaderOf i = L) js"
    by (simp add: dialling_def L)
qed

text \<open>What a node list with a specification for two levels selects, node by node.\<close>

definition kanePath :: "nat \<Rightarrow> string list" where
  "kanePath i = (if i mod 20 = 0 then [digits i] else [digits (leaderOf i), digits i])"

definition kaneChosen :: "(nat \<Rightarrow> string) \<Rightarrow> nodeset list \<Rightarrow> nat \<Rightarrow> bool" where
  "kaneChosen sa Ss i \<longleftrightarrow>
     selects (hd Ss) (digits (leaderOf i)) (sa (leaderOf i)) \<and>
     (i mod 20 \<noteq> 0 \<longrightarrow> 1 < length Ss \<and> selects (Ss ! 1) (digits i) (sa i))"

definition kaneKid :: "bool \<Rightarrow> goint \<Rightarrow> (nat \<Rightarrow> string) \<Rightarrow> (string \<Rightarrow> unit master) \<Rightarrow> nat list \<Rightarrow> nat \<Rightarrow> unit tree" where
  "kaneKid p d sa R js L = Tree (digits L) (sa L) (nSlaves (R (kaneHost L @ '':6666'')))
     (map (\<lambda>i. Tree (digits i) (sa i) (nSlaves (R (kaneHost i @ '':6666''))) [])
        (filter (\<lambda>i. i mod 20 \<noteq> 0 \<and> leaderOf i = L) js))"

lemma kaneKid_sel [simp]: "treeId (kaneKid p d sa R js L) = digits L" "treeAddr (kaneKid p d sa R js L) = sa L"
  by (simp_all add: kaneKid_def)

text \<open>There are no more than two levels.\<close>

lemma kane_dialTree:
  assumes "2 \<le> n"
  shows "dialTree n (kaneConfig p d) (\<lambda>i. kaneHost i @ '':6666'') sa R js frontEnd =
    map (kaneKid p d sa R js) (filter (\<lambda>i. i mod 20 = 0) js)"
proof -
  have leaf: "dialTree k (kaneConfig p d) (\<lambda>i. kaneHost i @ '':6666'') sa R js (kaneHost i @ '':6666'') = []"
    if "i mod 20 \<noteq> 0" for k i
  proof -
    have "filter (\<lambda>j. j mod 20 \<noteq> 0 \<and> leaderOf j = i) js = []"
      using that leaderOf_facts(1) by (auto simp: filter_empty_conv)
    then show ?thesis by (cases k) (simp_all add: kane_dialling(2) del: append_Cons)
  qed
  obtain k where n: "n = Suc (Suc k)" using assms by (metis Suc_le_D numeral_2_eq_2 Suc_le_mono)
  show ?thesis
    unfolding n dialTree.simps kane_dialling kaneKid_def
    by (rule map_cong) (auto simp: leaf simp del: append_Cons intro!: map_cong)
qed

lemma runs_no_kids [simp]: "treeKids t = [] \<Longrightarrow> runs Ss t = {[]}"
  by (cases Ss) simp_all

lemma runs_kaneKid:
  "Ss \<noteq> [] \<Longrightarrow> runs (tl Ss) (kaneKid p d sa R js L) = insert []
     {[digits i] | i. i \<in> set js \<and> i mod 20 \<noteq> 0 \<and> leaderOf i = L \<and>
        1 < length Ss \<and> selects (Ss ! 1) (digits i) (sa i)}"
proof (cases "tl Ss")
  case Nil
  moreover assume "Ss \<noteq> []"
  ultimately have "length Ss = 1" by (cases Ss) auto
  then show ?thesis using Nil by simp
next
  case (Cons S Ss')
  then have "1 < length Ss" "Ss ! 1 = S" by (cases Ss; auto)+
  then show ?thesis unfolding Cons kaneKid_def by auto
qed

lemma kane_paths:
  assumes "set js = {l..h}" and "\<forall>Ss\<in>set Sss. Ss \<noteq> []"
  shows "(\<Union>Ss\<in>set Sss. \<Union>k\<in>set (map (kaneKid p d sa R js) (filter (\<lambda>i. i mod 20 = 0) js)).
      if selects (hd Ss) (treeId k) (treeAddr k) then (#) (treeId k) ` runs (tl Ss) k else {}) =
    kanePath ` {i \<in> {l..h}. leaderOf i \<le> h \<and> (\<exists>Ss\<in>set Sss. kaneChosen sa Ss i)}"
    (is "?l = ?r")
proof (intro equalityI subsetI)
  fix x assume "x \<in> ?l"
  then obtain Ss L where Ss: "Ss \<in> set Sss" and L: "L \<in> set js" "L mod 20 = 0" "selects (hd Ss) (digits L) (sa L)"
    and x: "x \<in> (#) (digits L) ` runs (tl Ss) (kaneKid p d sa R js L)"
    by (auto split: if_splits)
  from Ss assms(2) have ne: "Ss \<noteq> []" by blast
  have L': "leaderOf L = L" by (rule leaderOf_facts(3) [OF L(2)])
  from x [unfolded runs_kaneKid [OF ne]] consider "x = [digits L]"
    | i where "x = [digits L, digits i]" "i \<in> set js" "i mod 20 \<noteq> 0" "leaderOf i = L" "1 < length Ss"
        "selects (Ss ! 1) (digits i) (sa i)" by auto
  then show "x \<in> ?r"
  proof cases
    case 1
    with L L' Ss assms(1) show ?thesis
      by (intro image_eqI [of _ _ L]) (auto simp: kanePath_def kaneChosen_def)
  next
    case 2
    with L Ss assms(1) show ?thesis
      by (intro image_eqI [of _ _ i]) (auto simp: kanePath_def kaneChosen_def)
  qed
next
  fix x assume "x \<in> ?r"
  then obtain i Ss where i: "x = kanePath i" "i \<in> {l..h}" "leaderOf i \<le> h" and Ss: "Ss \<in> set Sss" "kaneChosen sa Ss i"
    by auto
  from Ss assms(2) have ne: "Ss \<noteq> []" by blast
  have L: "leaderOf i \<in> set js" "leaderOf i mod 20 = 0"
    using i(2,3) leaderOf_facts(1,2) [of i] assms(1) by auto
  have "x \<in> (#) (digits (leaderOf i)) ` runs (tl Ss) (kaneKid p d sa R js (leaderOf i))"
    using i Ss(2) leaderOf_facts(3) [of i] assms(1)
    unfolding runs_kaneKid [OF ne] by (auto simp: kanePath_def kaneChosen_def)
  moreover have "selects (hd Ss) (digits (leaderOf i)) (sa (leaderOf i))" using Ss(2) by (simp add: kaneChosen_def)
  moreover have "kaneKid p d sa R js (leaderOf i) \<in> set (map (kaneKid p d sa R js) (filter (\<lambda>i. i mod 20 = 0) js))"
    using L by simp
  ultimately show "x \<in> ?l" using Ss(1)
    by (intro UN_I [of Ss] UN_I [of "kaneKid p d sa R js (leaderOf i)"]) simp_all
qed




text \<open>Two nodes, a leader and one below it, and a command for all nodes of both levels.\<close>

definition demoServer :: "nat \<Rightarrow> string" where
  "demoServer i = ''10.0.0.'' @ digits i @ '':5000''"


end
