(* ===== verification/Ldd.thy ===== *)
theory Ldd
  imports GoPath GoStrings
begin

text \<open>
  Package \<^verbatim>\<open>ldd\<close> (\<^verbatim>\<open>src/src/ldd/ldd.go\<close>): the libraries a program needs, found by following the
  imports that package \<^verbatim>\<open>debug/elf\<close> reads from each of them. The queue of names is a Go channel
  of a fixed capacity that only this goroutine reads, so a send to the full channel is a
  deadlock.
\<close>

section \<open>The search\<close>

text \<open>
  The files: whether \<^verbatim>\<open>elf.Open\<close> opens a path, what \<^verbatim>\<open>ImportedLibraries\<close> gives for it (\<open>None\<close> is an
  error) and \<^verbatim>\<open>os.Readlink\<close>.
\<close>

record elfFiles =
  elfOpen :: "string \<Rightarrow> bool"
  elfImports :: "string \<Rightarrow> string list option"
  elfReadlink :: "string \<Rightarrow> string option"

datatype lddResult = LddFiles "string list" | LddError | LddDeadlock

definition chanSize :: nat where
  "chanSize = 256"

fun searchPath :: "elfFiles \<Rightarrow> string \<Rightarrow> string \<Rightarrow> string list \<Rightarrow> (string \<times> string) option" where
  "searchPath fs root lib [] = None"
| "searchPath fs root lib (libdir # libpath) =
     (let binpath = pathJoin [root, libdir, lib]
      in if elfOpen fs binpath then Some (libdir, binpath) else searchPath fs root lib libpath)"

text \<open>The directory and the path under which a library is opened.\<close>

definition locate :: "elfFiles \<Rightarrow> string \<Rightarrow> string list \<Rightarrow> string \<Rightarrow> (string \<times> string) option" where
  "locate fs root libpath lib =
     (if isAbs lib
      then (let binpath = pathJoin [root @ lib] in if elfOpen fs binpath then Some ([], binpath) else None)
      else searchPath fs root lib libpath)"

text \<open>
  The loop over a chain of symbolic links; it is given fuel, since the names are not followed
  the way the system follows them and the chain may not end.
\<close>

fun followLinks ::
  "elfFiles \<Rightarrow> string \<Rightarrow> string \<Rightarrow> nat \<Rightarrow> string \<Rightarrow> (string \<rightharpoonup> string) \<Rightarrow> string list
     \<Rightarrow> ((string \<rightharpoonup> string) \<times> string list) option" where
  "followLinks fs root libdir n binpath known res =
     (case elfReadlink fs binpath of
        None \<Rightarrow> Some (known, res)
      | Some linkname \<Rightarrow>
          (case n of 0 \<Rightarrow> None | Suc k \<Rightarrow>
             (let binpath' = pathJoin [root, libdir, linkname]
              in followLinks fs root libdir k binpath' (known(linkname \<mapsto> binpath')) (res @ [linkname]))))"

declare followLinks.simps [simp del]

text \<open>The fuel counts the names taken from the channel; \<open>nl\<close> is the fuel for a chain of links.\<close>

fun lddLoop ::
  "elfFiles \<Rightarrow> string \<Rightarrow> string list \<Rightarrow> nat \<Rightarrow> nat \<Rightarrow> string list \<Rightarrow> (string \<rightharpoonup> string) \<Rightarrow> string list
     \<Rightarrow> lddResult option" where
  "lddLoop fs root libpath nl n [] known res = Some (LddFiles res)"
| "lddLoop fs root libpath nl 0 (lib # q) known res = None"
| "lddLoop fs root libpath nl (Suc n) (lib # q) known res =
     (if known lib \<noteq> None then lddLoop fs root libpath nl n q known res
      else (case locate fs root libpath lib of
        None \<Rightarrow> Some LddError
      | Some (libdir, binpath) \<Rightarrow>
          (case elfImports fs binpath of
             None \<Rightarrow> Some LddError
           | Some dynlibs \<Rightarrow>
               if length q + length dynlibs > chanSize then Some LddDeadlock
               else (case followLinks fs root libdir nl binpath (known(lib \<mapsto> binpath)) (res @ [binpath]) of
                       None \<Rightarrow> None
                     | Some (known', res') \<Rightarrow>
                         lddLoop fs root libpath nl n (q @ dynlibs) known' res'))))"

definition Lddroot :: "elfFiles \<Rightarrow> nat \<Rightarrow> nat \<Rightarrow> string \<Rightarrow> string \<Rightarrow> string \<Rightarrow> lddResult option" where
  "Lddroot fs nl n cmd root liblist =
     (let libpath = split CHR '':'' liblist;
          binpath = pathJoin [root, cmd]
      in if \<not> elfOpen fs binpath then Some LddError
         else lddLoop fs root libpath nl n [cmd] Map.empty [])"

definition Ldd :: "elfFiles \<Rightarrow> nat \<Rightarrow> nat \<Rightarrow> string \<Rightarrow> string \<Rightarrow> lddResult option" where
  "Ldd fs nl n cmd liblist = Lddroot fs nl n cmd ''/'' liblist"

section \<open>What a program needs\<close>

inductive needs :: "elfFiles \<Rightarrow> string \<Rightarrow> string list \<Rightarrow> string \<Rightarrow> string \<Rightarrow> bool"
  for fs root libpath cmd where
  cmd: "needs fs root libpath cmd cmd"
| import: "needs fs root libpath cmd l \<Longrightarrow> locate fs root libpath l = Some (d, bp) \<Longrightarrow>
    elfImports fs bp = Some dyn \<Longrightarrow> x \<in> set dyn \<Longrightarrow> needs fs root libpath cmd x"

text \<open>The texts of the links on the way from a path.\<close>

inductive chain :: "elfFiles \<Rightarrow> string \<Rightarrow> string \<Rightarrow> string \<Rightarrow> string \<Rightarrow> bool" for fs root d where
  here: "elfReadlink fs bp = Some l \<Longrightarrow> chain fs root d bp l"
| next_link: "elfReadlink fs bp = Some l \<Longrightarrow> chain fs root d (pathJoin [root, d, l]) l' \<Longrightarrow> chain fs root d bp l'"

definition linkNames :: "elfFiles \<Rightarrow> string \<Rightarrow> string list \<Rightarrow> string \<Rightarrow> string set" where
  "linkNames fs root libpath cmd =
     {l. \<exists>x d bp. needs fs root libpath cmd x \<and> locate fs root libpath x = Some (d, bp) \<and> chain fs root d bp l}"

lemma chain_step:
  "elfReadlink fs bp = Some l \<Longrightarrow> {x. chain fs root d bp x} = insert l {x. chain fs root d (pathJoin [root, d, l]) x}"
  by (auto intro: chain.intros elim: chain.cases)

lemma followLinks_result:
  "followLinks fs root d n bp known res = Some (known', res') \<Longrightarrow>
   dom known' = dom known \<union> {l. chain fs root d bp l} \<and> set res' = set res \<union> {l. chain fs root d bp l}"
proof (induction n arbitrary: bp known res)
  case 0
  then have "elfReadlink fs bp = None" by (auto simp: followLinks.simps split: option.splits)
  with 0 show ?case by (auto simp: followLinks.simps elim: chain.cases)
next
  case (Suc n)
  show ?case
  proof (cases "elfReadlink fs bp")
    case None
    with Suc.prems show ?thesis by (auto simp: followLinks.simps [of _ _ _ _ bp] elim: chain.cases)
  next
    case (Some l)
    with Suc.prems have "followLinks fs root d n (pathJoin [root, d, l]) (known(l \<mapsto> pathJoin [root, d, l])) (res @ [l]) =
        Some (known', res')"
      by (simp add: followLinks.simps [of _ _ _ _ bp] Let_def)
    from Suc.IH [OF this] have
      "dom known' = insert l (dom known) \<union> {x. chain fs root d (pathJoin [root, d, l]) x}"
      "set res' = insert l (set res) \<union> {x. chain fs root d (pathJoin [root, d, l]) x}"
      by (simp_all del: fun_upd_apply)
    then show ?thesis unfolding chain_step [OF Some, of root d] by blast
  qed
qed

text \<open>What the loop keeps.\<close>

definition lddInv ::
  "elfFiles \<Rightarrow> string \<Rightarrow> string list \<Rightarrow> string \<Rightarrow> string list \<Rightarrow> string set \<Rightarrow> string set \<Rightarrow> bool" where
  "lddInv fs root libpath cmd q D R \<longleftrightarrow>
     (\<forall>x\<in>set q. needs fs root libpath cmd x) \<and> cmd \<in> D \<union> set q \<and>
     R \<subseteq> {bp. \<exists>x d. needs fs root libpath cmd x \<and> locate fs root libpath x = Some (d, bp)} \<union>
         linkNames fs root libpath cmd \<and>
     (\<forall>x\<in>D. x \<in> linkNames fs root libpath cmd \<or>
        (\<exists>d bp dyn. locate fs root libpath x = Some (d, bp) \<and> elfImports fs bp = Some dyn \<and>
           set dyn \<subseteq> D \<union> set q \<and> bp \<in> R \<and> {l. chain fs root d bp l} \<subseteq> R))"

lemma lddInv_skip:
  "lddInv fs root libpath cmd (x # q) D R \<Longrightarrow> x \<in> D \<Longrightarrow> lddInv fs root libpath cmd q D R"
  unfolding lddInv_def by (simp add: insert_absorb)

lemma lddInv_take:
  assumes inv: "lddInv fs root libpath cmd (x # q) D R"
    and loc: "locate fs root libpath x = Some (d, bp)" and imp: "elfImports fs bp = Some dyn"
  defines "L \<equiv> {l. chain fs root d bp l}"
  shows "lddInv fs root libpath cmd (q @ dyn) (insert x D \<union> L) (insert bp R \<union> L)"
proof -
  have nx: "needs fs root libpath cmd x" using inv by (simp add: lddInv_def)
  then have L: "L \<subseteq> linkNames fs root libpath cmd" using loc by (auto simp: L_def linkNames_def)
  have nd: "needs fs root libpath cmd y" if "y \<in> set dyn" for y
    using needs.import [OF nx loc imp that] .
  let ?D = "insert x D \<union> L" and ?R = "insert bp R \<union> L"
  define ok where "ok D q R y \<longleftrightarrow> (\<exists>d bp dyn. locate fs root libpath y = Some (d, bp) \<and>
      elfImports fs bp = Some dyn \<and> set dyn \<subseteq> D \<union> set q \<and> bp \<in> R \<and> {l. chain fs root d bp l} \<subseteq> R)" for D q R y
  have mono: "ok D' q' R' y" if "ok D (x # q) R y" "D \<union> set (x # q) \<subseteq> D' \<union> set q'" "R \<subseteq> R'" for D' q' R' y
    using that unfolding ok_def by blast
  have "y \<in> linkNames fs root libpath cmd \<or> ok ?D (q @ dyn) ?R y" if y: "y \<in> ?D" for y
  proof -
    consider "y = x" | "y \<in> L" | "y \<in> D" using y by blast
    then show ?thesis
    proof cases
      case 1
      then show ?thesis using loc imp by (auto simp: ok_def L_def)
    next
      case 3
      with inv have "y \<in> linkNames fs root libpath cmd \<or> ok D (x # q) R y"
        by (simp add: lddInv_def ok_def)
      then show ?thesis using mono [of y ?D "q @ dyn" ?R] by auto
    qed (use L in auto)
  qed
  moreover have "cmd \<in> ?D \<union> set (q @ dyn)" "\<forall>y\<in>set (q @ dyn). needs fs root libpath cmd y"
    using inv nd by (auto simp: lddInv_def)
  moreover have "?R \<subseteq> {bp. \<exists>x d. needs fs root libpath cmd x \<and> locate fs root libpath x = Some (d, bp)} \<union>
      linkNames fs root libpath cmd"
    using inv L nx loc by (auto simp: lddInv_def)
  ultimately show ?thesis unfolding lddInv_def ok_def by blast
qed

lemma lddLoop_closed:
  "lddLoop fs root libpath nl n q known res = Some (LddFiles res') \<Longrightarrow>
   lddInv fs root libpath cmd q (dom known) (set res) \<Longrightarrow>
   \<exists>D. lddInv fs root libpath cmd [] D (set res')"
proof (induction n arbitrary: q known res)
  case 0
  then show ?case by (cases q) auto
next
  case (Suc n)
  show ?case
  proof (cases q)
    case (Cons lib q')
    show ?thesis
    proof (cases "known lib")
      case (Some b)
      with Suc.prems(1) Cons have "lddLoop fs root libpath nl n q' known res = Some (LddFiles res')" by simp
      with Suc.IH lddInv_skip Suc.prems(2) Cons Some show ?thesis by blast
    next
      case None
      with Suc.prems(1) Cons obtain d bp dyn known' res'' where
        loc: "locate fs root libpath lib = Some (d, bp)" and imp: "elfImports fs bp = Some dyn"
        and f: "followLinks fs root d nl bp (known(lib \<mapsto> bp)) (res @ [bp]) = Some (known', res'')"
        and rest: "lddLoop fs root libpath nl n (q' @ dyn) known' res'' = Some (LddFiles res')"
        by (auto split: option.splits if_splits)
      from lddInv_take [OF Suc.prems(2) [unfolded Cons] loc imp] followLinks_result [OF f]
      have "lddInv fs root libpath cmd (q' @ dyn) (dom known') (set res'')" by simp
      from Suc.IH [OF rest this] show ?thesis .
    qed
  qed (use Suc.prems in auto)
qed

lemma lddInv_end:
  assumes "lddInv fs root libpath cmd [] D R"
    and apart: "\<And>x. needs fs root libpath cmd x \<Longrightarrow> x \<notin> linkNames fs root libpath cmd"
  shows "R = {bp. \<exists>x d. needs fs root libpath cmd x \<and> locate fs root libpath x = Some (d, bp)} \<union>
      linkNames fs root libpath cmd \<and>
    (\<forall>x. needs fs root libpath cmd x \<longrightarrow> locate fs root libpath x \<noteq> None)"
proof -
  have settled: "\<exists>d bp dyn. locate fs root libpath x = Some (d, bp) \<and> elfImports fs bp = Some dyn \<and>
      set dyn \<subseteq> D \<and> bp \<in> R \<and> {l. chain fs root d bp l} \<subseteq> R" if "x \<in> D" "needs fs root libpath cmd x" for x
    using assms(1) that apart [OF that(2)] unfolding lddInv_def by auto
  have inD: "needs fs root libpath cmd x \<Longrightarrow> x \<in> D" for x
  proof (induction rule: needs.induct)
    case cmd
    then show ?case using assms(1) by (simp add: lddInv_def)
  next
    case (import l d bp dyn x)
    with settled [of l] show ?case by auto
  qed
  have all: "locate fs root libpath x = Some (d, bp) \<Longrightarrow> needs fs root libpath cmd x \<Longrightarrow>
      bp \<in> R \<and> {l. chain fs root d bp l} \<subseteq> R" for x d bp
    using settled [OF inD, of x] by auto
  show ?thesis
  proof (intro conjI allI impI equalityI)
    show "R \<subseteq> {bp. \<exists>x d. needs fs root libpath cmd x \<and> locate fs root libpath x = Some (d, bp)} \<union>
        linkNames fs root libpath cmd"
      using assms(1) by (simp add: lddInv_def)
    show "{bp. \<exists>x d. needs fs root libpath cmd x \<and> locate fs root libpath x = Some (d, bp)} \<union>
        linkNames fs root libpath cmd \<subseteq> R"
      using all by (auto simp: linkNames_def)
    show "needs fs root libpath cmd x \<Longrightarrow> locate fs root libpath x \<noteq> None" for x
      using settled [OF inD, of x] by auto
  qed
qed

section \<open>The end of the search\<close>

definition importsOf :: "elfFiles \<Rightarrow> string \<Rightarrow> string list \<Rightarrow> string \<Rightarrow> string list" where
  "importsOf fs root libpath x =
     (case locate fs root libpath x of
        None \<Rightarrow> []
      | Some (d, bp) \<Rightarrow> (case elfImports fs bp of None \<Rightarrow> [] | Some dyn \<Rightarrow> dyn))"

text \<open>The names that can still be sent: those in the channel and the imports of what is not yet known.\<close>

definition pending :: "elfFiles \<Rightarrow> string \<Rightarrow> string list \<Rightarrow> string set \<Rightarrow> string list \<Rightarrow> (string \<rightharpoonup> string) \<Rightarrow> nat" where
  "pending fs root libpath U q known =
     length q + (\<Sum>x\<in>U - dom known. length (importsOf fs root libpath x))"

lemma pending_take:
  assumes "finite U" and "x \<in> U" and "known x = None" and "insert x (dom known) \<subseteq> dom known'"
  shows "pending fs root libpath U (q @ importsOf fs root libpath x) known' < pending fs root libpath U (x # q) known"
proof -
  let ?l = "\<lambda>x. length (importsOf fs root libpath x)"
  have "(\<Sum>y\<in>U - dom known'. ?l y) \<le> (\<Sum>y\<in>U - dom known - {x}. ?l y)"
    by (rule sum_mono2) (use assms in auto)
  moreover have "(\<Sum>y\<in>U - dom known. ?l y) = ?l x + (\<Sum>y\<in>U - dom known - {x}. ?l y)"
    using assms(1-3) by (intro sum.remove) auto
  ultimately show ?thesis by (simp add: pending_def)
qed

lemma lddLoop_returns:
  assumes "finite U" and closed: "\<And>x. x \<in> U \<Longrightarrow> set (importsOf fs root libpath x) \<subseteq> U"
    and links: "\<And>x d bp known res. x \<in> U \<Longrightarrow> locate fs root libpath x = Some (d, bp) \<Longrightarrow>
      followLinks fs root d nl bp known res \<noteq> None"
  shows "set q \<subseteq> U \<Longrightarrow> pending fs root libpath U q known \<le> n \<Longrightarrow> pending fs root libpath U q known \<le> chanSize \<Longrightarrow>
    \<exists>r. lddLoop fs root libpath nl n q known res = Some r \<and> r \<noteq> LddDeadlock"
proof (induction n arbitrary: q known res)
  case 0
  then show ?case by (cases q) (simp_all add: pending_def)
next
  case (Suc n)
  show ?case
  proof (cases q)
    case (Cons x q')
    show ?thesis
    proof (cases "known x")
      case (Some b)
      with Suc Cons show ?thesis by (simp add: pending_def)
    next
      case None
      have x: "x \<in> U" using Suc.prems(1) Cons by simp
      show ?thesis
      proof (cases "locate fs root libpath x")
        case (Some p)
        obtain d bp where p: "p = (d, bp)" by (cases p)
        show ?thesis
        proof (cases "elfImports fs bp")
          case imp: (Some dyn)
          then have dyn: "importsOf fs root libpath x = dyn" using Some p by (simp add: importsOf_def)
          obtain known' res' where f: "followLinks fs root d nl bp (known(x \<mapsto> bp)) (res @ [bp]) = Some (known', res')"
            using links [OF x Some [unfolded p]] by fastforce
          from followLinks_result [OF f] have dom: "insert x (dom known) \<subseteq> dom known'" by auto
          from pending_take [OF assms(1) x None dom, of fs root libpath q'] Cons dyn
          have less: "pending fs root libpath U (q' @ dyn) known' < pending fs root libpath U q known" by simp
          have "length q' + length dyn \<le> pending fs root libpath U (q' @ dyn) known'"
            by (simp add: pending_def)
          with less Suc.prems(3) have room: "\<not> chanSize < length q' + length dyn" by simp
          have "set (q' @ dyn) \<subseteq> U" using Suc.prems(1) Cons closed [OF x] dyn by auto
          from Suc.IH [OF this, of known' res'] less Suc.prems(2,3)
          obtain r where "lddLoop fs root libpath nl n (q' @ dyn) known' res' = Some r" "r \<noteq> LddDeadlock" by auto
          with Cons None Some p imp f room show ?thesis by simp
        qed (use Cons None Some p in simp)
      qed (use Cons None in simp)
    qed
  qed simp
qed

text \<open>Paths that were listed stay listed; the program is the first.\<close>

lemma lddLoop_mono:
  "lddLoop fs root libpath nl n q known res = Some (LddFiles res') \<Longrightarrow> set res \<subseteq> set res'"
proof (induction n arbitrary: q known res)
  case 0
  then show ?case by (cases q) auto
next
  case (Suc n)
  show ?case
  proof (cases q)
    case (Cons lib q')
    show ?thesis
    proof (cases "known lib")
      case None
      with Suc.prems Cons obtain d bp dyn known1 res1 where
        f: "followLinks fs root d nl bp (known(lib \<mapsto> bp)) (res @ [bp]) = Some (known1, res1)"
        and rest: "lddLoop fs root libpath nl n (q' @ dyn) known1 res1 = Some (LddFiles res')"
        by (auto split: option.splits if_splits)
      from Suc.IH [OF rest] followLinks_result [OF f] show ?thesis by auto
    qed (use Suc Cons in simp)
  qed (use Suc.prems in auto)
qed

lemma Lddroot_program:
  assumes "Lddroot fs nl n cmd root liblist = Some (LddFiles res)"
  shows "\<exists>d bp. locate fs root (split CHR '':'' liblist) cmd = Some (d, bp) \<and> bp \<in> set res"
proof -
  from assms have l: "lddLoop fs root (split CHR '':'' liblist) nl n [cmd] Map.empty [] = Some (LddFiles res)"
    by (auto simp: Lddroot_def split: if_splits)
  then obtain k where n: "n = Suc k" by (cases n) auto
  with l obtain d bp dyn known1 res1 where loc: "locate fs root (split CHR '':'' liblist) cmd = Some (d, bp)"
    and f: "followLinks fs root d nl bp [cmd \<mapsto> bp] [bp] = Some (known1, res1)"
    and rest: "lddLoop fs root (split CHR '':'' liblist) nl k dyn known1 res1 = Some (LddFiles res)"
    by (auto split: option.splits if_splits)
  from lddLoop_mono [OF rest] followLinks_result [OF f] loc show ?thesis by auto
qed


text \<open>
  C31. The search ends without a deadlock when the imports of all that is needed, counted with
  the program itself, are not more than the channel holds, and the chains of links end. A
  program that alone imports more names than the channel holds is a deadlock.
\<close>
theorem Lddroot_returns:
  assumes "finite U" and "cmd \<in> U"
    and "\<And>x. x \<in> U \<Longrightarrow> set (importsOf fs root (split CHR '':'' liblist) x) \<subseteq> U"
    and "\<And>x d bp known res. x \<in> U \<Longrightarrow> locate fs root (split CHR '':'' liblist) x = Some (d, bp) \<Longrightarrow>
      followLinks fs root d nl bp known res \<noteq> None"
  defines "most \<equiv> Suc (\<Sum>x\<in>U. length (importsOf fs root (split CHR '':'' liblist) x))"
  shows "(most \<le> chanSize \<longrightarrow> most \<le> n \<longrightarrow>
      (\<exists>r. Lddroot fs nl n cmd root liblist = Some r \<and> r \<noteq> LddDeadlock)) \<and>
    (elfOpen fs (pathJoin [root, cmd]) \<longrightarrow>
     chanSize < length (importsOf fs root (split CHR '':'' liblist) cmd) \<longrightarrow> 0 < n \<longrightarrow>
      Lddroot fs nl n cmd root liblist = Some LddDeadlock)"
proof (intro conjI impI)
  assume "most \<le> chanSize" "most \<le> n"
  then have "pending fs root (split CHR '':'' liblist) U [cmd] Map.empty \<le> chanSize"
    "pending fs root (split CHR '':'' liblist) U [cmd] Map.empty \<le> n"
    by (simp_all add: pending_def most_def)
  moreover have "set [cmd] \<subseteq> U" using assms(2) by simp
  ultimately have "\<exists>r. lddLoop fs root (split CHR '':'' liblist) nl n [cmd] Map.empty [] = Some r \<and> r \<noteq> LddDeadlock"
    by (intro lddLoop_returns [OF assms(1,3)]) (use assms(4) in auto)
  then show "\<exists>r. Lddroot fs nl n cmd root liblist = Some r \<and> r \<noteq> LddDeadlock"
    by (simp add: Lddroot_def Let_def)
next
  assume o: "elfOpen fs (pathJoin [root, cmd])" and many: "chanSize < length (importsOf fs root (split CHR '':'' liblist) cmd)"
    and "0 < n"
  then obtain k where n: "n = Suc k" by (cases n) auto
  from many obtain d bp dyn where "locate fs root (split CHR '':'' liblist) cmd = Some (d, bp)"
    "elfImports fs bp = Some dyn" "chanSize < length dyn"
    by (auto simp: importsOf_def split: option.splits)
  with o n show "Lddroot fs nl n cmd root liblist = Some LddDeadlock" by (simp add: Lddroot_def Let_def)
qed

text \<open>A program with one library behind a link.\<close>

definition demoElf :: elfFiles where
  "demoElf =
     \<lparr>elfOpen = (\<lambda>p. p \<in> set [''/bin/ls'', ''/lib/libc.so.6'']),
      elfImports = (\<lambda>p. Some (if p = ''/bin/ls'' then [''libc.so.6''] else [])),
      elfReadlink = (\<lambda>p. if p = ''/lib/libc.so.6'' then Some ''libc-2.11.so'' else None)\<rparr>"

lemma demoElf_ldd:
  "Lddroot demoElf 1 2 ''/bin/ls'' [] ''/lib'' = Some (LddFiles [''/bin/ls'', ''/lib/libc.so.6'', ''libc-2.11.so''])"
  by code_simp

lemma demoElf_locate:
  "split CHR '':'' ''/lib'' = [''/lib'']"
  "locate demoElf [] [''/lib''] ''/bin/ls'' = Some ([], ''/bin/ls'')"
  "locate demoElf [] [''/lib''] ''libc.so.6'' = Some (''/lib'', ''/lib/libc.so.6'')"
  "importsOf demoElf [] [''/lib''] ''/bin/ls'' = [''libc.so.6'']"
  "importsOf demoElf [] [''/lib''] ''libc.so.6'' = []"
  "pathJoin [''/lib'', ''libc-2.11.so''] = ''/lib/libc-2.11.so''"
  by code_simp+

lemma demoElf_readlink:
  "elfReadlink demoElf ''/bin/ls'' = None" "elfReadlink demoElf ''/lib/libc.so.6'' = Some ''libc-2.11.so''"
  "elfReadlink demoElf ''/lib/libc-2.11.so'' = None"
  by code_simp+

lemma demoElf_needs: "needs demoElf [] [''/lib''] ''/bin/ls'' x \<Longrightarrow> x \<in> {''/bin/ls'', ''libc.so.6''}"
proof (induction rule: needs.induct)
  case (import l d bp dyn x)
  then have "x \<in> set (importsOf demoElf [] [''/lib''] l)" by (simp add: importsOf_def)
  with import.IH show ?case by (auto simp: demoElf_locate)
qed simp

lemma demoElf_links: "linkNames demoElf [] [''/lib''] ''/bin/ls'' \<subseteq> {''libc-2.11.so''}"
proof -
  have c: "chain demoElf [] d bp l \<Longrightarrow> bp = ''/bin/ls'' \<or> (d = ''/lib'' \<and> bp = ''/lib/libc.so.6'') \<or>
      bp = ''/lib/libc-2.11.so'' \<Longrightarrow> l = ''libc-2.11.so''" for d bp l
  proof (induction rule: chain.induct)
    case (next_link bp l l')
    then have "d = ''/lib''" "l = ''libc-2.11.so''" by (auto simp: demoElf_def)
    with next_link show ?case by (simp add: demoElf_locate)
  qed (auto simp: demoElf_def)
  show ?thesis
    using c demoElf_needs by (fastforce simp: linkNames_def demoElf_locate)
qed


lemma Lddroot_returns_witness:
  "\<exists>r. Lddroot demoElf 1 2 ''/bin/ls'' [] ''/lib'' = Some r \<and> r \<noteq> LddDeadlock"
proof -
  have f: "followLinks demoElf [] d 1 bp known res \<noteq> None"
    if "x \<in> {''/bin/ls'', ''libc.so.6''}" "locate demoElf [] (split CHR '':'' ''/lib'') x = Some (d, bp)" for x d bp known res
  proof -
    from that have "d = [] \<and> bp = ''/bin/ls'' \<or> d = ''/lib'' \<and> bp = ''/lib/libc.so.6''"
      by (auto simp: demoElf_locate)
    then show ?thesis by (auto simp: followLinks.simps demoElf_readlink demoElf_locate Let_def)
  qed
  have i: "set (importsOf demoElf [] (split CHR '':'' ''/lib'') x) \<subseteq> {''/bin/ls'', ''libc.so.6''}"
    if "x \<in> {''/bin/ls'', ''libc.so.6''}" for x
    using that by (auto simp: demoElf_locate)
  have n: "Suc (\<Sum>x\<in>{''/bin/ls'', ''libc.so.6''}. length (importsOf demoElf [] (split CHR '':'' ''/lib'') x)) = 2"
    by (simp add: demoElf_locate)
  have "(2 \<le> chanSize \<longrightarrow> (2::nat) \<le> 2 \<longrightarrow>
      (\<exists>r. Lddroot demoElf 1 2 ''/bin/ls'' [] ''/lib'' = Some r \<and> r \<noteq> LddDeadlock)) \<and>
    (elfOpen demoElf (pathJoin [[], ''/bin/ls'']) \<longrightarrow>
     chanSize < length (importsOf demoElf [] (split CHR '':'' ''/lib'') ''/bin/ls'') \<longrightarrow> (0::nat) < 2 \<longrightarrow>
      Lddroot demoElf 1 2 ''/bin/ls'' [] ''/lib'' = Some LddDeadlock)"
    unfolding n [symmetric]
    by (rule Lddroot_returns [OF _ _ i f]) auto
  then show ?thesis by (simp add: chanSize_def)
qed

end
