(* ===== verification/Exec.thy ===== *)
theory Exec
  imports PackProps Ldd Slave
begin

text \<open>
  The commands of a user: \<^verbatim>\<open>startExecution\<close> (\<^verbatim>\<open>src/src/gproc/mexec.go\<close>), which gathers the files of
  a program and sends the request to the master, and \<^verbatim>\<open>getInfo\<close> (\<^verbatim>\<open>src/src/gproc/info.go\<close>).
\<close>

section \<open>Gathering for a command\<close>

text \<open>
  What a command finds: the vital data of the master (\<open>None\<close> when it cannot be dialled or its
  message not be read), the working directory, the files, the network and address its proxy
  gets when it can listen, and the master's answer.
\<close>

record execEnv =
  eeVital :: "vitalData option"
  eeCwd :: string
  eeFs :: fsys
  eeElf :: elfFiles
  eeListen :: "string \<Rightarrow> (string \<times> string) option"
  eeReply :: "startReq \<Rightarrow> resp option"

fun walkAll :: "fsys \<Rightarrow> nat \<Rightarrow> string list \<Rightarrow> packVisitor \<Rightarrow> ((string + unit) \<times> packVisitor) option" where
  "walkAll fs n [] pv = Some (Inr (), pv)"
| "walkAll fs n (path # paths) pv = thenE (Walk fs n path pv) (walkAll fs n paths)"

text \<open>The files given on the command line; an empty name in the list panics.\<close>

fun takeAlong :: "string \<Rightarrow> fsys \<Rightarrow> nat \<Rightarrow> string list \<Rightarrow> packVisitor \<Rightarrow> ((string + unit) \<times> packVisitor) option" where
  "takeAlong cwd fs n [] pv = Some (Inr (), pv)"
| "takeAlong cwd fs n (f # files) pv =
     (if f = [] then Some (Inl ''index out of range'', pv)
      else (let rootedpath = (if f ! 0 \<noteq> CHR ''/'' then cwd @ ''/'' @ f else f)
            in thenE (Walk fs n rootedpath pv) (takeAlong cwd fs n files)))"

text \<open>The files of the program that the nodes do not have already.\<close>

definition finishedFiles :: "vitalData \<Rightarrow> string list \<Rightarrow> string list" where
  "finishedFiles vd rawFiles = filter (\<lambda>s. vdExceptlist vd s \<noteq> Some True) rawFiles"

definition execReq ::
  "config \<Rightarrow> string \<Rightarrow> string list \<Rightarrow> string \<Rightarrow> packVisitor \<Rightarrow> string \<times> string \<Rightarrow> startReq" where
  "execReq conf slaveNodes cmd cwd pv l =
     zeroReq\<lparr>rqCommand := ''e'', rqLfam := fst l, rqLserver := snd l, rqLocalBin := cfLocalbin conf,
       rqArgs := cmd, rqBytesToTransfer := pvBytes pv, rqLibList := split CHR '':'' (cfLibs conf),
       rqPath := cfRoot conf, rqNodes := slaveNodes, rqCmds := pvCmds pv, rqCwd := cwd\<rparr>"

text \<open>
  The ends of a command: a panic, a deadlock in the search for libraries, a master without
  nodes, or the request that was sent with the number of workers that are waited for. The
  fuel is for the walks and for the search for libraries.
\<close>

datatype execEnd = ExecPanic | ExecDeadlock | NotReady | Sent startReq goint

definition startExecution ::
  "config \<Rightarrow> execEnv \<Rightarrow> nat \<Rightarrow> nat \<Rightarrow> nat \<Rightarrow> string \<Rightarrow> string \<Rightarrow> string list \<Rightarrow> execEnd option" where
  "startExecution conf ee n nl nn ioProxyPort slaveNodes cmd =
     (case eeVital ee of None \<Rightarrow> Some ExecPanic | Some vd \<Rightarrow>
      case thenE (Walk (eeFs ee) n (eeCwd ee @ ''/.'') newPackVisitor)
             (\<lambda>pv. if length (cfFilesToTakeAlong conf) > 0
                   then takeAlong (eeCwd ee) (eeFs ee) n (split CHR '','' (cfFilesToTakeAlong conf)) pv
                   else Some (Inr (), pv)) of
        None \<Rightarrow> None
      | Some (Inl p, pv) \<Rightarrow> Some ExecPanic
      | Some (Inr _, pv) \<Rightarrow>
      case cmd of [] \<Rightarrow> Some ExecPanic | c0 # _ \<Rightarrow>
      case Lddroot (eeElf ee) nl nn c0 (cfRoot conf) (cfLibs conf) of
        None \<Rightarrow> None
      | Some LddDeadlock \<Rightarrow> Some ExecDeadlock
      | Some r \<Rightarrow>
      let rawFiles = (case r of LddFiles res \<Rightarrow> res | _ \<Rightarrow> []) in
      case (if cfLocalbin conf then Some (Inr (), pv)
            else walkAll (eeFs ee) n
                   (map (\<lambda>s. cfRoot conf @ s) (filter (\<lambda>s. s \<noteq> []) (finishedFiles vd rawFiles))) pv) of
        None \<Rightarrow> None
      | Some (Inl p, pv') \<Rightarrow> Some ExecPanic
      | Some (Inr _, pv') \<Rightarrow>
      if \<not> vdHostReady vd then Some NotReady
      else case eeListen ee (vdHostAddr vd @ '':'' @ ioProxyPort) of None \<Rightarrow> Some ExecPanic | Some l \<Rightarrow>
      let req = execReq conf slaveNodes cmd (eeCwd ee) pv' l in
      case eeReply ee req of None \<Rightarrow> Some ExecPanic | Some resp \<Rightarrow> Some (Sent req (rsNumNodes resp)))"

text \<open>\<^verbatim>\<open>getInfo\<close>, with what the master sends and answers; \<open>Inl\<close> is a panic of \<^verbatim>\<open>log_error\<close>.\<close>

definition getInfo :: "vitalData option \<Rightarrow> (startReq \<Rightarrow> resp option) \<Rightarrow> string + resp" where
  "getInfo vital reply =
     (case vital of None \<Rightarrow> Inl ''Could not receive vital data''
      | Some vd \<Rightarrow>
          if \<not> vdHostReady vd then Inr \<lparr>rsNumNodes = 0, rsMsg = []\<rparr>
          else (case reply (zeroReq\<lparr>rqCommand := ''i''\<rparr>) of
                  None \<Rightarrow> Inl ''getinfo failed'' | Some info \<Rightarrow> Inr info))"

section \<open>What several walks list\<close>

definition below :: "fsys \<Rightarrow> string list \<Rightarrow> string set" where
  "below fs roots = (\<Union>x\<in>{x \<in> set roots. fsLstat fs x \<noteq> None}. PackProps.reach fs x)"

lemma below_simps:
  "below fs [] = {}" "below fs (xs @ ys) = below fs xs \<union> below fs ys"
  "below fs [x] = (if fsLstat fs x = None then {} else PackProps.reach fs x)"
  by (auto simp: below_def)

definition gathered :: "fsys \<Rightarrow> string list \<Rightarrow> packVisitor \<Rightarrow> packVisitor \<Rightarrow> bool" where
  "gathered fs roots p q \<longleftrightarrow> extends fs p q \<and>
     (\<forall>x\<in>set roots. fsLstat fs x \<noteq> None \<longrightarrow> x \<in> pvVisited q) \<and> adds fs (below fs roots) p q"

lemma gathered_nil: "gathered fs [] p p"
  by (simp add: gathered_def extends_refl)

lemma gathered_walk:
  assumes "trimmed fs" and "Walk fs n x p = Some (Inr (), q)" shows "gathered fs [x] p q"
  using walk_extends(4) [OF assms] walk_adds(4) [OF assms] unfolding gathered_def below_simps by simp

lemma gathered_append:
  assumes "gathered fs xs p q" and "gathered fs ys q r" shows "gathered fs (xs @ ys) p r"
  unfolding gathered_def
proof (intro conjI)
  show "extends fs p r" using assms extends_trans unfolding gathered_def by blast
  have "pvVisited q \<subseteq> pvVisited r" using assms(2) by (simp add: gathered_def extends_def)
  then show "\<forall>x\<in>set (xs @ ys). fsLstat fs x \<noteq> None \<longrightarrow> x \<in> pvVisited r"
    using assms by (auto simp: gathered_def)
  have "adds fs (below fs (xs @ ys)) p q" "adds fs (below fs (xs @ ys)) q r"
    using assms by (auto simp: gathered_def below_simps intro: adds_mono)
  then show "adds fs (below fs (xs @ ys)) p r" by (rule adds_trans)
qed

lemma gathered_Cons: "gathered fs [x] p q \<Longrightarrow> gathered fs ys q r \<Longrightarrow> gathered fs (x # ys) p r"
  using gathered_append [of fs "[x]" p q ys r] by simp

lemma walkAll_gathered:
  "trimmed fs \<Longrightarrow> walkAll fs n xs p = Some (Inr (), q) \<Longrightarrow> gathered fs xs p q"
proof (induction xs arbitrary: p)
  case (Cons x xs)
  from Cons.prems(2) obtain p1 where "Walk fs n x p = Some (Inr (), p1)" "walkAll fs n xs p1 = Some (Inr (), q)"
    by (auto elim: thenE_SomeE)
  with Cons show ?case by (blast intro: gathered_Cons gathered_walk)
qed (simp add: gathered_nil)

definition rootedPath :: "string \<Rightarrow> string \<Rightarrow> string" where
  "rootedPath cwd f = (if f ! 0 \<noteq> CHR ''/'' then cwd @ ''/'' @ f else f)"

lemma takeAlong_gathered:
  "trimmed fs \<Longrightarrow> takeAlong cwd fs n files p = Some (Inr (), q) \<Longrightarrow>
   gathered fs (map (rootedPath cwd) files) p q \<and> [] \<notin> set files"
proof (induction files arbitrary: p)
  case (Cons f files)
  from Cons.prems(2) obtain p1 where "f \<noteq> []" "Walk fs n (rootedPath cwd f) p = Some (Inr (), p1)"
    "takeAlong cwd fs n files p1 = Some (Inr (), q)"
    by (auto simp: rootedPath_def Let_def elim: thenE_SomeE split: if_splits)
  with Cons show ?case by (auto intro: gathered_Cons gathered_walk)
qed (simp add: gathered_nil)

text \<open>Gathered from nothing, the list is exact.\<close>

lemma gathered_exact:
  assumes "gathered fs roots newPackVisitor q"
  shows "cmDestName ` set (pvCmds q) = below fs roots \<and> (\<forall>c\<in>set (pvCmds q). cmdFor fs (cmDestName c) = Some c)"
proof -
  from assms have closed: "\<forall>x\<in>pvVisited q. leadsTo fs x \<subseteq> pvVisited q"
    and cmds: "\<forall>c\<in>set (pvCmds q). cmdFor fs (cmDestName c) = Some c"
    and vis: "pvVisited q \<subseteq> cmDestName ` set (pvCmds q)"
    and sub: "cmDestName ` set (pvCmds q) \<subseteq> below fs roots"
    by (auto simp: gathered_def extends_def adds_def newPackVisitor_def)
  have "below fs roots \<subseteq> pvVisited q"
  proof
    fix y assume "y \<in> below fs roots"
    then obtain x where x: "x \<in> set roots" "fsLstat fs x \<noteq> None" "(x, y) \<in> {(a, b). b \<in> leadsTo fs a}\<^sup>*"
      by (auto simp: below_def PackProps.reach_def)
    from x(1,2) assms have "x \<in> pvVisited q" by (simp add: gathered_def)
    with x(3) show "y \<in> pvVisited q" by induction (use closed in auto)
  qed
  with cmds vis sub show ?thesis by blast
qed

section \<open>What is sent\<close>

text \<open>The paths a command starts gathering from.\<close>

definition execRoots :: "config \<Rightarrow> vitalData \<Rightarrow> string \<Rightarrow> string list \<Rightarrow> string list" where
  "execRoots conf vd cwd raw =
     (cwd @ ''/.'') #
     (if cfFilesToTakeAlong conf = [] then []
      else map (rootedPath cwd) (split CHR '','' (cfFilesToTakeAlong conf))) @
     (if cfLocalbin conf then []
      else map (\<lambda>s. cfRoot conf @ s) (filter (\<lambda>s. s \<noteq> []) (finishedFiles vd raw)))"

lemma startExecution_Sent:
  assumes "startExecution conf ee n nl nn port nodes cmd = Some (Sent req k)" and "trimmed (eeFs ee)"
  obtains vd raw pv l resp where "eeVital ee = Some vd" and "vdHostReady vd" and "cmd \<noteq> []"
    and "raw = (case Lddroot (eeElf ee) nl nn (hd cmd) (cfRoot conf) (cfLibs conf) of
           Some (LddFiles res) \<Rightarrow> res | _ \<Rightarrow> [])"
    and "gathered (eeFs ee) (execRoots conf vd (eeCwd ee) raw) newPackVisitor pv"
    and "eeListen ee (vdHostAddr vd @ '':'' @ port) = Some l"
    and "req = execReq conf nodes cmd (eeCwd ee) pv l"
    and "eeReply ee req = Some resp" and "k = rsNumNodes resp"
proof -
  let ?fs = "eeFs ee" and ?cwd = "eeCwd ee" and ?files = "cfFilesToTakeAlong conf"
  from assms(1) obtain vd where vd: "eeVital ee = Some vd" by (auto simp: startExecution_def split: option.splits)
  from assms(1) vd obtain pv1 where
    pv1: "thenE (Walk ?fs n (?cwd @ ''/.'') newPackVisitor)
             (\<lambda>pv. if length ?files > 0 then takeAlong ?cwd ?fs n (split CHR '','' ?files) pv
                   else Some (Inr (), pv)) = Some (Inr (), pv1)"
    by (auto simp: startExecution_def split: option.splits sum.splits prod.splits)
  from assms(1) vd pv1 obtain c0 cs where cmd: "cmd = c0 # cs"
    by (cases cmd) (auto simp: startExecution_def split: option.splits sum.splits prod.splits)
  note unfolded = assms(1) [unfolded startExecution_def vd pv1 cmd, simplified]
  from unfolded obtain r where r: "Lddroot (eeElf ee) nl nn c0 (cfRoot conf) (cfLibs conf) = Some r" "r \<noteq> LddDeadlock"
    by (auto split: option.splits lddResult.splits)
  define raw where "raw = (case r of LddFiles res \<Rightarrow> res | _ \<Rightarrow> [])"
  from unfolded r obtain pv where
    pv: "(if cfLocalbin conf then Some (Inr (), pv1)
          else walkAll ?fs n (map (\<lambda>s. cfRoot conf @ s) (filter (\<lambda>s. s \<noteq> []) (finishedFiles vd raw))) pv1)
         = Some (Inr (), pv)" and ready: "vdHostReady vd"
    and l: "\<exists>l. eeListen ee (vdHostAddr vd @ '':'' @ port) = Some l \<and>
      req = execReq conf nodes cmd ?cwd pv l \<and> (\<exists>resp. eeReply ee req = Some resp \<and> k = rsNumNodes resp)"
    unfolding raw_def cmd
    by (auto simp: Let_def split: option.splits lddResult.splits sum.splits prod.splits if_splits)
  from pv1 obtain pv0 where w0: "Walk ?fs n (?cwd @ ''/.'') newPackVisitor = Some (Inr (), pv0)"
    and w1: "(if length ?files > 0 then takeAlong ?cwd ?fs n (split CHR '','' ?files) pv0 else Some (Inr (), pv0))
      = Some (Inr (), pv1)"
    by (auto elim: thenE_SomeE)
  have g1: "gathered ?fs (if ?files = [] then [] else map (rootedPath ?cwd) (split CHR '','' ?files)) pv0 pv1"
    using w1 takeAlong_gathered [OF assms(2), of ?cwd n "split CHR '','' ?files" pv0 pv1]
    by (auto simp: gathered_nil split: if_splits)
  have g2: "gathered ?fs (if cfLocalbin conf then []
      else map (\<lambda>s. cfRoot conf @ s) (filter (\<lambda>s. s \<noteq> []) (finishedFiles vd raw))) pv1 pv"
    using pv walkAll_gathered [OF assms(2)] by (auto simp: gathered_nil split: if_splits)
  have "gathered ?fs (execRoots conf vd ?cwd raw) newPackVisitor pv"
    unfolding execRoots_def
    by (rule gathered_Cons [OF gathered_walk [OF assms(2) w0] gathered_append [OF g1 g2]])
  moreover have "raw = (case Lddroot (eeElf ee) nl nn (hd cmd) (cfRoot conf) (cfLibs conf) of
           Some (LddFiles res) \<Rightarrow> res | _ \<Rightarrow> [])"
    using r by (simp add: raw_def cmd split: lddResult.splits)
  ultimately show ?thesis using that vd ready l cmd by blast
qed

end
