(* ===== verification/ExecProps.thy ===== *)
theory ExecProps
  imports Exec FileTransfer
begin

text \<open>
  A command from end to end: what \<^verbatim>\<open>startExecution\<close> sends is what \<^verbatim>\<open>runLocal\<close> needs on a node.
\<close>

lemma ldLibPath_eq:
  "ldLibPath conf req ss acc = acc @ concat (map (\<lambda>s. cfBinRoot conf @ rqPath req @ s @ '':'') ss)"
  by (induction ss arbitrary: acc) simp_all

lemma relayReq_exec [simp]:
  "rqPath (relayReq arg r) = rqPath arg" "rqLocalBin (relayReq arg r) = rqLocalBin arg"
  "rqEnv (relayReq arg r) = rqEnv arg" "rqLibList (relayReq arg r) = rqLibList arg"
  "rqCwd (relayReq arg r) = rqCwd arg"
  by (simp_all add: relayReq_def newStartReq_def zeroReq_def)

lemma ftypeOf_le: "sint (ftypeOf k) \<le> 2 \<longleftrightarrow> k \<noteq> Special"
  by (cases k) simp_all

lemma cmdFor_Ftype: "cmdFor fs x = Some c \<Longrightarrow> fsLstat fs x = Some i \<Longrightarrow> cmFtype c = ftypeOf (fiKind i)"
  by (auto simp: cmdFor_def mkCmd_def)

text \<open>The program a node starts for a request.\<close>

definition execProgram :: "config \<Rightarrow> config \<Rightarrow> string list \<Rightarrow> string \<Rightarrow> program" where
  "execProgram sc conf cmd cwd =
     \<lparr>pgPath = cfBinRoot sc @ hd cmd, pgArgv = cmd,
      pgEnv = [''LD_LIBRARY_PATH='' @ concat (map (\<lambda>d. cfBinRoot sc @ d @ '':'') (split CHR '':'' (cfLibs conf)))],
      pgDir = cfBinRoot sc @ ''/'' @ cwd\<rparr>"

lemma execReq_fields:
  "rqPath (execReq conf nodes cmd cwd pv l) = cfRoot conf" "rqLocalBin (execReq conf nodes cmd cwd pv l) = cfLocalbin conf"
  "rqEnv (execReq conf nodes cmd cwd pv l) = []" "rqLibList (execReq conf nodes cmd cwd pv l) = split CHR '':'' (cfLibs conf)"
  "rqCwd (execReq conf nodes cmd cwd pv l) = cwd" "rqArgs (execReq conf nodes cmd cwd pv l) = cmd"
  "rqNodes (execReq conf nodes cmd cwd pv l) = nodes" "rqCmds (execReq conf nodes cmd cwd pv l) = pvCmds pv"
  by (simp_all add: execReq_def zeroReq_def)

lemma runLocal_execReq:
  assumes "cmd \<noteq> []" and "cfRoot conf = []" and "\<not> cfLocalbin conf"
  shows "runLocal sc (relayReq (execReq conf nodes cmd cwd pv l) r) = Inr (execProgram sc conf cmd cwd)"
  using assms by (cases cmd) (simp_all add: runLocal_def execReq_fields ldLibPath_eq Let_def execProgram_def)

text \<open>
  C12. A command finds its program and its libraries on the nodes. Let the search for
  libraries succeed with the files \<open>res\<close>, with no other root for finding them and without the
  option to use the nodes' own files. The request that is sent lists exactly what is below the
  working directory's entry, the files to take along and the files in \<open>res\<close> that the master
  does not except. If the program has an absolute path in normal form, is a regular file or a
  link and is not excepted, then on every node the path that \<^verbatim>\<open>runLocal\<close> starts is the place
  where the file of the program is stored; it starts in the working directory, and the
  library path has the library directories under the node's root, in the same order. The
  number of workers waited for is the number the master answers.
\<close>
theorem exec_ships:
  assumes sent: "startExecution conf ee n nl nn port nodes cmd = Some (Sent req k)"
    and trim: "trimmed (eeFs ee)" and root: "cfRoot conf = []" and shipped: "\<not> cfLocalbin conf"
    and ldd: "Lddroot (eeElf ee) nl nn (hd cmd) [] (cfLibs conf) = Some (LddFiles res)"
  shows "\<exists>vd resp. eeVital ee = Some vd \<and> eeReply ee req = Some resp \<and> k = rsNumNodes resp \<and>
    rqNodes req = nodes \<and> rqArgs req = cmd \<and>
    cmDestName ` set (rqCmds req) =
      below (eeFs ee) ((eeCwd ee @ ''/.'') #
        (if cfFilesToTakeAlong conf = [] then []
         else map (rootedPath (eeCwd ee)) (split CHR '','' (cfFilesToTakeAlong conf))) @
        filter (\<lambda>s. s \<noteq> [] \<and> vdExceptlist vd s \<noteq> Some True) res) \<and>
    (\<forall>i sc r. isAbs (hd cmd) \<and> clean (hd cmd) = hd cmd \<and> vdExceptlist vd (hd cmd) \<noteq> Some True \<and>
       fsLstat (eeFs ee) (hd cmd) = Some i \<and> fiKind i \<noteq> Special \<longrightarrow>
       (\<exists>f p. f \<in> set (rqFiles (relayReq req r)) \<and> runLocal sc (relayReq req r) = Inr p \<and>
          pgPath p = destOf (cfBinRoot sc) f \<and> pgArgv p = cmd \<and> pgDir p = cfBinRoot sc @ ''/'' @ eeCwd ee \<and>
          pgEnv p = [''LD_LIBRARY_PATH='' @
            concat (map (\<lambda>d. cfBinRoot sc @ d @ '':'') (split CHR '':'' (cfLibs conf)))]))"
proof -
  from sent trim obtain vd raw pv l resp where vd: "eeVital ee = Some vd" and cmd: "cmd \<noteq> []"
    and raw: "raw = (case Lddroot (eeElf ee) nl nn (hd cmd) (cfRoot conf) (cfLibs conf) of
           Some (LddFiles res) \<Rightarrow> res | _ \<Rightarrow> [])"
    and g: "gathered (eeFs ee) (execRoots conf vd (eeCwd ee) raw) newPackVisitor pv"
    and req: "req = execReq conf nodes cmd (eeCwd ee) pv l"
    and resp: "eeReply ee req = Some resp" "k = rsNumNodes resp"
    by (rule startExecution_Sent)
  have "raw = res" using raw root ldd by simp
  then have roots: "execRoots conf vd (eeCwd ee) raw = (eeCwd ee @ ''/.'') #
        (if cfFilesToTakeAlong conf = [] then []
         else map (rootedPath (eeCwd ee)) (split CHR '','' (cfFilesToTakeAlong conf))) @
        filter (\<lambda>s. s \<noteq> [] \<and> vdExceptlist vd s \<noteq> Some True) res" (is "_ = ?roots")
    using root shipped by (simp add: execRoots_def finishedFiles_def conj_commute map_idI)
  from gathered_exact [OF g] have names: "cmDestName ` set (pvCmds pv) = below (eeFs ee) ?roots"
    and cmds: "\<And>c. c \<in> set (pvCmds pv) \<Longrightarrow> cmdFor (eeFs ee) (cmDestName c) = Some c"
    unfolding roots by blast+
  have prog: "\<exists>f p. f \<in> set (rqFiles (relayReq req r)) \<and> runLocal sc (relayReq req r) = Inr p \<and>
          pgPath p = destOf (cfBinRoot sc) f \<and> pgArgv p = cmd \<and> pgDir p = cfBinRoot sc @ ''/'' @ eeCwd ee \<and>
          pgEnv p = [''LD_LIBRARY_PATH='' @
            concat (map (\<lambda>d. cfBinRoot sc @ d @ '':'') (split CHR '':'' (cfLibs conf)))]"
    if abs: "isAbs (hd cmd)" "clean (hd cmd) = hd cmd" and exc: "vdExceptlist vd (hd cmd) \<noteq> Some True"
      and i: "fsLstat (eeFs ee) (hd cmd) = Some i" "fiKind i \<noteq> Special" for i sc r
  proof -
    from abs(1) have ne: "hd cmd \<noteq> []" by (auto simp: isAbs_def)
    from Lddroot_program [OF ldd] abs ne have "hd cmd \<in> set res"
      by (auto simp: locate_def pathJoin_single Let_def split: if_splits)
    then have "hd cmd \<in> below (eeFs ee) ?roots" using i(1) exc ne by (auto simp: below_def)
    then have "hd cmd \<in> cmDestName ` set (pvCmds pv)" unfolding names .
    then obtain c where c: "c \<in> set (pvCmds pv)" "cmDestName c = hd cmd" by (elim imageE) (rule that, assumption, simp)
    have "sint (cmFtype c) \<le> 2" using cmdFor_Ftype [OF cmds [OF c(1)]] c(2) i by (simp add: ftypeOf_le)
    then have "cmdFile r c \<in> set (rqFiles (relayReq req r))" using c(1) by (auto simp: req execReq_def)
    moreover have "destOf (cfBinRoot sc) (cmdFile r c) = cfBinRoot sc @ hd cmd"
      by (simp add: destOf_def cmdFile_def c(2))
    moreover have "runLocal sc (relayReq req r) = Inr (execProgram sc conf cmd (eeCwd ee))"
      unfolding req by (rule runLocal_execReq [OF cmd root shipped])
    ultimately show ?thesis
      by (intro exI [of _ "cmdFile r c"] exI [of _ "execProgram sc conf cmd (eeCwd ee)"])
        (simp add: execProgram_def)
  qed
  show ?thesis
    by (intro exI [of _ vd] exI [of _ resp] conjI)
      (use vd resp names prog in \<open>auto simp: req execReq_fields\<close>)
qed

text \<open>A static program in a working directory.\<close>

definition demoExecFs :: fsys where
  "demoExecFs =
     \<lparr>fsLstat = map_of
        [(''/w/.'', \<lparr>fiKind = Directory, fiPerm = 0x1ED, fiUid = 0, fiGid = 0, fiSize = 0\<rparr>),
         (''/bin/sh'', \<lparr>fiKind = Regular, fiPerm = 0x1ED, fiUid = 0, fiGid = 0, fiSize = 9\<rparr>)],
      fsReaddir = (\<lambda>_. None), fsReadlink = (\<lambda>_. None)\<rparr>"

definition demoExec :: execEnv where
  "demoExec =
     \<lparr>eeVital = Some \<lparr>vdHostReady = True, vdError = [], vdHostAddr = ''10.0.0.1'', vdParentAddr = [],
        vdServerAddr = [], vdId = [], vdNodes = [], vdExceptlist = Map.empty\<rparr>,
      eeCwd = ''/w'', eeFs = demoExecFs,
      eeElf = \<lparr>elfOpen = (\<lambda>p. p = ''/bin/sh''), elfImports = (\<lambda>_. Some []), elfReadlink = (\<lambda>_. None)\<rparr>,
      eeListen = (\<lambda>a. Some (''tcp'', a)), eeReply = (\<lambda>q. Some \<lparr>rsNumNodes = 1, rsMsg = []\<rparr>)\<rparr>"

lemma demoExec_strings:
  "trimPath ''/w/.'' = ''/w/.''" "trimPath ''/bin/sh'' = ''/bin/sh''"
  "hasSuffix ''/w/.'' ''/.''" "clean ''/bin/sh'' = ''/bin/sh''" "isAbs ''/bin/sh''"
  by (simp_all add: trimPath_def trimSpace_keep printable_def trimRightFunc_def isNull_def) code_simp+

lemma demoExec_ldd: "Lddroot (eeElf demoExec) 0 1 ''/bin/sh'' [] (cfLibs defaultConfig) = Some (LddFiles [''/bin/sh''])"
  by code_simp

lemma demoExec_trimmed: "trimmed (eeFs demoExec)"
  using demoExec_strings by (auto simp: trimmed_def demoExec_def demoExecFs_def split: if_splits)

lemma demoExec_sent:
  "\<exists>req. startExecution defaultConfig demoExec 1 0 1 ''0'' ''.'' [''/bin/sh''] = Some (Sent req 1)"
proof -
  have fields: "cfRoot defaultConfig = []" "cfFilesToTakeAlong defaultConfig = []" "\<not> cfLocalbin defaultConfig"
    "cfLibs defaultConfig = ''/lib:/usr/lib''"
    by (simp_all add: defaultConfig_def)
  have "Lddroot (eeElf demoExec) 0 1 ''/bin/sh'' [] ''/lib:/usr/lib'' = Some (LddFiles [''/bin/sh''])"
    using demoExec_ldd fields(4) by simp
  then show ?thesis
    using demoExec_strings fields
    by (simp add: startExecution_def demoExec_def demoExecFs_def Walk.simps walk.simps VisitFile.simps VisitDir_def
        Let_def newPackVisitor_def finishedFiles_def)
qed

theorem exec_ships_witness:
  "\<exists>req f p. startExecution defaultConfig demoExec 1 0 1 ''0'' ''.'' [''/bin/sh''] = Some (Sent req 1) \<and>
    f \<in> set (rqFiles (relayReq req [])) \<and> runLocal defaultConfig (relayReq req []) = Inr p \<and>
    pgPath p = destOf (cfBinRoot defaultConfig) f \<and> pgArgv p = [''/bin/sh'']"
proof -
  obtain req where req: "startExecution defaultConfig demoExec 1 0 1 ''0'' ''.'' [''/bin/sh''] = Some (Sent req 1)"
    using demoExec_sent by blast
  have conf: "cfRoot defaultConfig = []" "\<not> cfLocalbin defaultConfig" by (simp_all add: defaultConfig_def)
  have i: "fsLstat (eeFs demoExec) ''/bin/sh'' =
      Some \<lparr>fiKind = Regular, fiPerm = 0x1ED, fiUid = 0, fiGid = 0, fiSize = 9\<rparr>"
    by (simp add: demoExec_def demoExecFs_def)
  have "Lddroot (eeElf demoExec) 0 1 (hd [''/bin/sh'']) [] (cfLibs defaultConfig) = Some (LddFiles [''/bin/sh''])"
    using demoExec_ldd by simp
  from exec_ships [OF req demoExec_trimmed conf this] i demoExec_strings req show ?thesis
    by (fastforce simp: demoExec_def)
qed

end
