(* ===== verification/Session.thy ===== *)
theory Session
  imports Cluster ExecProps IoProxy
begin

text \<open>
  A user and the master: the commands of \<^verbatim>\<open>mexec.go\<close> and \<^verbatim>\<open>info.go\<close> with what \<^verbatim>\<open>receiveCmds\<close> of
  \<^verbatim>\<open>master.go\<close> sends them, and the tree of slaves behind the master.
\<close>

section \<open>One connection\<close>

text \<open>
  What the user receives: the vital data first, whatever the request will be, and then the
  reply to the request.
\<close>

definition helloFrom :: "'c env \<Rightarrow> 'c master \<Rightarrow> vitalData option" where
  "helloFrom env m =
     (case serveCmd env None m of Some (VitalReply vd # _, _, _) \<Rightarrow> Some vd | _ \<Rightarrow> None)"

definition replyFrom :: "'c env \<Rightarrow> 'c master \<Rightarrow> startReq \<Rightarrow> resp option" where
  "replyFrom env m req =
     (case serveCmd env (Some req) m of Some (_ # RespReply r # _, _, _) \<Rightarrow> Some r | _ \<Rightarrow> None)"

definition sessionEnv :: "'c env \<Rightarrow> 'c master \<Rightarrow> execEnv \<Rightarrow> execEnv" where
  "sessionEnv env m ee = ee\<lparr>eeVital := helloFrom env m, eeReply := replyFrom env m\<rparr>"

lemma helloFrom_eq: "helloFrom env m = Some (currentVital (refreshVital m))"
  by (simp add: helloFrom_def serveCmd_def Let_def)

lemma refreshVital_known:
  "mNetaddr m \<noteq> [] \<Longrightarrow> vdHostReady (currentVital (refreshVital m)) \<and> vdHostAddr (currentVital (refreshVital m)) = mNetaddr m"
  by (simp add: refreshVital_def currentVital_def)

text \<open>How the master answers a request to run a command.\<close>

lemma serve_exec:
  assumes run: "mrun env tr m" and env: "okEnv env" "\<And>n s. dialOk env n s" and net: "mNetaddr m \<noteq> []"
    and Sss: "Sss \<noteq> []" "\<forall>Ss\<in>set Sss. Ss \<noteq> [] \<and> (\<forall>S\<in>set Ss. wfSet S)"
    and req: "rqCommand req = ''e''" "rqNodes req = join CHR '','' (map levelText Sss)"
  shows "\<exists>news m'. nSent m' = nSent m @ news \<and> serveCmd env (Some req) m =
    Some ([VitalReply (currentVital (refreshVital m)),
           RespReply \<lparr>rsNumNodes = of_nat (length news), rsMsg = ''sendCommandsToNodes finished''\<rparr>], None, m')"
proof -
  let ?m = "refreshVital m"
  have inv: "master_inv tr m" using mrun_inv [OF run env(1)] .
  have reg: "slaves_inv (nSlaves ?m)" "[] \<notin> dom (Addr2id (nSlaves ?m))"
    using inv by (simp_all add: master_inv_def)
  have p: "parseNodeList (rqNodes req) = Some (map levelEntry Sss, None)"
    unfolding req using parse_levelTexts [OF Sss(1)] Sss(2) by blast
  have ord: "okOrder env" using env(1) by (simp add: okEnv_def)
  from sendEntries_all [OF env(2) ord reg, of req "[]" Sss 0] obtain news m' where
    se: "sendEntries env req [] (map levelEntry Sss) 0 ?m = (Inr (of_nat (length news)), m')"
    and new: "nSent m' = nSent m @ news" by auto
  have "vdHostReady (mVital ?m)" using net refreshVital_vital(1) by blast
  with p se have "serveCmd env (Some req) m = Some ([VitalReply (currentVital ?m),
      RespReply \<lparr>rsNumNodes = of_nat (length news), rsMsg = ''sendCommandsToNodes finished''\<rparr>], None, m')"
    by (simp add: serveCmd_def Let_def req(1) sendCommandsToNodes_def)
  with new show ?thesis by blast
qed

section \<open>Properties\<close>



section \<open>An example\<close>

definition demoRun :: "unit master" where
  "demoRun = snd (registerSlave ''10.0.0.1:4000'' () (Some vd1) startMaster)"

lemma demoRun_run: "mrun env [vd1conn] demoRun"
  unfolding demoRun_def by (rule demo_run)

lemma demoRun_sel: "nSlaves demoRun = snd (Add newSlaves vd1 ())" "mNetaddr demoRun = ''10.0.0.9''"
proof -
  have f: "fixServerAddr ''10.0.0.1:4000'' vd1 = Inr vd1" by (simp add: fixServerAddr_def vd1_def)
  show "nSlaves demoRun = snd (Add newSlaves vd1 ())" "mNetaddr demoRun = ''10.0.0.9''"
    by (simp_all add: demoRun_def registerSlave_def f Let_def Add_def startMaster_def learnNetaddr_def splitN2_def)
      (simp add: vd1_def)
qed

lemma demoRun_kids: "nodesOf (nSlaves demoRun) = kidPairs [leaf1]"
  using nodesOf_Add [OF fresh_vd1, of "()"] by (simp add: demoRun_sel kidPairs_def leaf1_def vd1_def)

lemma calmEnv_okEnv: "okEnv calmEnv"
  using demoEnv_ok by (simp add: okEnv_def okOrder_def calmEnv_def)

lemma demo_session_sent:
  "\<exists>req k. startExecution defaultConfig (sessionEnv calmEnv demoRun demoExec) 1 0 1 ''0'' ''.'' [''/bin/sh''] = Some (Sent req k)"
proof -
  have fields: "cfRoot defaultConfig = []" "cfFilesToTakeAlong defaultConfig = []" "\<not> cfLocalbin defaultConfig"
    "cfLibs defaultConfig = ''/lib:/usr/lib''"
    by (simp_all add: defaultConfig_def)
  have ldd: "Lddroot (eeElf demoExec) 0 1 ''/bin/sh'' [] ''/lib:/usr/lib'' = Some (LddFiles [''/bin/sh''])"
    using demoExec_ldd fields(4) by simp
  have vital: "vdHostReady (currentVital (refreshVital demoRun))" "vdExceptlist (currentVital (refreshVital demoRun)) = Map.empty"
    using demoRun_sel(2)
    by (simp_all add: currentVital_def refreshVital_def)
      (simp add: demoRun_def registerSlave_def startMaster_def Let_def Add_def split: sum.split)
  have "\<exists>r. replyFrom calmEnv demoRun (execReq defaultConfig ''.'' [''/bin/sh''] cwd pv l) = Some r" for cwd pv l
  proof -
    have n: "mNetaddr demoRun \<noteq> []" by (simp add: demoRun_sel)
    have S: "[[One ''.'']] \<noteq> []" "\<forall>Ss\<in>set [[One ''.'']]. Ss \<noteq> [] \<and> (\<forall>S\<in>set Ss. wfSet S)" by simp_all
    have q: "rqCommand (execReq defaultConfig ''.'' [''/bin/sh''] cwd pv l) = ''e''"
      "rqNodes (execReq defaultConfig ''.'' [''/bin/sh''] cwd pv l) = join CHR '','' (map levelText [[One ''.'']])"
      by (simp_all add: execReq_def)
    from serve_exec [OF demoRun_run calmEnv_okEnv calmEnv_ok(2) n S q] show ?thesis by (auto simp: replyFrom_def)
  qed
  with vital ldd show ?thesis
    using demoExec_strings fields
    by (simp add: startExecution_def sessionEnv_def helloFrom_eq demoExec_def demoExecFs_def Walk.simps walk.simps
        VisitFile.simps VisitDir_def Let_def newPackVisitor_def finishedFiles_def split: option.split)
qed



end
