(* ===== verification/Contents.thy ===== *)
theory Contents
  imports FileTransfer Requests
begin

text \<open>
  What the files of a receiving node hold after a transfer, and that a node passes on to the
  next level the contents it was sent. The calls for regular files are given their meaning
  here: opening keeps the contents and starts at offset 0, writing overwrites from the
  offset on.
\<close>

section \<open>Files\<close>

type_synonym fileSys = "(string \<rightharpoonup> byte list) \<times> (string \<Rightarrow> nat)"

fun applyCall :: "oscall \<Rightarrow> fileSys \<Rightarrow> fileSys" where
  "applyCall (OpenRdwrCreate n) (fs, pos) =
     (fs(n \<mapsto> (case fs n of None \<Rightarrow> [] | Some b \<Rightarrow> b)), pos(n := 0))"
| "applyCall (WriteTo n bs) (fs, pos) =
     (case fs n of
        None \<Rightarrow> (fs, pos)
      | Some b \<Rightarrow> (fs(n \<mapsto> take (pos n) b @ bs @ drop (pos n + length bs) b), pos(n := pos n + length bs)))"
| "applyCall _ s = s"

definition applyCalls :: "oscall list \<Rightarrow> fileSys \<Rightarrow> fileSys" where
  "applyCalls cs s = fold applyCall cs s"

definition old :: "(string \<rightharpoonup> byte list) \<Rightarrow> string \<Rightarrow> byte list" where
  "old fs n = (case fs n of None \<Rightarrow> [] | Some b \<Rightarrow> b)"

text \<open>The calls that are not about regular files change nothing here.\<close>

lemma applyCalls_data: "applyCalls (dataCalls log) s = applyCalls log s"
proof (induction log arbitrary: s)
  case (Cons c log)
  have "\<not> isData c \<Longrightarrow> applyCall c s = s" by (cases c; cases s) simp_all
  with Cons show ?case by (simp add: applyCalls_def)
qed (simp add: applyCalls_def)

lemma applyCalls_append: "applyCalls (xs @ ys) s = applyCalls ys (applyCalls xs s)"
  by (simp add: applyCalls_def)

lemma applyCalls_writes:
  "fs n = Some (take k d @ b) \<Longrightarrow> length (take k d) = k \<Longrightarrow> pos n = k \<Longrightarrow> drop k d = concat cs \<Longrightarrow>
   \<exists>pos'. applyCalls (map (WriteTo n) cs) (fs, pos) = (fs(n \<mapsto> d @ drop (length d - k) b), pos')"
proof (induction cs arbitrary: fs pos k b)
  case Nil
  then have "length d \<le> k" by simp
  with Nil show ?case by (simp add: applyCalls_def) (metis fun_upd_triv)
next
  case (Cons c cs)
  let ?k = "k + length c"
  from Cons.prems(4) have d: "drop k d = c @ concat cs" by simp
  then have tk: "take ?k d = take k d @ c"
    by (metis append_eq_conv_conj take_add)
  from Cons.prems(2) have kl: "k \<le> length d" by simp
  from d have lk: "length d - k = length c + length (concat cs)" by (metis length_append length_drop)
  have len: "length (take ?k d) = ?k" using kl lk by simp
  have dr: "drop ?k d = concat cs" using d by (metis add.commute append_eq_conv_conj drop_drop)
  let ?fs = "fs(n \<mapsto> take ?k d @ drop (length c) b)"
  have step: "applyCall (WriteTo n c) (fs, pos) = (?fs, pos(n := ?k))"
    using Cons.prems(1-3) tk by simp
  have "\<exists>pos'. applyCalls (map (WriteTo n) cs) (?fs, pos(n := ?k))
      = (?fs(n \<mapsto> d @ drop (length d - ?k) (drop (length c) b)), pos')"
    using len dr by (intro Cons.IH) simp_all
  moreover have "length d - ?k + length c = length d - k" using lk by simp
  moreover have "applyCalls (map (WriteTo n) (c # cs)) (fs, pos) = applyCalls (map (WriteTo n) cs) (?fs, pos(n := ?k))"
    unfolding applyCalls_def list.map fold_simps step ..
  ultimately show ?case by (simp only: drop_drop fun_upd_upd)
qed

lemma applyCalls_store:
  assumes "Ftype f = 0"
  shows "\<exists>pos'. applyCalls (storeCalls disk destDir f) (fs, pos)
    = (fs(destOf destDir f \<mapsto> fileData disk f @ drop (length (fileData disk f)) (old fs (destOf destDir f))), pos')"
proof -
  let ?n = "destOf destDir f" and ?d = "fileData disk f"
  let ?fs = "fs(?n \<mapsto> old fs ?n)"
  have "?fs ?n = Some (take 0 ?d @ old fs ?n)" by simp
  from applyCalls_writes [where fs = ?fs and n = ?n and k = 0 and d = ?d and b = "old fs ?n"
      and pos = "pos(?n := 0)" and cs = "chunks ?d"]
  obtain pos' where "applyCalls (map (WriteTo ?n) (chunks ?d)) (?fs, pos(?n := 0))
      = (?fs(?n \<mapsto> ?d @ drop (length ?d) (old fs ?n)), pos')"
    by (auto simp: concat_chunks)
  with assms show ?thesis
    by (simp add: storeCalls_def applyCalls_def old_def)
qed

lemma applyCalls_stores:
  assumes "distinct (map (destOf destDir) (filter (\<lambda>f. Ftype f = 0) fs))"
  shows "\<exists>pos'. applyCalls (concat (map (storeCalls disk destDir) fs)) (m, pos) =
    (\<lambda>n. case List.find (\<lambda>f. Ftype f = 0 \<and> destOf destDir f = n) fs of
           None \<Rightarrow> m n
         | Some f \<Rightarrow> Some (fileData disk f @ drop (length (fileData disk f)) (old m n)), pos')"
  using assms
proof (induction fs arbitrary: m pos)
  case Nil
  then show ?case by (simp add: applyCalls_def)
next
  case (Cons f fs)
  show ?case
  proof (cases "Ftype f = 0")
    case False
    with Cons have "\<exists>pos'. applyCalls (concat (map (storeCalls disk destDir) fs)) (m, pos) =
    (\<lambda>n. case List.find (\<lambda>f. Ftype f = 0 \<and> destOf destDir f = n) fs of
           None \<Rightarrow> m n
         | Some f \<Rightarrow> Some (fileData disk f @ drop (length (fileData disk f)) (old m n)), pos')"
      by simp
    with False show ?thesis by (simp add: storeCalls_def [of disk destDir f])
  next
    case True
    let ?n = "destOf destDir f"
    let ?m = "m(?n \<mapsto> fileData disk f @ drop (length (fileData disk f)) (old m ?n))"
    obtain pos1 where 1: "applyCalls (storeCalls disk destDir f) (m, pos) = (?m, pos1)"
      using applyCalls_store [OF True] by blast
    have "distinct (map (destOf destDir) (filter (\<lambda>f. Ftype f = 0) fs))" using Cons.prems True by simp
    from Cons.IH [OF this, of ?m pos1] obtain pos2 where
      2: "applyCalls (concat (map (storeCalls disk destDir) fs)) (?m, pos1) =
      (\<lambda>n. case List.find (\<lambda>f. Ftype f = 0 \<and> destOf destDir f = n) fs of
           None \<Rightarrow> ?m n
         | Some f \<Rightarrow> Some (fileData disk f @ drop (length (fileData disk f)) (old ?m n)), pos2)" by blast
    have none: "List.find (\<lambda>f. Ftype f = 0 \<and> destOf destDir f = ?n) fs = None"
      using Cons.prems True by (force simp: find_None_iff image_iff)
    show ?thesis
      using 1 2 True none by (auto simp: applyCalls_append old_def fun_eq_iff split: option.split)
  qed
qed

section \<open>Properties\<close>

definition toDisk :: "(string \<rightharpoonup> byte list) \<Rightarrow> disk" where
  "toDisk fs n = map_option (\<lambda>b. \<lparr>dContent = b, dFailAt = None\<rparr>) (fs n)"

lemma fileData_toDisk: "fileData (toDisk fs) f = old fs (CurrentName f)"
  by (simp add: fileData_def toDisk_def old_def readable_def split: option.split)

lemma find_firstDest:
  assumes "distinct (map (destOf destDir) (filter (\<lambda>f. Ftype f = 0) fs))" and "f \<in> set fs" and "Ftype f = 0"
  shows "List.find (\<lambda>g. Ftype g = 0 \<and> destOf destDir g = destOf destDir f) fs = Some f"
  using assms by (induction fs) (auto split: if_splits)

lemma Decode_contents:
  assumes "dataOk fails" and "linksOk (filesOf x)"
    and dec: "Decode (logOs fails) destDir filesOf (wireOf disk filesOf x @ rest) [] = (r, rest', log)"
    and dist: "distinct (map (destOf destDir) (filter (\<lambda>f. Ftype f = 0) (firsts {} (filesOf x))))"
    and f: "f \<in> set (firsts {} (filesOf x))" "Ftype f = 0"
  shows "fst (applyCalls log (fs, pos)) (destOf destDir f) =
    Some (fileData disk f @ drop (length (fileData disk f)) (old fs (destOf destDir f)))"
proof -
  from Decode_wire [of fails filesOf x, OF assms(1,2), of destDir disk rest "[]"] dec
  have d: "dataCalls log = concat (map (storeCalls disk destDir) (firsts {} (filesOf x)))" by auto
  from applyCalls_stores [OF dist, of disk fs pos] obtain pos' where
    "applyCalls (dataCalls log) (fs, pos) =
      (\<lambda>n. case List.find (\<lambda>f. Ftype f = 0 \<and> destOf destDir f = n) (firsts {} (filesOf x)) of
           None \<Rightarrow> fs n
         | Some f \<Rightarrow> Some (fileData disk f @ drop (length (fileData disk f)) (old fs n)), pos')"
    unfolding d by blast
  then show ?thesis by (simp add: applyCalls_data find_firstDest [OF dist f])
qed

text \<open>Files that are all read below one directory have destinations of their own.\<close>

lemma rooted_dests:
  assumes "\<forall>g\<in>set fs. CurrentName g = root @ DestName g"
  shows "distinct (map (destOf dir) (filter P (firsts {} fs)))"
proof -
  have "map CurrentName (firsts {} fs) = map (\<lambda>g. root @ DestName g) (firsts {} fs)"
    using assms firsts_names [of "{}" fs] by auto
  with firsts_names [of "{}" fs] have "distinct (map (\<lambda>g. root @ DestName g) (firsts {} fs))" by simp
  then show ?thesis by (auto simp: distinct_map inj_on_def destOf_def)
qed

lemma cmdFile_rooted: "\<forall>g\<in>set (map (cmdFile root) cs). CurrentName g = root @ DestName g"
  by (simp add: cmdFile_def)

text \<open>
  After \<^verbatim>\<open>Decode\<close>, every regular file of the value (the first of its name; their
  destinations being different) begins with the contents the sender could read. Behind them
  stands what the file had there before: the decoder does not truncate, so the contents are
  exact precisely when the file was not longer before.
\<close>
theorem received_contents:
  assumes "dataOk fails" and "linksOk (filesOf x)"
    and "Decode (logOs fails) destDir filesOf (wireOf disk filesOf x @ rest) [] = (r, rest', log)"
    and "distinct (map (destOf destDir) (filter (\<lambda>f. Ftype f = 0) (firsts {} (filesOf x))))"
    and "f \<in> set (firsts {} (filesOf x))" "Ftype f = 0"
  shows "\<exists>b. fst (applyCalls log (fs, pos)) (destOf destDir f) = Some b \<and>
    take (length (fileData disk f)) b = fileData disk f \<and>
    drop (length (fileData disk f)) b = drop (length (fileData disk f)) (old fs (destOf destDir f)) \<and>
    (b = fileData disk f \<longleftrightarrow> length (old fs (destOf destDir f)) \<le> length (fileData disk f))"
  using Decode_contents [where filesOf = filesOf and x = x, OF assms, of fs pos] by simp

text \<open>
  Passing a command on loses nothing. The files of the request that a slave makes for
  its own slaves are those of the request it received, read from the places where it stored
  them. If none of these places was taken before, the bytes it sends on for every regular
  file are the bytes that were sent to it.
\<close>
theorem relay_contents:
  fixes arg :: startReq and binRoot rootDir :: string
  defines "q \<equiv> relayReq arg rootDir"
  assumes ok: "dataOk fails" and links: "linksOk (rqFiles q)"
    and dec: "Decode (logOs fails) binRoot rqFiles (wireOf disk rqFiles q @ rest) [] = (r, rest', log)"
    and free: "\<forall>f\<in>set (rqFiles q). destOf binRoot f \<notin> dom fs"
    and f: "f \<in> set (firsts {} (rqFiles q))" "Ftype f = 0"
  shows "rqFiles (relayReq q binRoot) = map (\<lambda>f. f\<lparr>CurrentName := destOf binRoot f\<rparr>) (rqFiles q) \<and>
    fileData (toDisk (fst (applyCalls log (fs, pos)))) (f\<lparr>CurrentName := destOf binRoot f\<rparr>) = fileData disk f"
proof
  show "rqFiles (relayReq q binRoot) = map (\<lambda>f. f\<lparr>CurrentName := destOf binRoot f\<rparr>) (rqFiles q)"
    by (simp add: q_def cmdFile_def destOf_def)
  have sub: "set (firsts {} (rqFiles q)) \<subseteq> set (rqFiles q)" using firsts_names by blast
  have dist: "distinct (map (destOf binRoot) (filter (\<lambda>f. Ftype f = 0) (firsts {} (rqFiles q))))"
    unfolding q_def relayReq_simps by (rule rooted_dests [OF cmdFile_rooted])
  from f(1) sub free have "fs (destOf binRoot f) = None" by blast
  then have "old fs (destOf binRoot f) = []" by (simp add: old_def)
  with Decode_contents [where filesOf = rqFiles and x = q, OF ok links dec dist f, of fs pos]
  show "fileData (toDisk (fst (applyCalls log (fs, pos)))) (f\<lparr>CurrentName := destOf binRoot f\<rparr>) = fileData disk f"
    by (simp add: fileData_toDisk) (simp add: old_def)
qed

text \<open>A request with one program, and a receiver on which no call fails.\<close>

definition demoReq :: startReq where
  "demoReq = zeroReq\<lparr>rqCmds := [\<lparr>cmCurrentName = ''/bin/a'', cmDestName = ''/bin/a'',
     cmSymlinkTarget = [], cmLocal = 0, cmUid = 0, cmGid = 0, cmFtype = 0, cmPerm = 0x1ED\<rparr>]\<rparr>"

lemma demoReq_files: "rqFiles (relayReq demoReq []) = [demoFile]"
  by (simp add: demoReq_def cmdFile_def demoFile_def)

lemma demoData: "fileData demoDisk demoFile = [7, 8]"
  by (simp add: fileData_def demoDisk_def demoFields readable_def)

lemma demoDecode:
  "Decode (logOs (\<lambda>_ _. None :: unit option)) ''/x'' rqFiles (wireOf demoDisk rqFiles (relayReq demoReq []) @ []) []
   = (let d = Decode (logOs (\<lambda>_ _. None :: unit option)) ''/x'' rqFiles (wireOf demoDisk rqFiles (relayReq demoReq []) @ []) []
      in (fst d, fst (snd d), snd (snd d)))"
  by (simp add: Let_def)

theorem received_contents_witness:
  "\<exists>b. fst (applyCalls (snd (snd (Decode (logOs (\<lambda>_ _. None :: unit option)) ''/x'' rqFiles
       (wireOf demoDisk rqFiles (relayReq demoReq []) @ []) []))) ([''/x/bin/a'' \<mapsto> [1, 2, 3]], \<lambda>_. 0)) ''/x/bin/a'' = Some b \<and>
     take 2 b = [7, 8] \<and> drop 2 b = [3]"
proof -
  have l: "linksOk (rqFiles (relayReq demoReq []))" by (simp only: demoReq_files demoLinks)
  have f: "firsts {} (rqFiles (relayReq demoReq [])) = [demoFile]" by (simp only: demoReq_files demoFirsts)
  have d: "distinct (map (destOf ''/x'') (filter (\<lambda>f. Ftype f = 0) (firsts {} (rqFiles (relayReq demoReq [])))))"
    unfolding f by simp
  have "demoFile \<in> set (firsts {} (rqFiles (relayReq demoReq [])))" unfolding f by simp
  from received_contents [where filesOf = rqFiles and x = "relayReq demoReq []", OF demoOk l
      demoDecode [unfolded Let_def] d this demoFields(1), of "[''/x/bin/a'' \<mapsto> [1, 2, 3]]" "\<lambda>_. 0"]
  show ?thesis
    by (auto simp: destOf_def demoFields old_def demoData numeral_2_eq_2 simp del: relayReq_simps)
qed

theorem relay_contents_witness:
  "fileData (toDisk (fst (applyCalls (snd (snd (Decode (logOs (\<lambda>_ _. None :: unit option)) ''/x'' rqFiles
       (wireOf demoDisk rqFiles (relayReq demoReq []) @ []) []))) (Map.empty, \<lambda>_. 0))))
     (demoFile\<lparr>CurrentName := ''/x/bin/a''\<rparr>) = [7, 8]"
proof -
  have l: "linksOk (rqFiles (relayReq demoReq []))" by (simp only: demoReq_files demoLinks)
  have f: "demoFile \<in> set (firsts {} (rqFiles (relayReq demoReq [])))"
    by (simp only: demoReq_files demoFirsts list.set insert_iff simp_thms)
  have e: "\<forall>f\<in>set (rqFiles (relayReq demoReq [])). destOf ''/x'' f \<notin> dom Map.empty" by simp
  from relay_contents [OF demoOk l demoDecode [unfolded Let_def] e f demoFields(1), of "\<lambda>_. 0"]
  show ?thesis
    by (simp add: destOf_def demoFields demoData del: relayReq_simps)
qed

end
