(* ===== verification/Delivery.thy ===== *)
theory Delivery
  imports Session Contents
begin

text \<open>
  The files of a command on their way through the tree. Every node receives the request with
  its files from the node above it (\<^verbatim>\<open>RecvPrint\<close> in \<^verbatim>\<open>slaveProc\<close>, over the encoder and decoder of package
  \<^verbatim>\<open>filemarshal\<close>), stores them below its own directory, starts the program, and sends the request on with
  the files as it has stored them. This puts \<^verbatim>\<open>Tree\<close>, \<^verbatim>\<open>Session\<close> and \<^verbatim>\<open>Contents\<close> together.
\<close>

section \<open>One connection\<close>

text \<open>
  The sender's encoder on a connection that keeps everything, and the decoder at the other end, which
  works on the files \<open>fs\<close> of the receiver.
\<close>

definition lossless :: "'m \<Rightarrow> ('m list, encerr, unit) gm" where
  "lossless m w = (Inr (), w @ [m])"

definition transfer ::
  "'e failures \<Rightarrow> string \<Rightarrow> disk \<Rightarrow> (string \<rightharpoonup> byte list) \<Rightarrow> startReq
     \<Rightarrow> 'e decerr + startReq \<times> (string \<rightharpoonup> byte list)" where
  "transfer fails dir disk fs q =
     (case Decode (logOs fails) dir rqFiles (snd (Encode lossless disk rqFiles q [])) [] of
        (Inl e, _, _) \<Rightarrow> Inl e
      | (Inr (req, files), _, log) \<Rightarrow> Inr (req\<lparr>rqFiles := files\<rparr>, fst (applyCalls log (fs, \<lambda>_. 0))))"

lemma lossless_lawful:
  "lawfulEncoder id (\<lambda>m. [m]) lossless" "lawfulEncoder (\<lambda>_. [] :: unit list) (\<lambda>m. []) lossless"
  by (simp_all add: lawfulEncoder_def sendsE_def lossless_def)

text \<open>No error can be returned: it would come after a proper part of nothing.\<close>

lemma Encode_lossless:
  assumes "present disk (rqFiles q)"
  shows "snd (Encode lossless disk rqFiles q []) = wireOf disk rqFiles q"
proof -
  have "concat (map (\<lambda>m. []) xs) = []" for xs :: "startReq gobmsg list" by (induction xs) simp_all
  then have none: "concat (map (\<lambda>m. [] :: unit list) (wireOf disk rqFiles q)) = []" by simp
  obtain r w where e: "Encode lossless disk rqFiles q [] = (r, w)" by fastforce
  show ?thesis
  proof (cases r)
    case (Inl x)
    with sends_Inl [OF Encode_sends [where filesOf = rqFiles, OF lossless_lawful(2) assms]] e show ?thesis
      by (fastforce simp: none)
  next
    case (Inr u)
    with sends_Inr [OF Encode_sends [where filesOf = rqFiles, OF lossless_lawful(1) assms]] e show ?thesis
      by fastforce
  qed
qed

section \<open>The tree\<close>

text \<open>
  What every node that is reached ends with: the identifiers on the way to it, its address, the request it has
  received, and its files. A node reads the files it sends on from those it has received.
\<close>

fun shipTree ::
  "(string \<Rightarrow> config) \<Rightarrow> 'c env \<Rightarrow> (string \<Rightarrow> 'e failures) \<Rightarrow> (string \<Rightarrow> string \<rightharpoonup> byte list) \<Rightarrow> disk
     \<Rightarrow> 'c tree \<Rightarrow> startReq \<Rightarrow> (string list \<times> string \<times> startReq \<times> (string \<rightharpoonup> byte list)) list" where
  "shipTree conf env fails fs disk (Tree i a sv kids) q =
     (case transfer (fails a) (cfBinRoot (conf a)) disk (fs a) q of
        Inl e \<Rightarrow> []
      | Inr (req, after) \<Rightarrow>
          ([], a, req, after) #
          (case nodeRun conf env a sv req of
             None \<Rightarrow> []
           | Some (r, st) \<Rightarrow>
               concat (map (\<lambda>k. concat (map (\<lambda>q'. map (\<lambda>(p, x). (treeId k # p, x))
                                     (shipTree conf env fails fs (toDisk after) k q'))
                                   (map snd (filter (\<lambda>s. fst s = treeAddr k) (nSent st))))) kids)))"

definition shipCommand ::
  "(string \<Rightarrow> config) \<Rightarrow> 'c env \<Rightarrow> (string \<Rightarrow> 'e failures) \<Rightarrow> (string \<Rightarrow> string \<rightharpoonup> byte list) \<Rightarrow> disk \<Rightarrow> startReq
     \<Rightarrow> ('c, 'z) node_scheme \<Rightarrow> 'c tree list
     \<Rightarrow> (string list \<times> string \<times> startReq \<times> (string \<rightharpoonup> byte list)) list option" where
  "shipCommand conf env fails fs disk req m kids =
     (case sendCommandsToNodes env req [] m of
        Some (replies, Inr n, m') \<Rightarrow>
          Some (concat (map (\<lambda>k. concat (map (\<lambda>q. map (\<lambda>(p, x). (treeId k # p, x)) (shipTree conf env fails fs disk k q))
            (map snd (filter (\<lambda>s. fst s = treeAddr k) (newSent m m'))))) kids))
      | _ \<Rightarrow> None)"

section \<open>Requests that are passed on\<close>

text \<open>
  The request a node has for the nodes below it: the files are those of the entries, read below its
  directory, and the program is the one it was sent.
\<close>

definition passes :: "string \<Rightarrow> startReq \<Rightarrow> startReq \<Rightarrow> bool" where
  "passes root req q \<longleftrightarrow>
     rqFiles q = map (cmdFile root) (filter (\<lambda>c. sint (cmFtype c) \<le> 2) (rqCmds q)) \<and>
     rqCmds q = rqCmds req \<and> rqArgs q = rqArgs req \<and> (\<forall>sc. runLocal sc q = runLocal sc req)"

lemma runLocal_cong:
  "rqArgs q = rqArgs req \<Longrightarrow> rqLocalBin q = rqLocalBin req \<Longrightarrow> rqPath q = rqPath req \<Longrightarrow> rqEnv q = rqEnv req \<Longrightarrow>
   rqLibList q = rqLibList req \<Longrightarrow> rqCwd q = rqCwd req \<Longrightarrow> runLocal sc q = runLocal sc req"
proof -
  assume eq: "rqArgs q = rqArgs req" "rqLocalBin q = rqLocalBin req" "rqPath q = rqPath req" "rqEnv q = rqEnv req"
    "rqLibList q = rqLibList req" "rqCwd q = rqCwd req"
  have "ldLibPath sc q ss acc = ldLibPath sc req ss acc" for ss acc
    by (induction ss arbitrary: acc) (simp_all add: eq)
  then show ?thesis by (simp add: runLocal_def eq Let_def split: list.split)
qed

lemma runLocal_relayReq: "runLocal sc (relayReq req root) = runLocal sc req"
  by (rule runLocal_cong) (simp_all add: relayReq_def newStartReq_def Let_def)

lemma passes_relayReq:
  "passes root req (relayReq (req\<lparr>rqLfam := fam, rqLserver := srv, rqNodes := ns\<rparr>) root)"
proof -
  have "runLocal sc (req\<lparr>rqLfam := fam, rqLserver := srv, rqNodes := ns\<rparr>) = runLocal sc req" for sc
    by (rule runLocal_cong) simp_all
  then show ?thesis by (simp add: passes_def runLocal_relayReq)
qed

lemma passes_master: "passes root req ((relayReq req root)\<lparr>rqNodes := ns\<rparr>)"
proof -
  have "req\<lparr>rqLfam := rqLfam req, rqLserver := rqLserver req\<rparr> = req" by (cases req) simp
  with passes_relayReq [where req = req and fam = "rqLfam req" and srv = "rqLserver req"] show ?thesis
    by (simp add: relayReq_Nodes)
qed

lemma nodeRun_sent:
  assumes "nodeRun conf env a sv req = Some (r, st)" and "q \<in> snd ` set (nSent st)"
  shows "passes (cfBinRoot (conf a)) req q"
proof -
  let ?ce = "ceOf env sv (Some a)"
  have up: "(s, q) \<in> set (nSent st2) \<Longrightarrow> passes (cfBinRoot (conf a)) req q"
    if "useProxy ?ce avail req = Some req1"
      "sendCommandsToANodeSet env req1 ns (cfBinRoot (conf a)) ss childNode = (nn, req2, st2)"
    for avail req1 ns ss nn req2 st2 s
    using useProxy_relay [OF that(1)] that(2) passes_relayReq [of "cfBinRoot (conf a)" req]
    by (auto simp: sendCommandsToANodeSet_def sendEach_eq childNode_def Let_def)
  have none: "nSent childNode = []" by (simp add: childNode_def)
  from assms show ?thesis
    by (auto simp: nodeRun_def slaveProc_def Let_def none split: if_splits option.splits list.splits prod.splits intro: up)
qed

lemma nodeRun_files: "nodeRun conf env a sv (req\<lparr>rqFiles := files\<rparr>) = nodeRun conf env a sv req"
proof -
  have [simp]: "relayReq (req\<lparr>rqFiles := files\<rparr>) root = relayReq req root" for req root
    by (simp add: relayReq_def newStartReq_def)
  have [simp]: "req\<lparr>rqFiles := files, rqNodes := ns\<rparr> = req\<lparr>rqNodes := ns\<rparr>\<lparr>rqFiles := files\<rparr>" for req ns by simp
  have [simp]: "runLocal sc (req\<lparr>rqFiles := files\<rparr>) = runLocal sc req" for sc by (rule runLocal_cong) simp_all
  have send: "snd (snd (sendCommandsToANodeSet env (req\<lparr>rqFiles := files\<rparr>) ns root ss st))
      = snd (snd (sendCommandsToANodeSet env req ns root ss st))" for req ns root ss st
    by (simp add: sendCommandsToANodeSet_def sendEach_eq Let_def)
  have proxy: "useProxy ce avail (req\<lparr>rqFiles := files\<rparr>) = map_option (\<lambda>r. r\<lparr>rqFiles := files\<rparr>) (useProxy ce avail req)"
    for ce avail
    by (simp add: useProxy_def split: option.split)
  show ?thesis
    by (simp add: nodeRun_def slaveProc_def Let_def proxy send split_beta split: option.split list.split)
qed

section \<open>One node\<close>

text \<open>
  The entries of a request: each name once, no empty name, links with a target.
\<close>

definition entriesOk :: "cmdToExec list \<Rightarrow> bool" where
  "entriesOk cs \<longleftrightarrow> inj_on cmDestName (set cs) \<and>
     (\<forall>c\<in>set cs. cmDestName c \<noteq> [] \<and> (cmFtype c = 2 \<longrightarrow> cmSymlinkTarget c \<noteq> []))"

lemma firsts_unique:
  "f \<in> set fs \<Longrightarrow> CurrentName f \<noteq> [] \<Longrightarrow> CurrentName f \<notin> seen \<Longrightarrow>
   \<forall>g\<in>set fs. CurrentName g = CurrentName f \<longrightarrow> g = f \<Longrightarrow> f \<in> set (firsts seen fs)"
  by (induction fs arbitrary: seen) auto

lemma firsts_entry:
  assumes "entriesOk cs" and "c \<in> set cs" and "sint (cmFtype c) \<le> 2"
  shows "cmdFile root c \<in> set (firsts {} (map (cmdFile root) (filter (\<lambda>c. sint (cmFtype c) \<le> 2) cs)))"
  using assms by (intro firsts_unique) (auto simp: entriesOk_def cmdFile_def inj_on_def)

lemma transfer_entries:
  assumes ok: "dataOk fails" and cs: "entriesOk (rqCmds q)" and q: "passes root req q"
    and there: "\<forall>c\<in>set (rqCmds q). cmFtype c = 0 \<longrightarrow> root @ cmDestName c \<in> dom disk"
    and free: "\<forall>c\<in>set (rqCmds q). cmFtype c = 0 \<longrightarrow> fs (dir @ cmDestName c) = None"
  shows "\<exists>files after. transfer fails dir disk fs q = Inr (q\<lparr>rqFiles := files\<rparr>, after) \<and>
    (\<forall>c\<in>set (rqCmds q). cmFtype c = 0 \<longrightarrow> after (dir @ cmDestName c) = Some (fileData disk (cmdFile root c)))"
proof -
  let ?fs = "map (cmdFile root) (filter (\<lambda>c. sint (cmFtype c) \<le> 2) (rqCmds q))"
  have fs: "rqFiles q = ?fs" using q by (simp add: passes_def)
  have links: "linksOk (rqFiles q)" using cs by (auto simp: fs linksOk_def entriesOk_def cmdFile_def)
  have "present disk (rqFiles q)"
    unfolding present_def
  proof (intro ballI impI)
    fix f assume "f \<in> set (firsts {} (rqFiles q))" "Ftype f = 0"
    moreover from this have "f \<in> set ?fs" using firsts_names [of "{}" "rqFiles q"] by (simp add: fs)
    ultimately show "CurrentName f \<in> dom disk" using there by (auto simp: cmdFile_def)
  qed
  note wire = Encode_lossless [OF this]
  from Decode_wire [of fails rqFiles q, OF ok links, of dir disk "[]" "[]"] obtain log where
    dec: "Decode (logOs fails) dir rqFiles (wireOf disk rqFiles q @ []) [] =
      (Inr (q, delivered dir (rqFiles q)), [], log)" by blast
  have dist: "distinct (map (destOf dir) (filter (\<lambda>f. Ftype f = 0) (firsts {} (rqFiles q))))"
    unfolding fs by (rule rooted_dests [OF cmdFile_rooted])
  have "fst (applyCalls log (fs, \<lambda>_. 0)) (dir @ cmDestName c) = Some (fileData disk (cmdFile root c))"
    if c: "c \<in> set (rqCmds q)" "cmFtype c = 0" for c
  proof -
    have f: "cmdFile root c \<in> set (firsts {} (rqFiles q))" "Ftype (cmdFile root c) = 0"
      "destOf dir (cmdFile root c) = dir @ cmDestName c"
      using firsts_entry [OF cs c(1), of root] c(2) by (simp_all add: fs) (simp_all add: cmdFile_def destOf_def)
    from free c have "old fs (dir @ cmDestName c) = []" by (simp add: old_def)
    with Decode_contents [OF ok links dec dist f(1,2), of fs "\<lambda>_. 0"] f(3) show ?thesis by simp
  qed
  with dec wire show ?thesis by (auto simp: transfer_def)
qed

section \<open>The whole tree\<close>

text \<open>
  What a node ends with for the request \<open>req\<close>: the same program with the same entries, and every regular
  file of them with the contents \<open>data\<close> at its place below the node's directory.
\<close>

definition served ::
  "(string \<Rightarrow> config) \<Rightarrow> startReq \<Rightarrow> (cmdToExec \<Rightarrow> byte list) \<Rightarrow> string \<times> startReq \<times> (string \<rightharpoonup> byte list) \<Rightarrow> bool" where
  "served conf req data = (\<lambda>(a, q, after). rqCmds q = rqCmds req \<and> rqArgs q = rqArgs req \<and>
     (\<forall>sc. runLocal sc q = runLocal sc req) \<and>
     (\<forall>c\<in>set (rqCmds req). cmFtype c = 0 \<longrightarrow> after (cfBinRoot (conf a) @ cmDestName c) = Some (data c)))"

lemma served_passes: "passes root req q \<Longrightarrow> served conf q data = served conf req data"
  by (simp add: served_def passes_def)

lemma map_fst_tag: "map fst (map (\<lambda>(p, x). (i # p, x)) l) = map ((#) i) (map fst l)"
  by (induction l) auto

lemma map_fst_tags:
  assumes "\<And>q. q \<in> set qs \<Longrightarrow> map fst (f q) = map fst (g q)"
  shows "map fst (concat (map (\<lambda>q. map (\<lambda>(p, x). (i # p, x)) (f q)) qs)) =
    map fst (concat (map (\<lambda>q. map (\<lambda>(p, x). (i # p, x)) (g q)) qs))"
  using assms by (induction qs) (simp_all add: map_fst_tag del: map_map)

lemma map_fst_concat:
  "(\<And>k. k \<in> set ks \<Longrightarrow> map fst (f k) = map fst (g k)) \<Longrightarrow>
   map fst (concat (map f ks)) = map fst (concat (map g ks))"
  by (induction ks) simp_all

lemma snd_tags:
  "x \<in> snd ` set (concat (map (\<lambda>k. concat (map (\<lambda>q. map (\<lambda>(p, x). (i k # p, x)) (f k q)) (qs k))) ks)) \<Longrightarrow>
   (\<And>k q. k \<in> set ks \<Longrightarrow> q \<in> set (qs k) \<Longrightarrow> \<forall>y\<in>snd ` set (f k q). P y) \<Longrightarrow> P x"
  by force

lemma shipTree_runs:
  assumes ok: "\<And>a. dataOk (fails a)" and cs: "entriesOk cs"
    and free: "\<And>a c. c \<in> set cs \<Longrightarrow> cmFtype c = 0 \<Longrightarrow> fs a (cfBinRoot (conf a) @ cmDestName c) = None"
  shows "passes root req q \<Longrightarrow> rqCmds req = cs \<Longrightarrow>
    \<forall>c\<in>set cs. cmFtype c = 0 \<longrightarrow> root @ cmDestName c \<in> dom disk \<and> fileData disk (cmdFile root c) = data c \<Longrightarrow>
    map fst (shipTree conf env fails fs disk t q) = map fst (runTree conf env t q) \<and>
    (\<forall>x\<in>snd ` set (shipTree conf env fails fs disk t q). served conf req data x)"
proof (induction t arbitrary: root req q disk)
  case (Tree i a sv kids)
  have q: "rqCmds q = cs" "rqArgs q = rqArgs req" "\<And>sc. runLocal sc q = runLocal sc req"
    using Tree.prems(1,2) by (simp_all add: passes_def)
  have cs': "entriesOk (rqCmds q)" and there: "\<forall>c\<in>set (rqCmds q). cmFtype c = 0 \<longrightarrow> root @ cmDestName c \<in> dom disk"
    and free': "\<forall>c\<in>set (rqCmds q). cmFtype c = 0 \<longrightarrow> fs a (cfBinRoot (conf a) @ cmDestName c) = None"
    unfolding q(1) using cs free Tree.prems(3) by blast+
  from transfer_entries [OF ok cs' Tree.prems(1) there free', of a]
  obtain files after where tr: "transfer (fails a) (cfBinRoot (conf a)) disk (fs a) q = Inr (q\<lparr>rqFiles := files\<rparr>, after)"
    and aft: "\<forall>c\<in>set cs. cmFtype c = 0 \<longrightarrow> after (cfBinRoot (conf a) @ cmDestName c) = Some (fileData disk (cmdFile root c))"
    unfolding q(1) by blast
  then have after: "\<forall>c\<in>set cs. cmFtype c = 0 \<longrightarrow> after (cfBinRoot (conf a) @ cmDestName c) = Some (data c)"
    using Tree.prems(3) by simp
  have "runLocal sc (q\<lparr>rqFiles := files\<rparr>) = runLocal sc q" for sc by (rule runLocal_cong) simp_all
  then have self: "served conf req data (a, q\<lparr>rqFiles := files\<rparr>, after)"
    using q Tree.prems(2) after by (simp add: served_def)
  show ?case
  proof (cases "nodeRun conf env a sv q")
    case None
    with tr self show ?thesis by (simp add: nodeRun_files)
  next
    case (Some x)
    obtain r st where x: "x = (r, st)" by fastforce
    let ?qs = "\<lambda>k. map snd (filter (\<lambda>s. fst s = treeAddr k) (nSent st))"
    let ?ship = "shipTree conf env fails fs (toDisk after)"
    have IH: "map fst (?ship k q') = map fst (runTree conf env k q')" "\<forall>x\<in>snd ` set (?ship k q'). served conf req data x"
      if "k \<in> set kids" "q' \<in> set (?qs k)" for k q'
    proof -
      have "q' \<in> snd ` set (nSent st)" using that(2) by auto
      then have "passes (cfBinRoot (conf a)) q q'" using nodeRun_sent [of conf env a sv q r st] Some x by blast
      moreover have "\<forall>c\<in>set cs. cmFtype c = 0 \<longrightarrow> cfBinRoot (conf a) @ cmDestName c \<in> dom (toDisk after) \<and>
          fileData (toDisk after) (cmdFile (cfBinRoot (conf a)) c) = data c"
        using after by (auto simp: fileData_toDisk old_def cmdFile_def toDisk_def)
      ultimately show "map fst (?ship k q') = map fst (runTree conf env k q')" "\<forall>x\<in>snd ` set (?ship k q'). served conf req data x"
        using Tree.IH [OF that(1) _ q(1), of "cfBinRoot (conf a)" q' "toDisk after"]
        unfolding served_passes [OF Tree.prems(1)] by blast+
    qed
    have ship: "shipTree conf env fails fs disk (Tree i a sv kids) q = ([], a, q\<lparr>rqFiles := files\<rparr>, after) #
        concat (map (\<lambda>k. concat (map (\<lambda>q'. map (\<lambda>(p, x). (treeId k # p, x)) (?ship k q')) (?qs k))) kids)"
      using tr Some x by (simp add: nodeRun_files)
    have "map fst (shipTree conf env fails fs disk (Tree i a sv kids) q) = map fst (runTree conf env (Tree i a sv kids) q)"
      unfolding ship runTree.simps Some x option.case prod.case list.map fst_conv
      using IH(1) by (intro arg_cong [of _ _ "(#) []"] map_fst_concat map_fst_tags) blast
    moreover have "served conf req data x"
      if "x \<in> snd ` set (shipTree conf env fails fs disk (Tree i a sv kids) q)" for x
      using that self unfolding ship list.set image_insert insert_iff snd_conv
      by (elim disjE) (simp, erule snd_tags, rule IH(2))
    ultimately show ?thesis by blast
  qed
qed

lemma shipCommand_runs:
  assumes dial: "\<And>n s. dialOk env n s" and "okOrder env"
    and inv: "slaves_inv (nSlaves m)" and blank: "[] \<notin> dom (Addr2id (nSlaves m))"
    and kids: "nodesOf (nSlaves m) = kidPairs kids" "\<forall>k\<in>set kids. treeOk k"
    and Sss: "Sss \<noteq> []" "\<forall>Ss\<in>set Sss. Ss \<noteq> [] \<and> (\<forall>S\<in>set Ss. wfSet S)"
    and nodes: "rqNodes req = join CHR '','' (map levelText Sss)"
    and ok: "\<And>a. dataOk (fails a)" and cs: "entriesOk (rqCmds req)"
    and free: "\<And>a c. c \<in> set (rqCmds req) \<Longrightarrow> cmFtype c = 0 \<Longrightarrow> fs a (cfBinRoot (conf a) @ cmDestName c) = None"
    and there: "\<forall>c\<in>set (rqCmds req). cmFtype c = 0 \<longrightarrow> cmDestName c \<in> dom disk"
  shows "\<exists>ys. shipCommand conf env fails fs disk req m kids = Some ys \<and>
    fst ` set ys = (\<Union>Ss\<in>set Sss. \<Union>k\<in>set kids.
      if selects (hd Ss) (treeId k) (treeAddr k) then (#) (treeId k) ` runs (tl Ss) k else {}) \<and>
    (\<forall>x\<in>snd ` set ys. served conf req (\<lambda>c. fileData disk (cmdFile [] c)) x)"
proof -
  let ?data = "\<lambda>c. fileData disk (cmdFile [] c)"
  have p: "parseNodeList (rqNodes req) = Some (map levelEntry Sss, None)"
    unfolding nodes using parse_levelTexts [OF Sss(1)] Sss(2) by blast
  from sendEntries_all [OF dial assms(2) inv blank, of req "[]" Sss 0] obtain news m' where
    se: "sendEntries env req [] (map levelEntry Sss) 0 m = (Inr (of_nat (length news)), m')"
    and sent: "nSent m' = nSent m @ news"
    and news: "set news = (\<Union>Ss\<in>set Sss. (\<lambda>a. (a, (relayReq req [])\<lparr>rqNodes := levelText (tl Ss)\<rparr>)) `
      {a. \<exists>i. (i, a) \<in> nodesOf (nSlaves m) \<and> selects (headSet Ss) i a})" by auto
  let ?qs = "\<lambda>k. map snd (filter (\<lambda>s. fst s = treeAddr k) news)"
  let ?all = "\<lambda>f. concat (map (\<lambda>k. concat (map (\<lambda>q. map (\<lambda>(p, x). (treeId k # p, x)) (f k q)) (?qs k))) kids)"
  let ?ship = "shipTree conf env fails fs disk"
  have run: "runCommand conf env req m kids = Some (?all (runTree conf env))"
    and ship: "shipCommand conf env fails fs disk req m kids = Some (?all ?ship)"
    using p se by (simp_all add: runCommand_def shipCommand_def sendCommandsToNodes_def newSent_def sent)
  have each: "map fst (?ship k q) = map fst (runTree conf env k q)" "\<forall>x\<in>snd ` set (?ship k q). served conf req ?data x"
    if "q \<in> set (?qs k)" for k q
  proof -
    from that news have "passes [] req q" by (auto intro: passes_master)
    moreover have "\<forall>c\<in>set (rqCmds req). cmFtype c = 0 \<longrightarrow> [] @ cmDestName c \<in> dom disk \<and> fileData disk (cmdFile [] c) = ?data c"
      using there by simp
    ultimately show "map fst (?ship k q) = map fst (runTree conf env k q)" "\<forall>x\<in>snd ` set (?ship k q). served conf req ?data x"
      using shipTree_runs [where fails = fails and fs = fs and conf = conf and root = "[]" and req = req and q = q
          and disk = disk and data = ?data, OF ok cs free] by blast+
  qed
  have "map fst (?all ?ship) = map fst (?all (runTree conf env))"
    by (intro map_fst_concat map_fst_tags each(1))
  then have "fst ` set (?all ?ship) = fst ` set (?all (runTree conf env))" by (metis set_map)
  moreover have "served conf req ?data x" if "x \<in> snd ` set (?all ?ship)" for x
    using that by (rule snd_tags) (rule each(2))
  ultimately show ?thesis
    using ship run runCommand_runs [OF dial assms(2) inv blank kids Sss nodes, of conf] by simp
qed

section \<open>Properties\<close>

lemma ftypeOf_regular: "ftypeOf k = 0 \<longleftrightarrow> k = Regular"
  by (cases k) simp_all

lemma entriesOk_cmdFor:
  assumes cmds: "\<And>c. c \<in> set cs \<Longrightarrow> cmdFor fs (cmDestName c) = Some c" and "fsLstat fs [] = None"
    and links: "\<And>p i. fsLstat fs p = Some i \<Longrightarrow> fiKind i = Symlink \<Longrightarrow> \<exists>l. fsReadlink fs p = Some l \<and> l \<noteq> []"
  shows "entriesOk cs"
  unfolding entriesOk_def
proof (intro conjI ballI impI)
  show "inj_on cmDestName (set cs)" using cmds by (metis inj_onI option.inject)
  fix c assume c: "c \<in> set cs"
  then obtain i where i: "fsLstat fs (cmDestName c) = Some i" using cmds [OF c] by (auto simp: cmdFor_def split: option.splits)
  with assms(2) show "cmDestName c \<noteq> []" by auto
  assume "cmFtype c = 2"
  with cmdFor_Ftype [OF cmds [OF c] i] have k: "fiKind i = Symlink" by (cases "fiKind i") simp_all
  with links [OF i] obtain l where "fsReadlink fs (cmDestName c) = Some l" "l \<noteq> []" by blast
  with cmds [OF c] i k have "c = (mkCmd (cmDestName c) i)\<lparr>cmSymlinkTarget := l\<rparr>" by (simp add: cmdFor_def)
  then have "cmSymlinkTarget c = l" by (metis cmdToExec.select_convs(3) cmdToExec.surjective cmdToExec.update_convs(3))
  with \<open>l \<noteq> []\<close> show "cmSymlinkTarget c \<noteq> []" by simp
qed



end
