(* ===== verification/MasterConc.thy ===== *)
theory MasterConc
  imports Cluster
begin

text \<open>
  The goroutines of the master in any interleaving (\<^verbatim>\<open>receiveCmds\<close> of \<^verbatim>\<open>src/src/gproc/master.go\<close> starts one for
  every connection of a user, \<^verbatim>\<open>registerSlaves\<close> of \<^verbatim>\<open>common.go\<close> is another). They share the registry, the
  files to leave out, the vital data and \<^verbatim>\<open>netaddr\<close>, and take no locks. A step is one operation on
  what they share, or one attempt to dial a slave; a step is taken to be atomic, which Go does not promise
  for its maps.
\<close>

section \<open>One goroutine for a user\<close>

text \<open>
  Where the goroutine stands. While it qs a command it holds the request, the addresses and the entries of the
  node list that are left, and the number of requests sent.
\<close>

datatype 'c handler =
    NoConn | Hello | Greet | Receive
  | Excepting "string list" | Clearing | Listing | AcceptedFiles | Informing
  | BadList string
  | Entries startReq "nodeExecList list" goint
  | Sending startReq "string list" "nodeExecList list" goint
  | DialFailed string startReq "string list" "nodeExecList list" goint
  | Removing "'c slaveInfo" startReq "string list" "nodeExecList list" goint
  | Finished goint
  | Closed

definition finishedMsg :: string where
  "finishedMsg = ''sendCommandsToNodes finished''"

text \<open>
  A step: what is sent to the user, what is sent to slaves, the state, and where the goroutine goes or its
  panic. \<open>rcv\<close> is what \<^verbatim>\<open>Recv\<close> gives, \<open>order\<close> the order in which a map is gone through, \<open>ok\<close> whether dialling
  succeeds. \<open>None\<close> is a goroutine that has ended, or is in a loop that never does.
\<close>

fun handlerStep ::
  "startReq option \<Rightarrow> string list \<Rightarrow> bool \<Rightarrow> 'c master \<Rightarrow> 'c handler
     \<Rightarrow> (reply list \<times> (string \<times> startReq) list \<times> 'c master \<times> (runtime_error + 'c handler)) option" where
  "handlerStep rcv order ok m NoConn = None"
| "handlerStep rcv order ok m Hello = Some ([], [], refreshVital m, Inr Greet)"
| "handlerStep rcv order ok m Greet = Some ([VitalReply (currentVital m)], [], m, Inr Receive)"
| "handlerStep rcv order ok m Receive =
     (case rcv of
        None \<Rightarrow> Some ([], [], m, Inr Closed)
      | Some a \<Rightarrow>
          if rqCommand a = [] then Some ([], [], m, Inl IndexOutOfRange)
          else if rqCommand a ! 0 = CHR ''x'' then Some ([], [], m, Inr (Excepting (rqArgs a)))
          else if rqCommand a ! 0 = CHR ''i'' then Some ([], [], m, Inr Informing)
          else if rqCommand a ! 0 = CHR ''e'' then
            (if \<not> vdHostReady (mVital m) then Some ([], [], m, Inr Closed)
             else (case parseNodeList (rqNodes a) of
                     None \<Rightarrow> None
                   | Some (es, Some err) \<Rightarrow> Some ([], [], m, Inr (BadList err))
                   | Some (es, None) \<Rightarrow> Some ([], [], m, Inr (Entries a es 0))))
          else Some ([RespReply \<lparr>rsNumNodes = 0, rsMsg = ''unknown command''\<rparr>], [], m, Inr Closed))"
| "handlerStep rcv order ok m (Excepting (s # ss)) =
     Some ([], [], m\<lparr>mExceptFiles := (mExceptFiles m)(s \<mapsto> True)\<rparr>, Inr (Excepting ss))"
| "handlerStep rcv order ok m (Excepting []) = Some ([], [], m, Inr Clearing)"
| "handlerStep rcv order ok m Clearing = Some ([], [], m\<lparr>mExceptList := []\<rparr>, Inr Listing)"
| "handlerStep rcv order ok m Listing = Some ([], [], m\<lparr>mExceptList := mExceptList m @ order\<rparr>, Inr AcceptedFiles)"
| "handlerStep rcv order ok m AcceptedFiles =
     Some ([RespReply \<lparr>rsNumNodes = 0, rsMsg = ''Files accepted''\<rparr>], [], m, Inr Closed)"
| "handlerStep rcv order ok m Informing =
     Some ([RespReply \<lparr>rsNumNodes = of_nat (length order), rsMsg = infoLines (Addr2id (nSlaves m)) order []\<rparr>],
       [], m, Inr Closed)"
| "handlerStep rcv order ok m (BadList err) =
     Some ([RespReply \<lparr>rsNumNodes = 0, rsMsg = ''startExecution: bad slaveNodeList: '' @ err\<rparr>], [], m, Inr (Finished 0))"
| "handlerStep rcv order ok m (Entries a [] n) = Some ([], [], m, Inr (Finished n))"
| "handlerStep rcv order ok m (Entries a (e # es) n) =
     (case ServIntersect order (nSlaves m) (Nodes e) of
        Inl p \<Rightarrow> Some ([], [], m, Inl p)
      | Inr ss \<Rightarrow> Some ([], [], m, Inr (Sending (a\<lparr>rqNodes := Subnodes e\<rparr>) ss es n)))"
| "handlerStep rcv order ok m (Sending a [] es n) = Some ([], [], m, Inr (Entries a es n))"
| "handlerStep rcv order ok m (Sending a (s # ss) es n) =
     (let m1 = m\<lparr>nDials := Suc (nDials m)\<rparr>
      in if ok
         then Some ([], [(s, relayReq a [])], m1\<lparr>nSent := nSent m1 @ [(s, relayReq a [])]\<rparr>, Inr (Sending a ss es (n + 1)))
         else Some ([], [], m1, Inr (DialFailed s a ss es n)))"
| "handlerStep rcv order ok m (DialFailed s a ss es n) =
     (case Get (nSlaves m) s of
        None \<Rightarrow> Some ([], [], m, Inr (Sending a ss es n))
      | Some si \<Rightarrow> Some ([], [], m, Inr (Removing si a ss es n)))"
| "handlerStep rcv order ok m (Removing si a ss es n) =
     Some ([], [], m\<lparr>nSlaves := Remove (nSlaves m) si\<rparr>, Inr (Sending a ss es n))"
| "handlerStep rcv order ok m (Finished n) =
     Some ([RespReply \<lparr>rsNumNodes = n, rsMsg = finishedMsg\<rparr>], [], m, Inr Closed)"
| "handlerStep rcv order ok m Closed = None"

text \<open>What the outside may choose at a point: a request is received in one place only, and maps are gone through in some order.\<close>

fun choiceOk :: "'c master \<Rightarrow> 'c handler \<Rightarrow> startReq option \<Rightarrow> string list \<Rightarrow> bool" where
  "choiceOk m Receive rcv order \<longleftrightarrow> True"
| "choiceOk m Listing rcv order \<longleftrightarrow> rcv = None \<and> keyOrder order (mExceptFiles m)"
| "choiceOk m Informing rcv order \<longleftrightarrow> rcv = None \<and> keyOrder order (Addr2id (nSlaves m))"
| "choiceOk m (Entries a es n) rcv order \<longleftrightarrow> rcv = None \<and> keyOrder order (Slaves (nSlaves m))"
| "choiceOk m pc rcv order \<longleftrightarrow> rcv = None"

section \<open>The master with all its goroutines\<close>

text \<open>The goroutine of \<^verbatim>\<open>registerSlaves\<close> waits, or has received the data of a slave and set \<^verbatim>\<open>netaddr\<close>.\<close>

datatype 'c registrar = Accepting | Registering string 'c vitalData

record 'c conc =
  coNode :: "'c master"
  coReg :: "'c registrar"
  coPc :: "nat \<Rightarrow> 'c handler"
  coSent :: "(nat \<times> string \<times> startReq) list"
  coReplies :: "(nat \<times> reply) list"
  coPanic :: "runtime_error option"

definition startConc :: "'c conc" where
  "startConc =
     \<lparr>coNode = startMaster, coReg = Accepting, coPc = (\<lambda>_. NoConn), coSent = [], coReplies = [], coPanic = None\<rparr>"

datatype 'c clabel =
    UserDials nat
  | UserStep nat "startReq option" "string list" bool
  | SlaveSends string 'c "vitalData option"
  | SlaveAdded

definition goesTo :: "'c conc \<Rightarrow> nat \<Rightarrow> reply list \<times> (string \<times> startReq) list \<times> 'c master \<times> (runtime_error + 'c handler)
    \<Rightarrow> 'c conc" where
  "goesTo s h = (\<lambda>(rs, qs, m, r).
     s\<lparr>coNode := m, coSent := coSent s @ map (Pair h) qs, coReplies := coReplies s @ map (Pair h) rs,
       coPc := (case r of Inl p \<Rightarrow> coPc s | Inr pc \<Rightarrow> (coPc s)(h := pc)),
       coPanic := (case r of Inl p \<Rightarrow> Some p | Inr pc \<Rightarrow> coPanic s)\<rparr>)"

inductive cstep :: "'c conc \<Rightarrow> 'c clabel \<Rightarrow> 'c conc \<Rightarrow> bool" where
  dials: "coPanic s = None \<Longrightarrow> coPc s h = NoConn \<Longrightarrow> cstep s (UserDials h) (s\<lparr>coPc := (coPc s)(h := Hello)\<rparr>)"
| handles: "coPanic s = None \<Longrightarrow> choiceOk (coNode s) (coPc s h) rcv order \<Longrightarrow>
    handlerStep rcv order ok (coNode s) (coPc s h) = Some x \<Longrightarrow>
    cstep s (UserStep h rcv order ok) (goesTo s h x)"
| no_vital: "coPanic s = None \<Longrightarrow> coReg s = Accepting \<Longrightarrow> cstep s (SlaveSends raddr c None) s"
| vital: "coPanic s = None \<Longrightarrow> coReg s = Accepting \<Longrightarrow>
    cstep s (SlaveSends raddr c (Some vd))
      (s\<lparr>coReg := Registering raddr c vd,
         coNode := (coNode s)\<lparr>mNetaddr := learnNetaddr vd (mNetaddr (coNode s))\<rparr>\<rparr>)"
| added: "coPanic s = None \<Longrightarrow> coReg s = Registering raddr c vd \<Longrightarrow> fixServerAddr raddr vd = Inr vd' \<Longrightarrow>
    cstep s SlaveAdded
      (s\<lparr>coReg := Accepting, coNode := (coNode s)\<lparr>nSlaves := snd (Add (nSlaves (coNode s)) vd' c)\<rparr>\<rparr>)"
| add_panic: "coPanic s = None \<Longrightarrow> coReg s = Registering raddr c vd \<Longrightarrow> fixServerAddr raddr vd = Inl p \<Longrightarrow>
    cstep s SlaveAdded (s\<lparr>coPanic := Some p\<rparr>)"

inductive_cases cstepE: "cstep s l t"

inductive csteps :: "'c conc \<Rightarrow> 'c clabel list \<Rightarrow> 'c conc \<Rightarrow> bool" where
  none: "csteps s [] s"
| more: "csteps s ls t \<Longrightarrow> cstep t l u \<Longrightarrow> csteps s (ls @ [l]) u"

lemma csteps_trans: "csteps t ms u \<Longrightarrow> csteps s ls t \<Longrightarrow> csteps s (ls @ ms) u"
proof (induction rule: csteps.induct)
  case (more t ms u l v)
  then show ?case using csteps.more [of s "ls @ ms" u l v] by simp
qed simp

lemma csteps_one: "cstep s l t \<Longrightarrow> csteps s [l] t"
  using csteps.more [OF csteps.none] by fastforce

section \<open>A goroutine on its own\<close>

text \<open>Steps of one goroutine between which nobody else moves.\<close>

inductive hrun :: "startReq option \<Rightarrow> 'c master \<Rightarrow> 'c handler \<Rightarrow> reply list \<Rightarrow> (string \<times> startReq) list
    \<Rightarrow> 'c master \<Rightarrow> 'c handler \<Rightarrow> bool" for rcv where
  stay: "hrun rcv m pc [] [] m pc"
| go: "choiceOk m pc r order \<Longrightarrow> r \<in> {None, rcv} \<Longrightarrow> handlerStep r order ok m pc = Some (rs, qs, m1, Inr pc1) \<Longrightarrow>
    hrun rcv m1 pc1 rs' qs' m2 pc2 \<Longrightarrow> hrun rcv m pc (rs @ rs') (qs @ qs') m2 pc2"

lemma hrun_trans:
  "hrun rcv m pc rs qs m1 pc1 \<Longrightarrow> hrun rcv m1 pc1 rs' qs' m2 pc2 \<Longrightarrow>
   hrun rcv m pc (rs @ rs') (qs @ qs') m2 pc2"
  by (induction rule: hrun.induct) (auto intro: hrun.go)

lemma hrun_go1:
  assumes "handlerStep None order ok m pc = Some (rs, qs, m1, Inr pc1)" and "choiceOk m pc None order"
  shows "hrun rcv m pc rs qs m1 pc1"
  using hrun.go [OF assms(2) _ assms(1) hrun.stay] by simp

lemma hrun_receive:
  assumes "handlerStep rcv [] True m Receive = Some (rs, qs, m1, Inr pc1)"
  shows "hrun rcv m Receive rs qs m1 pc1"
  using hrun.go [OF _ _ assms hrun.stay, of rcv] by simp

lemma hrun_csteps:
  "hrun rcv m pc rs qs m' pc' \<Longrightarrow> coNode s = m \<Longrightarrow> coPc s h = pc \<Longrightarrow> coPanic s = None \<Longrightarrow>
   \<exists>ls. (\<forall>l\<in>set ls. \<exists>r order ok. l = UserStep h r order ok \<and> r \<in> {None, rcv}) \<and>
     csteps s ls (s\<lparr>coNode := m', coSent := coSent s @ map (Pair h) qs, coReplies := coReplies s @ map (Pair h) rs,
       coPc := (coPc s)(h := pc')\<rparr>)"
proof (induction arbitrary: s rule: hrun.induct)
  case (stay m pc)
  then have "s\<lparr>coNode := m, coSent := coSent s @ map (Pair h) [], coReplies := coReplies s @ map (Pair h) [],
       coPc := (coPc s)(h := pc)\<rparr> = s" by (cases s) auto
  then show ?case by (intro exI [of _ "[]"]) (simp only: list.set ball_empty csteps.none simp_thms)
next
  case (go m pc r order ok rs qs m1 pc1 rs' qs' m2 pc2)
  let ?t = "goesTo s h (rs, qs, m1, Inr pc1)"
  from go.hyps(1,3) go.prems have 1: "csteps s [UserStep h r order ok] ?t"
    by (intro csteps_one cstep.handles) simp_all
  have "coNode ?t = m1" "coPc ?t h = pc1" "coPanic ?t = None" using go.prems by (simp_all add: goesTo_def)
  from go.IH [OF this] obtain ls where ls: "\<forall>l\<in>set ls. \<exists>r order ok. l = UserStep h r order ok \<and> r \<in> {None, rcv}"
    "csteps ?t ls (?t\<lparr>coNode := m2, coSent := coSent ?t @ map (Pair h) qs', coReplies := coReplies ?t @ map (Pair h) rs',
       coPc := (coPc ?t)(h := pc2)\<rparr>)" by blast
  have "?t\<lparr>coNode := m2, coSent := coSent ?t @ map (Pair h) qs', coReplies := coReplies ?t @ map (Pair h) rs',
       coPc := (coPc ?t)(h := pc2)\<rparr> = s\<lparr>coNode := m2, coSent := coSent s @ map (Pair h) (qs @ qs'),
       coReplies := coReplies s @ map (Pair h) (rs @ rs'), coPc := (coPc s)(h := pc2)\<rparr>" (is "_ = ?u")
    by (simp add: goesTo_def)
  then have "csteps s ([UserStep h r order ok] @ ls) ?u" using csteps_trans [OF ls(2) 1] by (simp only:)
  moreover have "\<forall>l\<in>set ([UserStep h r order ok] @ ls). \<exists>r order ok. l = UserStep h r order ok \<and> r \<in> {None, rcv}" using ls(1) go.hyps(2) by simp
  ultimately show ?case by blast
qed

lemma hrun_send:
  "\<exists>qs. hrun rcv m (Sending req ss es n) [] qs (snd (sendEach env req [] ss n m)) (Entries req es (fst (sendEach env req [] ss n m))) \<and>
     nSent (snd (sendEach env req [] ss n m)) = nSent m @ qs"
proof (induction ss arbitrary: n m)
  case Nil
  have "hrun rcv m (Sending req [] es n) [] [] m (Entries req es n)" by (rule hrun_go1) simp_all
  then show ?case by auto
next
  case (Cons s ss)
  let ?m1 = "m\<lparr>nDials := Suc (nDials m)\<rparr>"
  show ?case
  proof (cases "dialOk env (nDials m) s")
    case True
    let ?m2 = "?m1\<lparr>nSent := nSent m @ [(s, relayReq req [])]\<rparr>"
    have "hrun rcv m (Sending req (s # ss) es n) [] [(s, relayReq req [])] ?m2 (Sending req ss es (n + 1))"
      by (rule hrun_go1 [where ok = True]) (simp_all add: Let_def)
    from hrun_trans [OF this] Cons.IH [of ?m2 "n + 1"] True show ?thesis
      by (fastforce simp: cacheRelayFilesAndDelegateExec_def Let_def)
  next
    case False
    have 1: "hrun rcv m (Sending req (s # ss) es n) [] [] ?m1 (DialFailed s req ss es n)"
      by (rule hrun_go1 [where ok = False]) (simp_all add: Let_def)
    show ?thesis
    proof (cases "Get (nSlaves m) s")
      case None
      have "hrun rcv ?m1 (DialFailed s req ss es n) [] [] ?m1 (Sending req ss es n)"
        by (rule hrun_go1) (simp_all add: None)
      from hrun_trans [OF hrun_trans [OF 1 this]] Cons.IH [of ?m1 n] False None show ?thesis
        by (fastforce simp: cacheRelayFilesAndDelegateExec_def Let_def)
    next
      case (Some si)
      let ?m2 = "?m1\<lparr>nSlaves := Remove (nSlaves m) si\<rparr>"
      have "hrun rcv ?m1 (DialFailed s req ss es n) [] [] ?m1 (Removing si req ss es n)"
        by (rule hrun_go1) (simp_all add: Some)
      moreover have "hrun rcv ?m1 (Removing si req ss es n) [] [] ?m2 (Sending req ss es n)"
        by (rule hrun_go1) simp_all
      ultimately have "hrun rcv m (Sending req (s # ss) es n) [] [] ?m2 (Sending req ss es n)"
        using hrun_trans [OF hrun_trans [OF 1]] by fastforce
      from hrun_trans [OF this] Cons.IH [of ?m2 n] False Some show ?thesis
        by (fastforce simp: cacheRelayFilesAndDelegateExec_def Let_def)
    qed
  qed
qed

lemma sendEach_shift:
  "sendEach env req root ss n m = (n + fst (sendEach env req root ss 0 m), snd (sendEach env req root ss 0 m))"
  by (simp add: sendEach_eq)

lemma sendEach_inv: "slaves_inv (nSlaves m) \<Longrightarrow> slaves_inv (nSlaves (snd (sendEach env req root ss n m)))"
  using forget_names by (simp add: sendEach_eq)

lemma hrun_entries:
  assumes "okOrder env"
  shows "slaves_inv (nSlaves m) \<Longrightarrow> sendEntries env req [] es n m = (Inr n', m') \<Longrightarrow>
    \<exists>qs. hrun rcv m (Entries req es n) [] qs m' (Finished n') \<and> nSent m' = nSent m @ qs"
proof (induction es arbitrary: req n m)
  case Nil
  have "keyOrder (slaveOrder env 0 (nSlaves m)) (Slaves (nSlaves m))"
    using assms slaves_invD(7) [OF Nil.prems(1)] by (simp add: okOrder_def)
  then have "hrun rcv m (Entries req [] n) [] [] m (Finished n)" by (intro hrun_go1) simp_all
  with Nil.prems show ?case by auto
next
  case (Cons e es)
  let ?order = "slaveOrder env (nDials m) (nSlaves m)"
  from Cons.prems(2) obtain ss where ss: "ServIntersect ?order (nSlaves m) (Nodes e) = Inr ss"
    by (auto split: sum.splits)
  let ?req = "req\<lparr>rqNodes := Subnodes e\<rparr>" and ?r = "sendEach env (req\<lparr>rqNodes := Subnodes e\<rparr>) [] ss"
  have "keyOrder ?order (Slaves (nSlaves m))"
    using assms slaves_invD(7) [OF Cons.prems(1)] by (simp add: okOrder_def)
  then have "hrun rcv m (Entries req (e # es) n) [] [] m (Sending ?req ss es n)"
    by (intro hrun_go1 [where order = ?order]) (simp_all add: ss)
  moreover obtain qs where "hrun rcv m (Sending ?req ss es n) [] qs (snd (?r n m)) (Entries ?req es (fst (?r n m)))"
    and sent: "nSent (snd (?r n m)) = nSent m @ qs" using hrun_send by blast
  ultimately have 1: "hrun rcv m (Entries req (e # es) n) [] qs (snd (?r n m)) (Entries ?req es (fst (?r n m)))"
    using hrun_trans by fastforce
  have "sendEntries env ?req [] es (fst (?r n m)) (snd (?r n m)) = (Inr n', m')"
    using Cons.prems(2) ss by (simp add: sendCommandsToANodeSet_def Let_def split_beta sendEach_shift [of _ _ _ _ n])
  from Cons.IH [OF sendEach_inv [OF Cons.prems(1)] this] obtain qs' where
    "hrun rcv (snd (?r n m)) (Entries ?req es (fst (?r n m))) [] qs' m' (Finished n')"
    "nSent m' = nSent (snd (?r n m)) @ qs'" by blast
  with hrun_trans [OF 1] sent show ?case by fastforce
qed

lemma hrun_excepting:
  "hrun rcv m (Excepting ss) [] [] (m\<lparr>mExceptFiles := foldl (\<lambda>ef s. ef(s \<mapsto> True)) (mExceptFiles m) ss\<rparr>) Clearing"
proof (induction ss arbitrary: m)
  case Nil
  have "hrun rcv m (Excepting []) [] [] m Clearing" by (rule hrun_go1) simp_all
  then show ?case by simp
next
  case (Cons s ss)
  have "hrun rcv m (Excepting (s # ss)) [] [] (m\<lparr>mExceptFiles := (mExceptFiles m)(s \<mapsto> True)\<rparr>) (Excepting ss)"
    by (rule hrun_go1) simp_all
  from hrun_trans [OF this Cons.IH] show ?case by simp
qed

lemma finite_Addr2id:
  assumes "slaves_inv sv"
  shows "finite (dom (Addr2id sv))"
proof (rule finite_subset)
  show "dom (Addr2id sv) \<subseteq> (\<lambda>k. siServer (the (Slaves sv k))) ` dom (Slaves sv)"
    using slaves_invD(4) [OF assms] by force
qed (simp add: slaves_invD(7) [OF assms])

text \<open>The three commands of a user, from the receipt of the request to the end of the goroutine.\<close>

lemma hrun_x:
  assumes env: "okEnv env" and fin: "finite (dom (mExceptFiles M))"
    and a: "rqCommand a \<noteq> []" "rqCommand a ! 0 = CHR ''x''"
  shows "hrun (Some a) M Receive [RespReply \<lparr>rsNumNodes = 0, rsMsg = ''Files accepted''\<rparr>] []
    (acceptExcepts env (rqArgs a) M) Closed"
proof -
  let ?files = "foldl (\<lambda>ef s. ef(s \<mapsto> True)) (mExceptFiles M) (rqArgs a)"
  let ?m1 = "M\<lparr>mExceptFiles := ?files\<rparr>"
  let ?m2 = "?m1\<lparr>mExceptList := exceptOrder env ?files\<rparr>"
  have "hrun (Some a) M Receive [] [] M (Excepting (rqArgs a))" by (rule hrun_receive) (simp_all add: a)
  from hrun_trans [OF this hrun_excepting] have 1: "hrun (Some a) M Receive [] [] ?m1 Clearing" by simp
  have 2: "hrun (Some a) ?m1 Clearing [] [] (?m1\<lparr>mExceptList := []\<rparr>) Listing" by (rule hrun_go1) simp_all
  have "dom ?files = dom (mExceptFiles M) \<union> set (rqArgs a)" by (auto simp: foldl_except split: if_splits)
  then have "keyOrder (exceptOrder env ?files) ?files" using env fin by (simp add: okEnv_def)
  then have 3: "hrun (Some a) (?m1\<lparr>mExceptList := []\<rparr>) Listing [] [] ?m2 AcceptedFiles"
    by (intro hrun_go1 [where order = "exceptOrder env ?files"]) simp_all
  have 4: "hrun (Some a) ?m2 AcceptedFiles [RespReply \<lparr>rsNumNodes = 0, rsMsg = ''Files accepted''\<rparr>] [] ?m2 Closed"
    by (rule hrun_go1) simp_all
  show ?thesis using hrun_trans [OF hrun_trans [OF hrun_trans [OF 1 2] 3] 4] by (simp add: acceptExcepts_def Let_def)
qed

lemma hrun_i:
  assumes env: "okEnv env" and inv: "slaves_inv (nSlaves M)"
    and a: "rqCommand a \<noteq> []" "rqCommand a ! 0 = CHR ''i''"
  shows "hrun (Some a) M Receive [RespReply (hostInfo env (nSlaves M))] [] M Closed"
proof -
  have "keyOrder (infoOrder env (Addr2id (nSlaves M))) (Addr2id (nSlaves M))"
    using env finite_Addr2id [OF inv] by (simp add: okEnv_def)
  then have "hrun (Some a) M Informing [RespReply (hostInfo env (nSlaves M))] [] M Closed"
    by (intro hrun_go1 [where order = "infoOrder env (Addr2id (nSlaves M))"]) (simp_all add: hostInfo_def Let_def)
  moreover have "hrun (Some a) M Receive [] [] M Informing" by (rule hrun_receive) (simp_all add: a)
  ultimately show ?thesis using hrun_trans by fastforce
qed

lemma hrun_e:
  assumes env: "okEnv env" and inv: "slaves_inv (nSlaves M)" and ready: "vdHostReady (mVital M)"
    and a: "rqCommand a \<noteq> []" "rqCommand a ! 0 = CHR ''e''"
    and send: "sendCommandsToNodes env a [] M = Some (rs, Inr n, m')"
  shows "\<exists>qs. hrun (Some a) M Receive (rs @ [RespReply \<lparr>rsNumNodes = n, rsMsg = finishedMsg\<rparr>]) qs m' Closed \<and>
    nSent m' = nSent M @ qs"
proof -
  have fin: "hrun (Some a) m' (Finished n) [RespReply \<lparr>rsNumNodes = n, rsMsg = finishedMsg\<rparr>] [] m' Closed"
    by (rule hrun_go1) simp_all
  from send obtain es err where p: "parseNodeList (rqNodes a) = Some (es, err)"
    by (auto simp: sendCommandsToNodes_def split: option.splits)
  have "\<exists>qs. hrun (Some a) M Receive rs qs m' (Finished n) \<and> nSent m' = nSent M @ qs"
  proof (cases err)
    case (Some msg)
    let ?r = "RespReply \<lparr>rsNumNodes = 0, rsMsg = ''startExecution: bad slaveNodeList: '' @ msg\<rparr>"
    from send p Some have s: "m' = M" "n = 0" "rs = [?r]" by (simp_all add: sendCommandsToNodes_def)
    have "hrun (Some a) M Receive [] [] M (BadList msg)" by (rule hrun_receive) (simp_all add: a ready p Some)
    moreover have "hrun (Some a) M (BadList msg) [?r] [] M (Finished 0)" by (rule hrun_go1) simp_all
    ultimately have "hrun (Some a) M Receive [?r] [] M (Finished 0)" using hrun_trans by fastforce
    then show ?thesis unfolding s by auto
  next
    case None
    from send p None have s: "sendEntries env a [] es 0 M = (Inr n, m')" "rs = []" by (simp_all add: sendCommandsToNodes_def)
    have "hrun (Some a) M Receive [] [] M (Entries a es 0)" by (rule hrun_receive) (simp_all add: a ready p None)
    moreover obtain qs where "hrun (Some a) M (Entries a es 0) [] qs m' (Finished n)" "nSent m' = nSent M @ qs"
      using hrun_entries [OF _ inv s(1), of "Some a"] env unfolding okEnv_def by blast
    ultimately have "hrun (Some a) M Receive ([] @ []) ([] @ qs) m' (Finished n)" using hrun_trans by blast
    then show ?thesis using s(2) \<open>nSent m' = nSent M @ qs\<close> by auto
  qed
  then show ?thesis using hrun_trans [OF _ fin] by fastforce
qed

lemma hrun_serve:
  assumes env: "okEnv env" and inv: "slaves_inv (nSlaves m)" and fin: "finite (dom (mExceptFiles m))"
    and run: "serveCmd env received m = Some (replies, None, m')"
  shows "\<exists>qs. hrun received m Hello replies qs m' Closed \<and> nSent m' = nSent m @ qs"
proof -
  define M where "M = refreshVital m"
  have M: "nSlaves M = nSlaves m" "nSent M = nSent m" "mExceptFiles M = mExceptFiles m" by (simp_all add: M_def)
  have invM: "slaves_inv (nSlaves M)" and finM: "finite (dom (mExceptFiles M))" using inv fin M by simp_all
  have "hrun received m Hello [] [] M Greet" by (rule hrun_go1) (simp_all add: M_def)
  moreover have "hrun received M Greet [VitalReply (currentVital M)] [] M Receive" by (rule hrun_go1) simp_all
  ultimately have hello: "hrun received m Hello [VitalReply (currentVital M)] [] M Receive"
    using hrun_trans by fastforce
  note run = run [unfolded serveCmd_def, folded M_def]
  have "\<exists>rs qs. hrun received M Receive rs qs m' Closed \<and> replies = VitalReply (currentVital M) # rs \<and> nSent m' = nSent M @ qs"
  proof (cases received)
    case None
    have "hrun received M Receive [] [] M Closed" by (rule hrun_receive) (simp_all add: None)
    then show ?thesis using run None by (auto simp: Let_def)
  next
    case (Some a)
    with run have ne: "rqCommand a \<noteq> []" by (auto simp: Let_def)
    consider (x) "rqCommand a ! 0 = CHR ''x''" | (i) "rqCommand a ! 0 = CHR ''i''" | (e) "rqCommand a ! 0 = CHR ''e''"
      | (u) "rqCommand a ! 0 \<notin> {CHR ''x'', CHR ''i'', CHR ''e''}" by blast
    then show ?thesis
    proof cases
      case x
      from hrun_x [OF env finM ne x] show ?thesis
        using run Some ne x by (intro exI conjI) (auto simp: Let_def acceptExcepts_def)
    next
      case i
      from hrun_i [OF env invM ne i] show ?thesis using run Some ne i by (auto simp: Let_def)
    next
      case e
      show ?thesis
      proof (cases "vdHostReady (mVital M)")
        case False
        have "hrun received M Receive [] [] M Closed" by (rule hrun_receive) (simp_all add: Some ne e False)
        then show ?thesis using run Some ne e False by (auto simp: Let_def)
      next
        case True
        with run Some ne e obtain rs n where "sendCommandsToNodes env a [] M = Some (rs, Inr n, m')"
          and "replies = VitalReply (currentVital M) # rs @ [RespReply \<lparr>rsNumNodes = n, rsMsg = finishedMsg\<rparr>]"
          by (auto simp: Let_def finishedMsg_def split: option.splits sum.splits)
        with hrun_e [OF env invM True ne e] Some show ?thesis by blast
      qed
    next
      case u
      have "hrun received M Receive [RespReply \<lparr>rsNumNodes = 0, rsMsg = ''unknown command''\<rparr>] [] M Closed"
        by (rule hrun_receive) (use u in \<open>simp_all add: Some ne\<close>)
      then show ?thesis using run Some ne u by (auto simp: Let_def)
    qed
  qed
  then show ?thesis using hrun_trans [OF hello] M(2) by fastforce
qed



end
