(* ===== verification/MasterConcProps.thy ===== *)
theory MasterConcProps
  imports MasterConc
begin

text \<open>
  What holds of the master whatever its goroutines do in between (\<^verbatim>\<open>MasterConc\<close>), and two things that do not.
  Each group of facts is an invariant of its own, proved by induction on the run.
\<close>

section \<open>What the steps of a run say\<close>

text \<open>The slaves whose data were received, and the files that users have asked to leave out.\<close>

fun joinsOf1 :: "'c clabel \<Rightarrow> (string \<times> 'c \<times> vitalData) list" where
  "joinsOf1 (SlaveSends raddr c (Some vd)) = [(raddr, c, vd)]"
| "joinsOf1 _ = []"

definition slavesOf :: "'c clabel list \<Rightarrow> (string \<times> 'c \<times> vitalData) list" where
  "slavesOf ls = concat (map joinsOf1 ls)"

definition askedBy :: "startReq option \<Rightarrow> string set" where
  "askedBy rcv =
     (case rcv of None \<Rightarrow> {}
      | Some a \<Rightarrow> if rqCommand a \<noteq> [] \<and> rqCommand a ! 0 = CHR ''x'' then set (rqArgs a) else {})"

fun askedOut :: "'c clabel \<Rightarrow> string set" where
  "askedOut (UserStep h rcv order ok) = askedBy rcv"
| "askedOut _ = {}"

lemma slavesOf_simps [simp]: "slavesOf [] = []" "slavesOf (ls @ [l]) = slavesOf ls @ joinsOf1 l"
  by (simp_all add: slavesOf_def)

lemma csteps_induct [consumes 1, case_names start step]:
  assumes "csteps startConc ls s" and "P [] startConc"
    and "\<And>ls t l u. csteps startConc ls t \<Longrightarrow> P ls t \<Longrightarrow> cstep t l u \<Longrightarrow> P (ls @ [l]) u"
  shows "P ls s"
proof -
  have "s0 = startConc \<Longrightarrow> P ls s" if "csteps s0 ls s" for s0
    using that by (induction rule: csteps.induct) (use assms(2,3) in auto)
  with assms(1) show ?thesis by blast
qed

section \<open>The files to leave out\<close>

fun toExcept :: "'c handler \<Rightarrow> string set" where
  "toExcept (Excepting ss) = set ss"
| "toExcept _ = {}"

fun listsFiles :: "'c handler \<Rightarrow> bool" where
  "listsFiles (Excepting ss) \<longleftrightarrow> True"
| "listsFiles Clearing \<longleftrightarrow> True"
| "listsFiles Listing \<longleftrightarrow> True"
| "listsFiles _ \<longleftrightarrow> False"

definition except_inv :: "'c clabel list \<Rightarrow> 'c conc \<Rightarrow> bool" where
  "except_inv ls s \<longleftrightarrow>
     (\<forall>x. mExceptFiles (coNode s) x \<in> {None, Some True}) \<and>
     dom (mExceptFiles (coNode s)) \<union> (\<Union>h. toExcept (coPc s h)) = (\<Union>l\<in>set ls. askedOut l) \<and>
     set (mExceptList (coNode s)) \<subseteq> dom (mExceptFiles (coNode s)) \<and>
     (set (mExceptList (coNode s)) = dom (mExceptFiles (coNode s)) \<or> (\<exists>h. listsFiles (coPc s h)))"

lemma UN_upd: "(\<Union>h. f ((pcs(k := pc)) h)) = f pc \<union> (\<Union>h\<in>- {k}. f (pcs h))"
  by (auto split: if_splits)

lemma UN_split: "(\<Union>h. f (pcs h)) = f (pcs k) \<union> (\<Union>h\<in>- {k}. f (pcs h))"
  by auto

lemma ex_upd: "(\<exists>h. P ((pcs(k := pc)) h)) \<longleftrightarrow> P pc \<or> (\<exists>h. h \<noteq> k \<and> P (pcs h))"
  by auto

text \<open>
  What one step of a goroutine does to the files, and where it stands then.
\<close>

definition exceptMoves :: "startReq option \<Rightarrow> 'c master \<Rightarrow> 'c handler \<Rightarrow> 'c master \<Rightarrow> 'c handler \<Rightarrow> bool" where
  "exceptMoves rcv m pc m' pc' \<longleftrightarrow>
     (\<forall>x. mExceptFiles m x \<in> {None, Some True} \<longrightarrow> mExceptFiles m' x \<in> {None, Some True}) \<and>
     dom (mExceptFiles m') \<union> toExcept pc' = dom (mExceptFiles m) \<union> toExcept pc \<union> askedBy rcv \<and>
     dom (mExceptFiles m) \<subseteq> dom (mExceptFiles m') \<and>
     (set (mExceptList m') = set (mExceptList m) \<and> dom (mExceptFiles m') = dom (mExceptFiles m) \<and> (listsFiles pc \<longrightarrow> listsFiles pc') \<or>
      set (mExceptList m') \<subseteq> set (mExceptList m) \<and> listsFiles pc' \<or>
      set (mExceptList m') = set (mExceptList m) \<union> dom (mExceptFiles m'))"

lemma handlerStep_except:
  assumes "handlerStep rcv order ok m pc = Some (rs, qs, m', Inr pc')" and "choiceOk m pc rcv order"
  shows "exceptMoves rcv m pc m' pc'"
proof (cases pc)
  case (Excepting ss)
  then show ?thesis using assms by (cases ss) (auto simp: exceptMoves_def askedBy_def split: if_splits)
next
  case Receive
  then show ?thesis using assms by (auto simp: exceptMoves_def askedBy_def split: option.splits if_splits)
next
  case (Entries a es n)
  then show ?thesis using assms by (cases es) (auto simp: exceptMoves_def askedBy_def split: sum.splits)
next
  case (Sending a ss es n)
  then show ?thesis using assms by (cases ss) (auto simp: exceptMoves_def askedBy_def Let_def split: if_splits)
next
  case (DialFailed b a ss es n)
  then show ?thesis using assms by (auto simp: exceptMoves_def askedBy_def split: option.splits)
qed (use assms in \<open>auto simp: exceptMoves_def askedBy_def\<close>)

lemma handlerStep_except_panic:
  assumes "handlerStep rcv order ok m pc = Some (rs, qs, m', Inl p)" and "choiceOk m pc rcv order"
  shows "m' = m \<and> (\<forall>a. rcv = Some a \<longrightarrow> rqCommand a = [])"
  using assms
  by (cases "(rcv, order, ok, m, pc)" rule: handlerStep.cases) (auto simp: Let_def split: option.splits if_splits sum.splits)

lemma except_moves:
  assumes inv: "except_inv ls s" and moves: "exceptMoves rcv (coNode s) (coPc s h) m' pc'"
    and t: "coNode t = m'" "coPc t = (coPc s)(h := pc')"
  shows "except_inv (ls @ [UserStep h rcv order ok]) t"
proof -
  let ?m = "coNode s" and ?asked = "askedBy rcv"
  have m: "dom (mExceptFiles m') \<union> toExcept pc' = dom (mExceptFiles ?m) \<union> toExcept (coPc s h) \<union> ?asked"
    "dom (mExceptFiles ?m) \<subseteq> dom (mExceptFiles m')"
    using moves unfolding exceptMoves_def by blast+
  have i: "dom (mExceptFiles ?m) \<union> (\<Union>h. toExcept (coPc s h)) = (\<Union>l\<in>set ls. askedOut l)"
    "set (mExceptList ?m) \<subseteq> dom (mExceptFiles ?m)"
    "set (mExceptList ?m) = dom (mExceptFiles ?m) \<or> (\<exists>h. listsFiles (coPc s h))"
    using inv unfolding except_inv_def by blast+
  have "dom (mExceptFiles m') \<union> (\<Union>k. toExcept (((coPc s)(h := pc')) k)) =
      dom (mExceptFiles ?m) \<union> (\<Union>k. toExcept (coPc s k)) \<union> ?asked"
    unfolding UN_upd UN_split [of toExcept "coPc s" h] using m by blast
  then have 1: "dom (mExceptFiles m') \<union> (\<Union>k. toExcept (coPc t k)) = (\<Union>l\<in>set (ls @ [UserStep h rcv order ok]). askedOut l)"
    unfolding i(1) t by auto
  have lists: "set (mExceptList m') = set (mExceptList ?m) \<and> dom (mExceptFiles m') = dom (mExceptFiles ?m) \<and>
        (listsFiles (coPc s h) \<longrightarrow> listsFiles pc') \<or>
      set (mExceptList m') \<subseteq> set (mExceptList ?m) \<and> listsFiles pc' \<or>
      set (mExceptList m') = set (mExceptList ?m) \<union> dom (mExceptFiles m')"
    using moves unfolding exceptMoves_def by (elim conjE)
  then have 2: "set (mExceptList m') \<subseteq> dom (mExceptFiles m')"
    using i(2) m(2) by (elim disjE conjE) (simp, blast, blast)
  have "set (mExceptList m') = dom (mExceptFiles m') \<or> listsFiles pc' \<or> (\<exists>k. k \<noteq> h \<and> listsFiles (coPc s k))"
    using lists
  proof (elim disjE conjE)
    assume "set (mExceptList m') = set (mExceptList ?m)" "dom (mExceptFiles m') = dom (mExceptFiles ?m)"
      "listsFiles (coPc s h) \<longrightarrow> listsFiles pc'"
    then show ?thesis using i(3) by metis
  next
    assume "set (mExceptList m') = set (mExceptList ?m) \<union> dom (mExceptFiles m')"
    moreover have "set (mExceptList ?m) \<subseteq> dom (mExceptFiles m')" using i(2) m(2) by (rule subset_trans)
    ultimately show ?thesis by (simp add: sup.absorb2)
  qed simp
  then have 3: "set (mExceptList m') = dom (mExceptFiles m') \<or> (\<exists>k. listsFiles (coPc t k))"
    unfolding t ex_upd .
  have "\<forall>x. mExceptFiles m' x \<in> {None, Some True}"
    using moves [unfolded exceptMoves_def, THEN conjunct1] inv [unfolded except_inv_def, THEN conjunct1] by (intro allI) (metis insertCI insertE singletonD)
  with 1 2 3 show ?thesis unfolding except_inv_def t(1) by (intro conjI)
qed

lemma except_kept:
  assumes "except_inv ls s" and "mExceptFiles (coNode t) = mExceptFiles (coNode s)"
    and "mExceptList (coNode t) = mExceptList (coNode s)" and "askedOut l = {}"
    and "\<And>h. toExcept (coPc t h) = toExcept (coPc s h)" and "\<And>h. listsFiles (coPc t h) = listsFiles (coPc s h)"
  shows "except_inv (ls @ [l]) t"
  using assms by (simp add: except_inv_def)

lemma csteps_except: "csteps startConc ls s \<Longrightarrow> except_inv ls s"
proof (induction rule: csteps_induct)
  case start
  then show ?case by (simp add: except_inv_def startConc_def startMaster_def)
next
  case (step ls t l u)
  from step.hyps(2) show ?case
  proof (cases rule: cstep.cases)
    case (handles h rcv order ok x)
    obtain rs qs m' r where x: "x = (rs, qs, m', r)" by (cases x)
    note hs = handles(5) [unfolded x]
    show ?thesis
    proof (cases r)
      case (Inl p)
      with hs have "handlerStep rcv order ok (coNode t) (coPc t h) = Some (rs, qs, m', Inl p)" by simp
      from handlerStep_except_panic [OF this handles(4)] Inl x step.IH handles(1,2) show ?thesis
        by (auto simp: goesTo_def askedBy_def intro!: except_kept [of ls t] split: option.splits)
    next
      case (Inr pc')
      with hs have "exceptMoves rcv (coNode t) (coPc t h) m' pc'" using handlerStep_except handles(4) by blast
      from except_moves [OF step.IH this, of u order ok] Inr x handles(1,2) show ?thesis by (simp add: goesTo_def)
    qed
  qed (use step.IH in \<open>auto intro!: except_kept [of ls t] split: if_splits\<close>)
qed

section \<open>The registry\<close>

text \<open>The addresses a goroutine is going to dial, the slave it is about to remove, and the entries it holds.\<close>

fun toDial :: "'c handler \<Rightarrow> string set" where
  "toDial (Sending a ss es n) = set ss"
| "toDial (DialFailed s a ss es n) = insert s (set ss)"
| "toDial (Removing si a ss es n) = set ss"
| "toDial _ = {}"

fun toRemove :: "'c handler \<Rightarrow> 'c slaveInfo option" where
  "toRemove (Removing si a ss es n) = Some si"
| "toRemove _ = None"

fun goodEntries :: "'c handler \<Rightarrow> bool" where
  "goodEntries (Entries a es n) \<longleftrightarrow> (\<forall>e\<in>set es. Nodes e \<noteq> [])"
| "goodEntries (Sending a ss es n) \<longleftrightarrow> (\<forall>e\<in>set es. Nodes e \<noteq> [])"
| "goodEntries (DialFailed s a ss es n) \<longleftrightarrow> (\<forall>e\<in>set es. Nodes e \<noteq> [])"
| "goodEntries (Removing si a ss es n) \<longleftrightarrow> (\<forall>e\<in>set es. Nodes e \<noteq> [])"
| "goodEntries _ \<longleftrightarrow> True"

definition pairOf :: "'c slaveInfo \<Rightarrow> string \<times> string" where
  "pairOf si = (siId si, siServer si)"

text \<open>What one step of a goroutine does to the registry, and what it then holds.\<close>

definition regMoves :: "'c master \<Rightarrow> 'c handler \<Rightarrow> (string \<times> startReq) list \<Rightarrow> 'c master \<Rightarrow> 'c handler \<Rightarrow> bool" where
  "regMoves m pc qs m' pc' \<longleftrightarrow>
     nSlaves m' = (case toRemove pc of None \<Rightarrow> nSlaves m | Some si \<Rightarrow> Remove (nSlaves m) si) \<and>
     toDial pc' \<subseteq> toDial pc \<union> snd ` nodesOf (nSlaves m) \<and> fst ` set qs \<subseteq> toDial pc \<and>
     (\<forall>si. toRemove pc' = Some si \<longrightarrow> member (nSlaves m) si \<and> toRemove pc = None) \<and>
     (goodEntries pc \<longrightarrow> goodEntries pc')"

lemma member_addr: "member sv s \<Longrightarrow> siServer s \<in> snd ` nodesOf sv"
  by (force simp: nodesOf_def)

lemma gets_addrs:
  assumes "slaves_inv sv" shows "set (gets sv ns) \<subseteq> snd ` nodesOf sv"
  by (induction ns) (auto simp: reg.lookup_iff [OF assms] member_addr split: option.splits)

lemma parsed_Nodes: "parseNodeList l = Some (es, err) \<Longrightarrow> e \<in> set es \<Longrightarrow> Nodes e \<noteq> []"
  by (metis entry_Nodes parseNodeList_entries)

lemma ServIntersect_addrs:
  assumes "slaves_inv sv" and "keyOrder order (Slaves sv)" and "ServIntersect order sv ns = Inr ss"
  shows "set ss \<subseteq> snd ` nodesOf sv"
proof (cases ns)
  case (Cons n ns')
  show ?thesis
  proof (cases "n = ''.''")
    case True
    with ServIntersect_dot [OF assms(1,2), of ns'] assms(3) Cons show ?thesis by auto
  next
    case False
    with assms(3) Cons gets_addrs [OF assms(1), of ns] show ?thesis by simp
  qed
qed (use assms(3) in simp)

lemma handlerStep_registry:
  assumes "handlerStep rcv order ok m pc = Some (rs, qs, m', Inr pc')" and "choiceOk m pc rcv order"
    and inv: "slaves_inv (nSlaves m)"
  shows "regMoves m pc qs m' pc'"
proof (cases pc)
  case (Excepting ss)
  then show ?thesis using assms by (cases ss) (auto simp: regMoves_def)
next
  case Receive
  then show ?thesis using assms parsed_Nodes by (auto simp: regMoves_def split: option.splits if_splits)
next
  case (Entries a es n)
  show ?thesis
  proof (cases es)
    case (Cons e es')
    with Entries assms(1) obtain ss where ss: "ServIntersect order (nSlaves m) (Nodes e) = Inr ss"
      "m' = m" "qs = []" "pc' = Sending (a\<lparr>rqNodes := Subnodes e\<rparr>) ss es' n" by (auto split: sum.splits)
    with ServIntersect_addrs [OF inv _ ss(1)] Entries Cons assms(2) show ?thesis by (auto simp: regMoves_def)
  qed (use Entries assms(1) in \<open>auto simp: regMoves_def\<close>)
next
  case (Sending a ss es n)
  then show ?thesis using assms by (cases ss) (auto simp: regMoves_def Let_def split: if_splits)
next
  case (DialFailed b a ss es n)
  then show ?thesis using assms reg.lookup_iff [OF inv] by (auto simp: regMoves_def split: option.splits)
qed (use assms in \<open>auto simp: regMoves_def refreshVital_def\<close>)

lemma handlerStep_panic:
  assumes "handlerStep rcv order ok m pc = Some (rs, qs, m', Inl p)" and "goodEntries pc"
  shows "m' = m \<and> rs = [] \<and> qs = [] \<and> (\<exists>a. rcv = Some a \<and> rqCommand a = [])"
proof (cases pc)
  case (Entries a es n)
  then show ?thesis using assms
    by (cases es; cases "Nodes (hd es)") (auto split: sum.splits if_splits)
next
  case Receive
  then show ?thesis using assms by (auto split: option.splits if_splits)
next
  case (Excepting ss)
  then show ?thesis using assms by (cases ss) auto
next
  case (Sending a ss es n)
  then show ?thesis using assms by (cases ss) (auto simp: Let_def split: if_splits)
qed (use assms in \<open>auto split: option.splits\<close>)

text \<open>
  The slaves that join during a run are told apart by their identifiers and by their addresses: none comes back
  under a name it or another had.
\<close>

definition newOnly :: "(string \<times> 'c \<times> vitalData) list \<Rightarrow> bool" where
  "newOnly js \<longleftrightarrow> (\<forall>j\<in>set js. joinOk j) \<and> distinct (map (fst \<circ> joinPair) js) \<and> distinct (map (snd \<circ> joinPair) js) \<and>
     fst ` joinPair ` set js \<inter> snd ` joinPair ` set js = {}"

lemma newOnly_append: "newOnly (xs @ ys) \<Longrightarrow> newOnly xs"
  by (simp add: newOnly_def image_Un Int_Un_distrib Int_Un_distrib2)

fun pending :: "'c registrar \<Rightarrow> (string \<times> 'c \<times> vitalData) list" where
  "pending Accepting = []"
| "pending (Registering raddr c vd) = [(raddr, c, vd)]"

definition gone :: "'c slaves \<Rightarrow> 'c slaveInfo \<Rightarrow> bool" where
  "gone sv si \<longleftrightarrow> Slaves sv (siId si) = None \<and> Addr2id sv (siServer si) = None"

definition removable :: "'c slaves \<Rightarrow> (string \<times> string) set \<Rightarrow> 'c slaveInfo \<Rightarrow> bool" where
  "removable sv P si \<longleftrightarrow> pairOf si \<in> P \<and> (member sv si \<or> gone sv si)"

definition emptyCommand :: "'c clabel list \<Rightarrow> bool" where
  "emptyCommand ls \<longleftrightarrow> (\<exists>h a order ok. UserStep h (Some a) order ok \<in> set ls \<and> rqCommand a = [])"

text \<open>The part of the invariant that the goroutines share, for the set of those registered so far.\<close>

definition reg_ok :: "(string \<times> string) set \<Rightarrow> 'c conc \<Rightarrow> bool" where
  "reg_ok P s \<longleftrightarrow> slaves_inv (nSlaves (coNode s)) \<and> nodesOf (nSlaves (coNode s)) \<subseteq> P \<and>
     (\<forall>h. toDial (coPc s h) \<subseteq> snd ` P) \<and> fst ` snd ` set (coSent s) \<subseteq> snd ` P \<and>
     (\<forall>h si. toRemove (coPc s h) = Some si \<longrightarrow> removable (nSlaves (coNode s)) P si) \<and>
     (\<forall>h. goodEntries (coPc s h))"

definition reg_inv :: "'c clabel list \<Rightarrow> 'c conc \<Rightarrow> bool" where
  "reg_inv ls s \<longleftrightarrow> (coPanic s \<noteq> None \<longrightarrow> emptyCommand ls) \<and>
     (\<exists>js. slavesOf ls = js @ pending (coReg s) \<and> reg_ok (joinPair ` set js) s)"

lemma Remove_gone: "gone sv si \<Longrightarrow> Remove sv si = sv"
  by (simp add: gone_def Remove_def fun_upd_idem)

lemma remove_kept:
  assumes inv: "slaves_inv sv" and "removable sv P si"
  shows "slaves_inv (Remove sv si)" and "nodesOf (Remove sv si) \<subseteq> nodesOf sv"
    and "removable sv P t \<Longrightarrow> removable (Remove sv si) P t"
proof -
  have "slaves_inv (Remove sv si) \<and> nodesOf (Remove sv si) \<subseteq> nodesOf sv \<and>
      (removable sv P t \<longrightarrow> removable (Remove sv si) P t)" for t
  proof (cases "member sv si")
    case True
    have "gone (Remove sv si) si" by (simp add: gone_def Remove_def)
    moreover have "gone sv t \<Longrightarrow> gone (Remove sv si) t" by (simp add: gone_def Remove_def)
    ultimately have "removable sv P t \<longrightarrow> removable (Remove sv si) P t"
      using reg.drop_mem [OF inv True, of t] by (cases "t = si") (auto simp: removable_def)
    moreover have "nodesOf (Remove sv si) \<subseteq> nodesOf sv"
      using reg.drop_mem [OF inv True] by (auto simp: nodesOf_def)
    ultimately show ?thesis using reg.drop_inv [OF inv True] by simp
  next
    case False
    with assms(2) have "Remove sv si = sv" by (simp add: removable_def Remove_gone)
    with inv show ?thesis by simp
  qed
  then show "slaves_inv (Remove sv si)" and "nodesOf (Remove sv si) \<subseteq> nodesOf sv"
    and "removable sv P t \<Longrightarrow> removable (Remove sv si) P t" by blast+
qed

lemma add_kept:
  assumes "removable sv P t" and "vdId vd \<notin> fst ` P" and "vdServerAddr vd \<notin> snd ` P"
  shows "removable (snd (Add sv vd c)) (insert (vdId vd, vdServerAddr vd) P) t"
proof -
  have "siId t \<noteq> vdId vd" "siServer t \<noteq> vdServerAddr vd"
    using assms by (force simp: removable_def pairOf_def)+
  with assms(1) show ?thesis by (auto simp: removable_def gone_def member_def Add_def mkSlave_def Let_def)
qed

lemma reg_moves:
  assumes ok: "reg_ok P s" and moves: "regMoves (coNode s) (coPc s h) qs m' pc'"
    and t: "coNode t = m'" "coPc t = (coPc s)(h := pc')" "coSent t = coSent s @ map (Pair h) qs"
  shows "reg_ok P t"
proof -
  let ?sv = "nSlaves (coNode s)" and ?sv' = "nSlaves m'"
  have i: "slaves_inv ?sv" "nodesOf ?sv \<subseteq> P" "\<And>k. toDial (coPc s k) \<subseteq> snd ` P"
    "fst ` snd ` set (coSent s) \<subseteq> snd ` P" "\<And>k si. toRemove (coPc s k) = Some si \<Longrightarrow> removable ?sv P si"
    "\<And>k. goodEntries (coPc s k)" using ok by (simp_all add: reg_ok_def)
  have m: "?sv' = (case toRemove (coPc s h) of None \<Rightarrow> ?sv | Some si \<Rightarrow> Remove ?sv si)"
    "toDial pc' \<subseteq> toDial (coPc s h) \<union> snd ` nodesOf ?sv" "fst ` set qs \<subseteq> toDial (coPc s h)"
    "\<And>si. toRemove pc' = Some si \<Longrightarrow> member ?sv si \<and> toRemove (coPc s h) = None" "goodEntries pc'"
    using moves i(6) by (simp_all add: regMoves_def)
  have sv: "slaves_inv ?sv' \<and> nodesOf ?sv' \<subseteq> nodesOf ?sv \<and> (\<forall>si. removable ?sv P si \<longrightarrow> removable ?sv' P si)"
  proof (cases "toRemove (coPc s h)")
    case (Some si)
    with m(1) have "?sv' = Remove ?sv si" by simp
    with remove_kept [OF i(1) i(5) [OF Some]] show ?thesis by simp
  qed (use i(1) m(1) in simp)
  have "removable ?sv' P si" if "toRemove (((coPc s)(h := pc')) k) = Some si" for k si
  proof (cases "k = h")
    case True
    with that m(4) have "member ?sv si" by simp
    moreover from this i(2) have "pairOf si \<in> P" by (auto simp: nodesOf_def pairOf_def)
    ultimately show ?thesis using sv by (simp add: removable_def)
  qed (use that i(5) sv in auto)
  moreover have "toDial pc' \<subseteq> snd ` P" using m(2) i(3) [of h] image_mono [OF i(2), of snd] by blast
  then have "toDial (((coPc s)(h := pc')) k) \<subseteq> snd ` P" for k using i(3) [of k] by simp
  moreover have "fst ` snd ` set (coSent s @ map (Pair h) qs) \<subseteq> snd ` P"
    using i(4) subset_trans [OF m(3) i(3)] by (simp add: image_Un image_image)
  moreover have "goodEntries (((coPc s)(h := pc')) k)" for k using i(6) m(5) by simp
  ultimately show ?thesis using sv i(2) unfolding reg_ok_def t by blast
qed

lemma reg_joined:
  assumes ok: "reg_ok (joinPair ` set js) s" and new: "newOnly (js @ [(raddr, c, vd)])"
    and t: "nSlaves (coNode t) = snd (Add (nSlaves (coNode s)) vd c)" "coPc t = coPc s" "coSent t = coSent s"
  shows "reg_ok (joinPair ` set (js @ [(raddr, c, vd)])) t"
proof -
  let ?sv = "nSlaves (coNode s)" and ?P = "joinPair ` set js" and ?p = "(vdId vd, vdServerAddr vd)"
  have i: "slaves_inv ?sv" "nodesOf ?sv \<subseteq> ?P" using ok by (simp_all add: reg_ok_def)
  have P: "joinPair ` set (js @ [(raddr, c, vd)]) = insert ?p ?P" by simp
  have maps: "fst ` ?P = set (map (fst \<circ> joinPair) js)" "snd ` ?P = set (map (snd \<circ> joinPair) js)"
    by (simp_all add: image_image)
  have ids: "vdId vd \<notin> fst ` ?P" "vdServerAddr vd \<notin> snd ` ?P" "vdId vd \<noteq> []"
    unfolding maps using new by (simp_all add: newOnly_def joinOk_def)
  have "fst ` insert ?p ?P \<inter> snd ` insert ?p ?P = {}" using new unfolding newOnly_def P by blast
  then have apart: "vdId vd \<notin> snd ` ?P" "vdServerAddr vd \<notin> fst ` ?P" "vdId vd \<noteq> vdServerAddr vd"
    unfolding image_insert fst_conv snd_conv by blast+
  have sub: "fst ` nodesOf ?sv \<subseteq> fst ` ?P" "snd ` nodesOf ?sv \<subseteq> snd ` ?P" using i(2) by (rule image_mono)+
  have fresh: "fresh ?sv vd"
    unfolding fresh_def dom_Slaves_nodesOf [OF i(1)] dom_Addr2id_nodesOf [OF i(1)]
    using ids(3) apart(3) contra_subsetD [OF sub(1) ids(1)] contra_subsetD [OF sub(1) apart(2)]
      contra_subsetD [OF sub(2) ids(2)] contra_subsetD [OF sub(2) apart(1)] by simp
  have "removable (snd (Add ?sv vd c)) (insert ?p ?P) si" if "removable ?sv ?P si" for si
    using that ids(1,2) by (rule add_kept)
  moreover have "snd ` ?P \<subseteq> snd ` insert ?p ?P" by blast
  ultimately show ?thesis
    using ok Add_inv [OF i(1) fresh, of c] nodesOf_Add [OF fresh, of c] unfolding reg_ok_def t P
    by (simp only:) blast
qed

lemma emptyCommand_more: "emptyCommand ls \<Longrightarrow> emptyCommand (ls @ [l])"
  unfolding emptyCommand_def by auto

lemma reg_ok_kept:
  assumes "reg_ok P s" and "nSlaves (coNode t) = nSlaves (coNode s)" and "coSent t = coSent s"
    and "\<And>h. toDial (coPc t h) \<subseteq> toDial (coPc s h)"
    and "\<And>h. toRemove (coPc t h) = None \<or> toRemove (coPc t h) = toRemove (coPc s h)"
    and "\<And>h. goodEntries (coPc s h) \<Longrightarrow> goodEntries (coPc t h)"
  shows "reg_ok P t"
proof -
  have "toDial (coPc t h) \<subseteq> snd ` P" for h
    using assms(1) subset_trans [OF assms(4) [of h]] by (simp add: reg_ok_def)
  moreover have "removable (nSlaves (coNode t)) P si" if "toRemove (coPc t h) = Some si" for h si
    using assms(1,2) assms(5) [of h] that by (auto simp: reg_ok_def)
  ultimately show ?thesis using assms(1-3,6) by (simp add: reg_ok_def)
qed

lemma reg_kept:
  assumes "reg_inv ls s" and "coNode t = (coNode s)\<lparr>mNetaddr := x\<rparr> \<or> coNode t = coNode s" and "coSent t = coSent s"
    and "\<And>h. coPc t h = coPc s h \<or> coPc t h = Hello" and "coPanic t = coPanic s"
    and "joinsOf1 l @ pending (coReg s) = pending (coReg t)" and "coReg s = Accepting \<or> joinsOf1 l = []"
  shows "reg_inv (ls @ [l]) t"
proof -
  from assms(1) obtain js where js: "slavesOf ls = js @ pending (coReg s)" "reg_ok (joinPair ` set js) s"
    and panic: "coPanic s \<noteq> None \<Longrightarrow> emptyCommand ls" unfolding reg_inv_def by blast
  have slaves: "slavesOf (ls @ [l]) = js @ pending (coReg t)" using js(1) assms(6,7) by auto
  have "nSlaves (coNode t) = nSlaves (coNode s)" using assms(2) by auto
  moreover have "toDial (coPc t h) \<subseteq> toDial (coPc s h)" "toRemove (coPc t h) = None \<or> toRemove (coPc t h) = toRemove (coPc s h)"
    "goodEntries (coPc s h) \<Longrightarrow> goodEntries (coPc t h)" for h using assms(4) [of h] by auto
  ultimately have "reg_ok (joinPair ` set js) t"
    by (rule reg_ok_kept [OF js(2) _ assms(3)])
  moreover have "coPanic t \<noteq> None \<longrightarrow> emptyCommand (ls @ [l])" using emptyCommand_more [OF panic] assms(5) by simp
  ultimately show ?thesis using slaves unfolding reg_inv_def by (intro conjI exI [of _ js])
qed

lemma csteps_registry: "csteps startConc ls s \<Longrightarrow> newOnly (slavesOf ls) \<Longrightarrow> reg_inv ls s"
proof (induction rule: csteps_induct)
  case start
  have "reg_ok {} startConc" by (simp add: reg_ok_def startConc_def startMaster_def)
  then show ?case by (simp add: reg_inv_def startConc_def)
next
  case (step ls t l u)
  then have IH: "reg_inv ls t" using newOnly_append by auto
  then obtain js where js: "slavesOf ls = js @ pending (coReg t)" "reg_ok (joinPair ` set js) t" unfolding reg_inv_def by blast
  from step.hyps(2) show ?case
  proof (cases rule: cstep.cases)
    case (handles h rcv order ok x)
    obtain rs qs m' r where x: "x = (rs, qs, m', r)" by (cases x)
    note hs = handles(5) [unfolded x]
    show ?thesis
    proof (cases r)
      case (Inl p)
      have good: "goodEntries (coPc t h)" using js(2) by (simp add: reg_ok_def)
      from handlerStep_panic [OF hs [unfolded Inl] good] obtain a where a: "m' = coNode t" "qs = []" "rcv = Some a" "rqCommand a = []"
        by blast
      then have "emptyCommand (ls @ [l])" using handles(1) by (auto simp: emptyCommand_def)
      moreover have "reg_ok (joinPair ` set js) u" using js(2) a(1,2) handles(2) x Inl by (simp add: reg_ok_def goesTo_def)
      ultimately show ?thesis using js(1) handles(1,2) x Inl by (auto simp: reg_inv_def goesTo_def)
    next
      case (Inr pc')
      have "slaves_inv (nSlaves (coNode t))" using js(2) by (simp add: reg_ok_def)
      from handlerStep_registry [OF hs [unfolded Inr] handles(4) this]
      have "reg_ok (joinPair ` set js) u"
        by (rule reg_moves [OF js(2)]) (simp_all add: handles(2) x Inr goesTo_def)
      then show ?thesis using js(1) handles(1-3) x Inr by (auto simp: reg_inv_def goesTo_def)
    qed
  next
    case (added raddr c vd vd')
    then have "newOnly (js @ [(raddr, c, vd)])" using step.prems js(1) by simp
    moreover from this have "vd' = vd" using added(5) by (auto simp: newOnly_def joinOk_def fixServerAddr_7)
    ultimately have "reg_ok (joinPair ` set (js @ [(raddr, c, vd)])) u"
      by (intro reg_joined [OF js(2)]) (simp_all add: added(2))
    moreover have "slavesOf (ls @ [l]) = (js @ [(raddr, c, vd)]) @ pending (coReg u)" using js(1) added(1,2,4) by simp
    moreover have "coPanic u = None" using added(2,3) by simp
    ultimately show ?thesis unfolding reg_inv_def by blast
  next
    case (add_panic raddr c vd p)
    then have "joinOk (raddr, c, vd)" using step.prems js(1) by (simp add: newOnly_def)
    with add_panic(5) show ?thesis by (auto simp: joinOk_def fixServerAddr_7)
  qed (rule reg_kept [OF IH]; auto)+
qed

section \<open>What the users are told\<close>

text \<open>The number of requests a goroutine has sent for its command, and whether it may send any.\<close>

fun counted :: "'c handler \<Rightarrow> goint option" where
  "counted (Entries a es n) = Some n"
| "counted (Sending a ss es n) = Some n"
| "counted (DialFailed s a ss es n) = Some n"
| "counted (Removing si a ss es n) = Some n"
| "counted (Finished n) = Some n"
| "counted Closed = None"
| "counted pc = Some 0"

fun commands :: "'c handler \<Rightarrow> bool" where
  "commands (Entries a es n) \<longleftrightarrow> True"
| "commands (Sending a ss es n) \<longleftrightarrow> True"
| "commands (DialFailed s a ss es n) \<longleftrightarrow> True"
| "commands (Removing si a ss es n) \<longleftrightarrow> True"
| "commands _ \<longleftrightarrow> False"

abbreviation sentBy :: "nat \<Rightarrow> 'c conc \<Rightarrow> goint" where
  "sentBy h s \<equiv> of_nat (length (filter (\<lambda>q. fst q = h) (coSent s)))"

abbreviation finishedWith :: "goint \<Rightarrow> reply" where
  "finishedWith n \<equiv> RespReply \<lparr>rsNumNodes = n, rsMsg = finishedMsg\<rparr>"

definition told_inv :: "'c conc \<Rightarrow> bool" where
  "told_inv s \<longleftrightarrow>
     (\<forall>h. counted (coPc s h) = Some (sentBy h s) \<or> coPc s h = Closed) \<and>
     (\<forall>h n. (h, finishedWith n) \<in> set (coReplies s) \<longrightarrow> coPc s h = Closed \<and> n = sentBy h s)"

definition ready_inv :: "'c conc \<Rightarrow> bool" where
  "ready_inv s \<longleftrightarrow>
     (let m = coNode s
      in (vdHostReady (mVital m) \<longrightarrow> mNetaddr m \<noteq> [] \<and> vdHostAddr (mVital m) = mNetaddr m) \<and>
         (\<forall>h. commands (coPc s h) \<longrightarrow> vdHostReady (mVital m)) \<and> (coSent s \<noteq> [] \<longrightarrow> vdHostReady (mVital m)) \<and>
         (\<forall>h v. (h, VitalReply v) \<in> set (coReplies s) \<and> vdHostReady v \<longrightarrow> mNetaddr m \<noteq> [] \<and> vdHostAddr v = mNetaddr m))"

lemma infoLines_finished [simp]: "infoLines a2i order [] \<noteq> finishedMsg" "finishedMsg \<noteq> infoLines a2i order []"
proof -
  have "infoLines a2i is msg \<noteq> finishedMsg" if "msg = [] \<or> last msg = CHR ''\<newline>''" for "is" msg
    using that by (induction "is" arbitrary: msg) (auto simp: finishedMsg_def)
  then show "infoLines a2i order [] \<noteq> finishedMsg" "finishedMsg \<noteq> infoLines a2i order []" by metis+
qed

lemma finishedMsg_others [simp]: "''Files accepted'' \<noteq> finishedMsg" "''unknown command'' \<noteq> finishedMsg"
  "finishedMsg \<noteq> ''startExecution: bad slaveNodeList: '' @ err"
  by (simp_all add: finishedMsg_def)

text \<open>One step of a goroutine: it sends at most one request, counts it, and reports the count when it ends.\<close>

lemma handlerStep_told:
  assumes "handlerStep rcv order ok m pc = Some (rs, qs, m', Inr pc')"
  shows "pc \<noteq> Closed \<and> (counted pc' = map_option (\<lambda>n. n + of_nat (length qs)) (counted pc) \<or> pc' = Closed) \<and>
    (pc' = Closed \<longrightarrow> qs = []) \<and> (\<forall>n. finishedWith n \<in> set rs \<longrightarrow> pc' = Closed \<and> counted pc = Some n)"
  using assms
  by (cases "(rcv, order, ok, m, pc)" rule: handlerStep.cases)
    (auto simp: Let_def simp del: append_Cons split: option.splits if_splits sum.splits)

lemma told_moves:
  assumes inv: "told_inv s" and step: "handlerStep rcv order ok m (coPc s h) = Some (rs, qs, m', Inr pc')"
    and t: "coPc t = (coPc s)(h := pc')" "coSent t = coSent s @ map (Pair h) qs" "coReplies t = coReplies s @ map (Pair h) rs"
  shows "told_inv t"
proof -
  note told = handlerStep_told [OF step]
  have sent: "sentBy k t = sentBy k s + (if k = h then of_nat (length qs) else 0)" for k
    unfolding t(2) by (simp add: filter_map comp_def)
  have h: "counted (coPc s h) = Some (sentBy h s)" using inv told unfolding told_inv_def by blast
  have "counted (coPc t k) = Some (sentBy k t) \<or> coPc t k = Closed" for k
  proof (cases "k = h")
    case True
    with told h show ?thesis unfolding sent t(1) by auto
  next
    case False
    with inv show ?thesis unfolding sent t(1) by (simp add: told_inv_def)
  qed
  moreover have "coPc t k = Closed \<and> n = sentBy k t" if r: "(k, finishedWith n) \<in> set (coReplies t)" for k n
  proof (cases "(k, finishedWith n) \<in> set (coReplies s)")
    case True
    with inv have "coPc s k = Closed" "n = sentBy k s" by (simp_all add: told_inv_def)
    moreover from this told have "k \<noteq> h" by auto
    ultimately show ?thesis unfolding sent t(1) by simp
  next
    case False
    with r have "k = h" "finishedWith n \<in> set rs" unfolding t(3) by auto
    with told h show ?thesis unfolding sent t(1) by simp
  qed
  ultimately show ?thesis unfolding told_inv_def by blast
qed

lemma told_kept:
  assumes "told_inv s" and "coSent t = coSent s" and "coReplies t = coReplies s"
    and "\<And>h. coPc t h = coPc s h \<or> coPc s h = NoConn \<and> coPc t h = Hello"
  shows "told_inv t"
proof -
  have "counted (coPc t h) = counted (coPc s h)" "coPc t h = Closed \<longleftrightarrow> coPc s h = Closed" for h using assms(4) [of h] by auto
  with assms(1-3) show ?thesis unfolding told_inv_def by simp
qed

lemma handlerStep_panic_told:
  "handlerStep rcv order ok m pc = Some (rs, qs, m', Inl p) \<Longrightarrow> m' = m \<and> rs = [] \<and> qs = []"
  by (cases "(rcv, order, ok, m, pc)" rule: handlerStep.cases) (auto simp: Let_def split: option.splits if_splits sum.splits)

lemma csteps_told: "csteps startConc ls s \<Longrightarrow> told_inv s"
proof (induction rule: csteps_induct)
  case start
  then show ?case by (simp add: told_inv_def startConc_def)
next
  case (step ls t l u)
  from step.hyps(2) show ?case
  proof (cases rule: cstep.cases)
    case (handles h rcv order ok x)
    obtain rs qs m' r where x: "x = (rs, qs, m', r)" by (cases x)
    note hs = handles(5) [unfolded x]
    show ?thesis
    proof (cases r)
      case (Inl p)
      from handlerStep_panic_told [OF hs [unfolded Inl]] Inl handles(2) x show ?thesis
        by (auto simp: goesTo_def intro!: told_kept [OF step.IH])
    next
      case (Inr pc')
      show ?thesis
        by (rule told_moves [OF step.IH hs [unfolded Inr]]) (simp_all add: handles(2) x Inr goesTo_def)
    qed
  qed (rule told_kept [OF step.IH]; auto)+
qed

text \<open>One step of a goroutine and the vital data: a command is served only once the host is ready.\<close>

lemma handlerStep_ready:
  assumes "handlerStep rcv order ok m pc = Some (rs, qs, m', Inr pc')"
    and "vdHostReady (mVital m) \<longrightarrow> mNetaddr m \<noteq> [] \<and> vdHostAddr (mVital m) = mNetaddr m"
  shows "mNetaddr m' = mNetaddr m \<and> (vdHostReady (mVital m) \<longrightarrow> vdHostReady (mVital m')) \<and>
    (vdHostReady (mVital m') \<longrightarrow> mNetaddr m' \<noteq> [] \<and> vdHostAddr (mVital m') = mNetaddr m') \<and>
    (commands pc' \<longrightarrow> commands pc \<or> vdHostReady (mVital m')) \<and> (qs \<noteq> [] \<longrightarrow> commands pc) \<and>
    (\<forall>v. VitalReply v \<in> set rs \<and> vdHostReady v \<longrightarrow> mNetaddr m \<noteq> [] \<and> vdHostAddr v = mNetaddr m)"
  using assms
  by (cases "(rcv, order, ok, m, pc)" rule: handlerStep.cases)
    (auto simp: Let_def refreshVital_def currentVital_def split: option.splits if_splits sum.splits)

lemma csteps_ready: "csteps startConc ls s \<Longrightarrow> ready_inv s"
proof (induction rule: csteps_induct)
  case start
  then show ?case by (simp add: ready_inv_def startConc_def startMaster_def)
next
  case (step ls t l u)
  from step.hyps(2) show ?case
  proof (cases rule: cstep.cases)
    case (handles h rcv order ok x)
    obtain rs qs m' r where x: "x = (rs, qs, m', r)" by (cases x)
    note hs = handles(5) [unfolded x]
    show ?thesis
    proof (cases r)
      case (Inl p)
      from handlerStep_panic_told [OF hs [unfolded Inl]] Inl handles(2) x step.IH show ?thesis
        by (auto simp: goesTo_def ready_inv_def Let_def)
    next
      case (Inr pc')
      have "vdHostReady (mVital (coNode t)) \<longrightarrow> mNetaddr (coNode t) \<noteq> [] \<and> vdHostAddr (mVital (coNode t)) = mNetaddr (coNode t)"
        using step.IH by (simp add: ready_inv_def Let_def)
      note moves = handlerStep_ready [OF hs [unfolded Inr] this]
      have u: "coNode u = m'" "coPc u = (coPc t)(h := pc')" "coSent u = coSent t @ map (Pair h) qs"
        "coReplies u = coReplies t @ map (Pair h) rs" by (simp_all add: handles(2) x Inr goesTo_def)
      show ?thesis
        using moves step.IH unfolding ready_inv_def Let_def u by (auto split: if_splits)
    qed
  next
    case (vital raddr c vd)
    have "learnNetaddr vd (mNetaddr (coNode t)) = mNetaddr (coNode t)" if "mNetaddr (coNode t) \<noteq> []"
      using that by (simp add: learnNetaddr_def)
    with step.IH show ?thesis unfolding ready_inv_def Let_def vital(2) by auto
  qed (use step.IH in \<open>auto simp: ready_inv_def Let_def split: if_splits\<close>)
qed

section \<open>The master under any interleaving\<close>


lemma demo_steps:
  "\<exists>s. csteps startConc [SlaveSends ''10.0.0.1:900'' () (Some vd1), SlaveAdded, UserDials 0, UserStep 0 None [] True] s \<and>
     coPc s 0 = Greet \<and> vdHostReady (currentVital (coNode s)) \<and> coReplies s = [] \<and> coPanic s = None"
proof -
  let ?m1 = "startMaster\<lparr>mNetaddr := learnNetaddr vd1 []\<rparr>"
  let ?m2 = "?m1\<lparr>nSlaves := snd (Add newSlaves vd1 ())\<rparr>"
  let ?s1 = "startConc\<lparr>coReg := Registering ''10.0.0.1:900'' () vd1, coNode := ?m1\<rparr>"
  let ?s2 = "startConc\<lparr>coNode := ?m2\<rparr>"
  let ?s3 = "?s2\<lparr>coPc := (coPc ?s2)(0 := Hello)\<rparr>"
  let ?s4 = "goesTo ?s3 0 ([], [], refreshVital ?m2, Inr Greet)"
  have fix1: "fixServerAddr ''10.0.0.1:900'' vd1 = Inr vd1" by (simp add: fixServerAddr_7 vd1_def)
  have net: "learnNetaddr vd1 [] \<noteq> []" by (simp add: learnNetaddr_def splitN2_def vd1_def)
  have "cstep startConc (SlaveSends ''10.0.0.1:900'' () (Some vd1)) ?s1"
    using cstep.vital [of startConc "''10.0.0.1:900''" "()" vd1] by (simp add: startConc_def startMaster_def)
  moreover have "cstep ?s1 SlaveAdded ?s2"
    using cstep.added [of ?s1 "''10.0.0.1:900''" "()" vd1 vd1] fix1 by (simp add: startConc_def startMaster_def)
  moreover have "cstep ?s2 (UserDials 0) ?s3" by (rule cstep.dials) (simp_all add: startConc_def)
  moreover have "cstep ?s3 (UserStep 0 None [] True) ?s4" by (rule cstep.handles) (simp_all add: startConc_def)
  ultimately have "csteps startConc ((([SlaveSends ''10.0.0.1:900'' () (Some vd1)] @ [SlaveAdded]) @ [UserDials 0]) @ [UserStep 0 None [] True]) ?s4"
    by (intro csteps.more) (rule csteps_one)
  moreover have "vdHostReady (currentVital (coNode ?s4))" using net by (simp add: goesTo_def currentVital_def refreshVital_def)
  ultimately show ?thesis by (intro exI [of _ ?s4]) (simp add: goesTo_def startConc_def)
qed


section \<open>What is lost in between\<close>

text \<open>
  A goroutine looks up the slave it could not dial and removes it in two steps. A slave that registers in
  between, under the names it had, is taken out with its old self: it runs, and the master does not know it.
\<close>

lemma lost_rejoin:
  assumes "coPanic s = None" and "coPc s h = Removing si a ss es n" and "coReg s = Registering raddr c vd"
    and "joinOk (raddr, c, vd)" and "vdId vd = siId si" and "vdServerAddr vd = siServer si"
  shows "\<exists>t. csteps s [SlaveAdded, UserStep h None [] True] t \<and> coReg t = Accepting \<and>
    Slaves (nSlaves (coNode t)) (vdId vd) = None \<and> Addr2id (nSlaves (coNode t)) (vdServerAddr vd) = None"
proof -
  let ?m = "(coNode s)\<lparr>nSlaves := snd (Add (nSlaves (coNode s)) vd c)\<rparr>"
  let ?s = "s\<lparr>coReg := Accepting, coNode := ?m\<rparr>"
  let ?t = "goesTo ?s h ([], [], ?m\<lparr>nSlaves := Remove (nSlaves ?m) si\<rparr>, Inr (Sending a ss es n))"
  have "fixServerAddr raddr vd = Inr vd" using assms(4) by (simp add: joinOk_def fixServerAddr_7)
  from cstep.added [OF assms(1,3) this] have 1: "cstep s SlaveAdded ?s" .
  have 2: "cstep ?s (UserStep h None [] True) ?t" by (rule cstep.handles) (simp_all add: assms(1,2))
  from csteps.more [OF csteps_one [OF 1] 2] have "csteps s [SlaveAdded, UserStep h None [] True] ?t" by simp
  moreover have "Slaves (nSlaves (coNode ?t)) (vdId vd) = None \<and> Addr2id (nSlaves (coNode ?t)) (vdServerAddr vd) = None"
    by (simp add: goesTo_def Remove_def assms(5,6))
  ultimately show ?thesis by (intro exI [of _ ?t]) (simp add: goesTo_def)
qed

text \<open>Two goroutines that make the list at the same time leave every file in it twice.\<close>

lemma listed_twice:
  assumes "coPanic s = None" and "g \<noteq> h" and "coPc s g = Clearing" and "coPc s h = Clearing"
    and "keyOrder order (mExceptFiles (coNode s))"
  shows "\<exists>t. csteps s [UserStep g None [] True, UserStep h None [] True, UserStep g None order True, UserStep h None order True] t \<and>
    mExceptList (coNode t) = order @ order"
proof -
  let ?m1 = "(coNode s)\<lparr>mExceptList := []\<rparr>" and ?m2 = "(coNode s)\<lparr>mExceptList := order\<rparr>"
    and ?m3 = "(coNode s)\<lparr>mExceptList := order @ order\<rparr>"
  let ?s1 = "goesTo s g ([], [], ?m1, Inr Listing)"
  let ?s2 = "goesTo ?s1 h ([], [], ?m1, Inr Listing)"
  let ?s3 = "goesTo ?s2 g ([], [], ?m2, Inr AcceptedFiles)"
  let ?s4 = "goesTo ?s3 h ([], [], ?m3, Inr AcceptedFiles)"
  have "cstep s (UserStep g None [] True) ?s1" by (rule cstep.handles) (simp_all add: assms goesTo_def)
  moreover have "cstep ?s1 (UserStep h None [] True) ?s2" by (rule cstep.handles) (use assms in \<open>simp_all add: goesTo_def\<close>)
  moreover have "cstep ?s2 (UserStep g None order True) ?s3" by (rule cstep.handles) (use assms in \<open>simp_all add: goesTo_def\<close>)
  moreover have "cstep ?s3 (UserStep h None order True) ?s4" by (rule cstep.handles) (use assms in \<open>simp_all add: goesTo_def\<close>)
  ultimately have "csteps s ((([UserStep g None [] True] @ [UserStep h None [] True]) @ [UserStep g None order True]) @ [UserStep h None order True]) ?s4"
    by (intro csteps.more) (rule csteps_one)
  then show ?thesis by (intro exI [of _ ?s4]) (simp add: goesTo_def)
qed

end
