(* ===== verification/SlaveRuns.thy ===== *)
theory SlaveRuns
  imports Cluster
begin

text \<open>
  The process of a slave from \<^verbatim>\<open>runSlave\<close> on (\<^verbatim>\<open>src/src/gproc/slave.go\<close>), with its three goroutines:
  the main one joins the parent and then waits for the parent to go away; one registers the
  slaves that join below (\<^verbatim>\<open>registerSlaves\<close> of \<^verbatim>\<open>common.go\<close>); one accepts a connection for each
  command, starts a child process for it and answers the child. They run in any interleaving.
  A step is labelled with what the network and the system do in it.
\<close>

section \<open>State\<close>

datatype mainPc = AtDial | AtListen string string | AtJoin vitalData | AtMaster

datatype regPc = RegOff | RegListen | RegLoop

datatype 'c acceptPc = NoLoop | AtAccept | AtRecv 'c | AtWait 'c | LoopGone

datatype slaveEnd = SlavePanic string | SlaveExit nat

text \<open>
  The child process: whether it runs, whether it has sent its node list, and the list as long as it
  is in the pipe. \<open>srWriter\<close> says that the slave's own copy of the writing end of that pipe is open;
  the code never closes it, only the collector of \<^verbatim>\<open>os.File\<close> values may.
\<close>

record child =
  chAlive :: bool
  chAsked :: bool
  chPipe :: "nodeExecList option"

record 'c slaveRun =
  srMain :: mainPc
  srReg :: regPc
  srLoop :: "'c acceptPc"
  srId :: string
  srNode :: "'c master"
  srChild :: "child option"
  srWriter :: bool
  srStarted :: "string list list"
  srAnswered :: "(nodeExecList \<times> nodeExecList) list"
  srEnd :: "slaveEnd option"

definition runSlave :: "goint \<Rightarrow> config \<Rightarrow> 'c slaveRun" where
  "runSlave uid conf =
     \<lparr>srMain = AtDial, srReg = RegOff, srLoop = NoLoop, srId = [], srNode = startMaster,
      srChild = None, srWriter = False, srStarted = [], srAnswered = [],
      srEnd = map_option SlavePanic (slaveChecks uid conf)\<rparr>"

section \<open>Steps\<close>

datatype 'c slabel =
    DialErr
  | Dialled string string string
  | ListenErr
  | Listening string string
  | JoinReply "string option"
  | MasterDone
  | RegListenErr
  | RegListening
  | RegErr
  | Join string 'c vitalData
  | AcceptErr
  | StartErr
  | StartChild 'c
  | Answers
  | RecvErr
  | Waited
  | Asks nodeExecList
  | ChildEnds
  | Collected

text \<open>
  \<^verbatim>\<open>startSlave\<close>. A parent that answers, with anything, ends the process as one that goes away
  does: the result of the last \<^verbatim>\<open>Recv\<close> is not looked at.
\<close>

inductive startSlave :: "config \<Rightarrow> 'c slaveRun \<Rightarrow> 'c slabel \<Rightarrow> 'c slaveRun \<Rightarrow> bool" for conf where
  dial_err: "srMain s = AtDial \<Longrightarrow>
    startSlave conf s DialErr (s\<lparr>srEnd := Some (SlavePanic ''startSlave: dialing:'')\<rparr>)"
| dialled: "srMain s = AtDial \<Longrightarrow>
    startSlave conf s (Dialled (masterAddr conf) laddr raddr) (s\<lparr>srMain := AtListen laddr raddr\<rparr>)"
| listen_err: "srMain s = AtListen laddr raddr \<Longrightarrow>
    startSlave conf s ListenErr (s\<lparr>srEnd := Some (SlavePanic ''startSlave: '')\<rparr>)"
| listening: "srMain s = AtListen laddr raddr \<Longrightarrow>
    startSlave conf s (Listening (peerAddr laddr) server)
      (s\<lparr>srMain := AtJoin (slaveVital conf laddr raddr server)\<rparr>)"
| no_reply: "srMain s = AtJoin vd \<Longrightarrow> initSlave resp = Inl msg \<Longrightarrow>
    startSlave conf s (JoinReply resp) (s\<lparr>srEnd := Some (SlavePanic msg)\<rparr>)"
| joined: "srMain s = AtJoin vd \<Longrightarrow> initSlave resp = Inr i \<Longrightarrow>
    startSlave conf s (JoinReply resp)
      (s\<lparr>srMain := AtMaster, srId := i, srReg := RegListen, srLoop := AtAccept\<rparr>)"
| master_done: "srMain s = AtMaster \<Longrightarrow>
    startSlave conf s MasterDone (s\<lparr>srEnd := Some (SlaveExit 0)\<rparr>)"

text \<open>\<^verbatim>\<open>registerSlaves\<close>; \<open>RegErr\<close> is an \<^verbatim>\<open>Accept\<close> or a \<^verbatim>\<open>Recv\<close> that fails.\<close>

inductive registerSlaves :: "'c slaveRun \<Rightarrow> 'c slabel \<Rightarrow> 'c slaveRun \<Rightarrow> bool" where
  reg_listen_err: "srReg s = RegListen \<Longrightarrow>
    registerSlaves s RegListenErr (s\<lparr>srEnd := Some (SlavePanic ''listen error:'')\<rparr>)"
| reg_listening: "srReg s = RegListen \<Longrightarrow>
    registerSlaves s RegListening (s\<lparr>srReg := RegLoop, srNode := (srNode s)\<lparr>nSlaves := newSlaves\<rparr>\<rparr>)"
| reg_err: "srReg s = RegLoop \<Longrightarrow> registerSlaves s RegErr s"
| join_panic: "srReg s = RegLoop \<Longrightarrow> registerSlave raddr c (Some vd) (srNode s) = (Inl p, m) \<Longrightarrow>
    registerSlaves s (Join raddr c vd)
      (s\<lparr>srNode := m, srEnd := Some (SlavePanic ''slice bounds out of range'')\<rparr>)"
| join: "srReg s = RegLoop \<Longrightarrow> registerSlave raddr c (Some vd) (srNode s) = (Inr resp, m) \<Longrightarrow>
    registerSlaves s (Join raddr c vd) (s\<lparr>srNode := m\<rparr>)"

text \<open>
  The goroutine that accepts commands. The list of nodes comes through the pipe: \<^verbatim>\<open>Recv\<close> fails
  when the pipe is empty and all its writing ends are closed, the child's and the slave's own.
\<close>

inductive acceptCommands :: "config \<Rightarrow> 'c env \<Rightarrow> 'c slaveRun \<Rightarrow> 'c slabel \<Rightarrow> 'c slaveRun \<Rightarrow> bool"
  for conf env where
  accept_err: "srLoop s = AtAccept \<Longrightarrow> acceptCommands conf env s AcceptErr (s\<lparr>srLoop := LoopGone\<rparr>)"
| start_err: "srLoop s = AtAccept \<Longrightarrow>
    acceptCommands conf env s StartErr (s\<lparr>srEnd := Some (SlavePanic ''startSlave: '')\<rparr>)"
| start_child: "srLoop s = AtAccept \<Longrightarrow>
    acceptCommands conf env s (StartChild c)
      (s\<lparr>srLoop := AtRecv c, srStarted := srStarted s @ [childArgv conf (srId s)], srWriter := True,
         srChild := Some \<lparr>chAlive = True, chAsked = False, chPipe = None\<rparr>\<rparr>)"
| answer: "srLoop s = AtRecv c \<Longrightarrow> srChild s = Some ch \<Longrightarrow> chPipe ch = Some ne \<Longrightarrow>
    answerNodes env (srNode s) ne = Inr a \<Longrightarrow>
    acceptCommands conf env s Answers
      (s\<lparr>srLoop := AtWait c, srChild := Some (ch\<lparr>chPipe := None\<rparr>), srAnswered := srAnswered s @ [(ne, a)]\<rparr>)"
| answer_panic: "srLoop s = AtRecv c \<Longrightarrow> srChild s = Some ch \<Longrightarrow> chPipe ch = Some ne \<Longrightarrow>
    answerNodes env (srNode s) ne = Inl p \<Longrightarrow>
    acceptCommands conf env s Answers (s\<lparr>srEnd := Some (SlavePanic ''index out of range'')\<rparr>)"
| recv_err: "srLoop s = AtRecv c \<Longrightarrow> srChild s = Some ch \<Longrightarrow> chPipe ch = None \<Longrightarrow> \<not> chAlive ch \<Longrightarrow>
    \<not> srWriter s \<Longrightarrow> acceptCommands conf env s RecvErr (s\<lparr>srLoop := LoopGone\<rparr>)"
| waited: "srLoop s = AtWait c \<Longrightarrow> srChild s = Some ch \<Longrightarrow> \<not> chAlive ch \<Longrightarrow>
    acceptCommands conf env s Waited (s\<lparr>srLoop := AtAccept, srChild := None\<rparr>)"

text \<open>
  The child and the collector. Which lists a process with given arguments sends is a
  parameter here.
\<close>

inductive childStep :: "(string list \<Rightarrow> nodeExecList \<Rightarrow> bool) \<Rightarrow> 'c slaveRun \<Rightarrow> 'c slabel \<Rightarrow> 'c slaveRun \<Rightarrow> bool"
  for asks where
  child_asks: "srChild s = Some ch \<Longrightarrow> chAlive ch \<Longrightarrow> \<not> chAsked ch \<Longrightarrow> asks (last (srStarted s)) ne \<Longrightarrow>
    childStep asks s (Asks ne) (s\<lparr>srChild := Some (ch\<lparr>chAsked := True, chPipe := Some ne\<rparr>)\<rparr>)"
| child_ends: "srChild s = Some ch \<Longrightarrow> chAlive ch \<Longrightarrow>
    childStep asks s ChildEnds (s\<lparr>srChild := Some (ch\<lparr>chAlive := False\<rparr>)\<rparr>)"
| collected: "srWriter s \<Longrightarrow> childStep asks s Collected (s\<lparr>srWriter := False\<rparr>)"

text \<open>A step is one of these, as long as the process has not ended.\<close>

inductive sstep ::
  "config \<Rightarrow> 'c env \<Rightarrow> (string list \<Rightarrow> nodeExecList \<Rightarrow> bool) \<Rightarrow> 'c slaveRun \<Rightarrow> 'c slabel \<Rightarrow> 'c slaveRun \<Rightarrow> bool"
  for conf env asks where
  Main: "srEnd s = None \<Longrightarrow> startSlave conf s l t \<Longrightarrow> sstep conf env asks s l t"
| Register: "srEnd s = None \<Longrightarrow> registerSlaves s l t \<Longrightarrow> sstep conf env asks s l t"
| Loop: "srEnd s = None \<Longrightarrow> acceptCommands conf env s l t \<Longrightarrow> sstep conf env asks s l t"
| World: "srEnd s = None \<Longrightarrow> childStep asks s l t \<Longrightarrow> sstep conf env asks s l t"

inductive ssteps ::
  "config \<Rightarrow> 'c env \<Rightarrow> (string list \<Rightarrow> nodeExecList \<Rightarrow> bool) \<Rightarrow> 'c slaveRun \<Rightarrow> 'c slabel list \<Rightarrow> 'c slaveRun \<Rightarrow> bool"
  for conf env asks s where
  NoSteps: "ssteps conf env asks s [] s"
| OneMore: "ssteps conf env asks s ls t \<Longrightarrow> sstep conf env asks t l u \<Longrightarrow> ssteps conf env asks s (ls @ [l]) u"

lemma ssteps_trans:
  "ssteps conf env asks t ms u \<Longrightarrow> ssteps conf env asks s ls t \<Longrightarrow> ssteps conf env asks s (ls @ ms) u"
proof (induction rule: ssteps.induct)
  case (OneMore ms u l v)
  then show ?case using ssteps.OneMore [of conf env asks s "ls @ ms" u l v] by simp
qed simp

lemma ssteps_Cons:
  "sstep conf env asks s l t \<Longrightarrow> ssteps conf env asks t ls u \<Longrightarrow> ssteps conf env asks s (l # ls) u"
  using ssteps_trans [of conf env asks t ls u s "[l]"] ssteps.OneMore [OF ssteps.NoSteps, of conf env asks s l t]
  by simp

section \<open>What holds in every run\<close>

fun joinsOf :: "'c slabel list \<Rightarrow> (string \<times> 'c \<times> vitalData) list" where
  "joinsOf [] = []"
| "joinsOf (Join raddr c vd # ls) = (raddr, c, vd) # joinsOf ls"
| "joinsOf (_ # ls) = joinsOf ls"

lemma joinsOf_append: "joinsOf (ls @ ms) = joinsOf ls @ joinsOf ms"
  by (induction ls rule: joinsOf.induct) auto

lemma joinAll_snoc:
  "joinAll js m = Inr m' \<Longrightarrow> joinAll (js @ [(raddr, c, vd)]) m =
     (case registerSlave raddr c (Some vd) m' of (Inl p, m2) \<Rightarrow> Inl p | (Inr _, m2) \<Rightarrow> Inr m2)"
  by (induction js m rule: joinAll.induct) (auto split: prod.splits sum.splits)

text \<open>How the goroutine that accepts commands and its child fit together.\<close>

definition loop_inv :: "'c slaveRun \<Rightarrow> bool" where
  "loop_inv s \<longleftrightarrow>
     (case srLoop s of
        NoLoop \<Rightarrow> srStarted s = [] \<and> srAnswered s = [] \<and> srChild s = None
      | AtAccept \<Rightarrow> length (srStarted s) = length (srAnswered s) \<and> srChild s = None
      | AtRecv c \<Rightarrow> length (srStarted s) = Suc (length (srAnswered s)) \<and> srChild s \<noteq> None
      | AtWait c \<Rightarrow> length (srStarted s) = length (srAnswered s) \<and> srChild s \<noteq> None
      | LoopGone \<Rightarrow> length (srAnswered s) \<le> length (srStarted s) \<and>
          length (srStarted s) \<le> Suc (length (srAnswered s)))"

definition main_inv :: "config \<Rightarrow> 'c slabel list \<Rightarrow> 'c slaveRun \<Rightarrow> bool" where
  "main_inv conf ls s \<longleftrightarrow>
     (case srMain s of
        AtDial \<Rightarrow> srEnd s = None \<longrightarrow> ls = []
      | AtListen la ra \<Rightarrow> srEnd s = None \<longrightarrow> ls = [Dialled (masterAddr conf) la ra]
      | AtJoin vd \<Rightarrow> srEnd s = None \<longrightarrow>
          (\<exists>la ra sv. ls = [Dialled (masterAddr conf) la ra, Listening (peerAddr la) sv] \<and>
             vd = slaveVital conf la ra sv)
      | AtMaster \<Rightarrow> \<exists>la ra sv ms.
          ls = Dialled (masterAddr conf) la ra # Listening (peerAddr la) sv # JoinReply (Some (srId s)) # ms) \<and>
     (srMain s \<noteq> AtMaster \<longrightarrow> srReg s = RegOff \<and> srLoop s = NoLoop \<and> \<not> srWriter s)"

definition node_inv :: "'c env \<Rightarrow> 'c slabel list \<Rightarrow> 'c slaveRun \<Rightarrow> bool" where
  "node_inv env ls s \<longleftrightarrow>
     (srEnd s = None \<longrightarrow> joinAll (joinsOf ls) startMaster = Inr (srNode s)) \<and>
     (srReg s \<noteq> RegLoop \<longrightarrow> srNode s = startMaster) \<and>
     (\<forall>(ne, a)\<in>set (srAnswered s). \<exists>ls1 ls2 m. ls = ls1 @ Answers # ls2 \<and>
        joinAll (joinsOf ls1) startMaster = Inr m \<and> answerNodes env m ne = Inr a)"

lemmas sr_splits = option.splits if_splits mainPc.splits acceptPc.splits sum.splits prod.splits

lemmas sstep_cases = startSlave.cases registerSlaves.cases acceptCommands.cases childStep.cases

lemma loop_inv_upd [simp]:
  "loop_inv (s\<lparr>srMain := m\<rparr>) = loop_inv s" "loop_inv (s\<lparr>srReg := r\<rparr>) = loop_inv s"
  "loop_inv (s\<lparr>srNode := n\<rparr>) = loop_inv s" "loop_inv (s\<lparr>srEnd := e\<rparr>) = loop_inv s"
  "loop_inv (s\<lparr>srWriter := w\<rparr>) = loop_inv s" "loop_inv (s\<lparr>srId := i\<rparr>) = loop_inv s"
  by (cases "srLoop s"; simp add: loop_inv_def)+

lemma loop_inv_step:
  assumes "sstep conf env asks s l t" and main: "main_inv conf ls s" and inv: "loop_inv s"
  shows "loop_inv t"
  using assms(1)
proof cases
  case Main
  from Main(2) show ?thesis
  proof cases
    case (joined vd resp i)
    with main have "srLoop s = NoLoop" by (simp add: main_inv_def)
    with inv show ?thesis unfolding joined by (simp add: loop_inv_def)
  qed (use inv in simp_all)
next
  case Register
  from Register(2) show ?thesis by cases (use inv in simp_all)
next
  case Loop
  from Loop(2) show ?thesis by cases (use inv in \<open>auto simp: loop_inv_def\<close>)
next
  case World
  from World(2) show ?thesis
    by cases (use inv in \<open>auto simp: loop_inv_def split: acceptPc.splits\<close>)
qed

lemma main_inv_step:
  assumes "sstep conf env asks s l t" and inv: "main_inv conf ls s" and loop: "loop_inv s"
  shows "main_inv conf (ls @ [l]) t"
proof -
  have "srEnd s = None" using assms(1) by (auto elim: sstep.cases)
  with assms(1) show ?thesis
  proof cases
    case Main
    from Main(2) show ?thesis
      by cases (use inv \<open>srEnd s = None\<close> in \<open>auto simp: main_inv_def initSlave_def split: option.splits\<close>)
  next
    case Register
    from Register(2) have "srReg s \<noteq> RegOff" by cases auto
    with inv have m: "srMain s = AtMaster" unfolding main_inv_def by blast
    from Register(2) show ?thesis by cases (use inv m in \<open>auto simp: main_inv_def\<close>)
  next
    case Loop
    from Loop(2) have "srLoop s \<noteq> NoLoop" by cases auto
    with inv have m: "srMain s = AtMaster" unfolding main_inv_def by blast
    from Loop(2) show ?thesis by cases (use inv m in \<open>auto simp: main_inv_def\<close>)
  next
    case World
    from World(2) have "srLoop s \<noteq> NoLoop \<or> srWriter s" by cases (use loop in \<open>auto simp: loop_inv_def\<close>)
    with inv have m: "srMain s = AtMaster" unfolding main_inv_def by blast
    from World(2) show ?thesis by cases (use inv m in \<open>auto simp: main_inv_def\<close>)
  qed
qed

lemma node_inv_step:
  assumes "sstep conf env asks s l t" and inv: "node_inv env ls s" and main: "main_inv conf ls s"
  shows "node_inv env (ls @ [l]) t"
proof -
  have run: "srEnd s = None" using assms(1) by (auto elim: sstep.cases)
  with inv have j: "joinAll (joinsOf ls) startMaster = Inr (srNode s)" by (simp add: node_inv_def)
  have keep: "\<exists>ls1 ls2 m. ls @ [l] = ls1 @ Answers # ls2 \<and>
      joinAll (joinsOf ls1) startMaster = Inr m \<and> answerNodes env m ne = Inr a"
    if "(ne, a) \<in> set (srAnswered s)" for ne a
  proof -
    from that inv obtain ls1 ls2 m where "ls = ls1 @ Answers # ls2"
      "joinAll (joinsOf ls1) startMaster = Inr m" "answerNodes env m ne = Inr a"
      unfolding node_inv_def by blast
    then show ?thesis by (intro exI [of _ ls1] exI [of _ "ls2 @ [l]"] exI [of _ m]) simp
  qed
  have same: "node_inv env (ls @ [l]) t"
    if "srNode t = srNode s" "srAnswered t = srAnswered s" "joinsOf [l] = [] \<or> srEnd t \<noteq> None"
      "srReg t = srReg s \<or> srReg t = RegListen \<and> srReg s = RegOff"
    using that inv j keep unfolding node_inv_def joinsOf_append by auto
  from assms(1) show ?thesis
  proof cases
    case Main
    from Main(2) show ?thesis by cases (rule same; use main in \<open>simp add: main_inv_def\<close>)+
  next
    case Register
    from Register(2) show ?thesis
    proof cases
      case reg_listening
      then have "srNode s = startMaster" using inv by (simp add: node_inv_def)
      then have "srNode t = srNode s" unfolding reg_listening by (simp add: startMaster_def)
      with reg_listening inv j keep show ?thesis unfolding node_inv_def joinsOf_append by auto
    next
      case (join_panic raddr c vd p m)
      with inv keep show ?thesis unfolding node_inv_def joinsOf_append by auto
    next
      case (join raddr c vd resp m)
      from joinAll_snoc [OF j, of raddr c vd] have "joinAll (joinsOf (ls @ [l])) startMaster = Inr m"
        by (simp add: join joinsOf_append)
      with join inv keep show ?thesis unfolding node_inv_def by auto
    qed (rule same; simp)+
  next
    case Loop
    from Loop(2) show ?thesis
    proof cases
      case (answer c ch ne a)
      have "\<exists>ls1 ls2 m. ls @ [l] = ls1 @ Answers # ls2 \<and>
          joinAll (joinsOf ls1) startMaster = Inr m \<and> answerNodes env m ne = Inr a"
        using j answer by (intro exI [of _ ls] exI [of _ "[]"] exI [of _ "srNode s"]) simp
      with answer inv j keep show ?thesis unfolding node_inv_def joinsOf_append by auto
    qed (rule same; simp)+
  next
    case World
    from World(2) show ?thesis by cases (rule same; simp)+
  qed
qed

definition argv_inv :: "config \<Rightarrow> 'c slaveRun \<Rightarrow> bool" where
  "argv_inv conf s \<longleftrightarrow> set (srStarted s) \<subseteq> {childArgv conf (srId s)} \<and> (srLoop s = NoLoop \<longrightarrow> srStarted s = [])"

lemma argv_inv_step:
  assumes "sstep conf env asks s l t" and inv: "argv_inv conf s" and main: "main_inv conf ls s"
  shows "argv_inv conf t"
  using assms(1)
proof cases
  case Main
  from Main(2) show ?thesis by cases (use inv main in \<open>auto simp: argv_inv_def main_inv_def\<close>)
next
  case Register
  from Register(2) show ?thesis by cases (use inv in \<open>simp_all add: argv_inv_def\<close>)
next
  case Loop
  from Loop(2) show ?thesis by cases (use inv in \<open>auto simp: argv_inv_def\<close>)
next
  case World
  from World(2) show ?thesis by cases (use inv in \<open>simp_all add: argv_inv_def\<close>)
qed

lemma ssteps_inv:
  assumes "ssteps conf env asks (runSlave uid conf) ls s"
  shows "main_inv conf ls s \<and> loop_inv s \<and> node_inv env ls s \<and> argv_inv conf s"
  using assms
proof (induction rule: ssteps.induct)
  case NoSteps
  then show ?case
    by (simp add: runSlave_def main_inv_def loop_inv_def node_inv_def argv_inv_def)
next
  case (OneMore ls t l u)
  then show ?case
    using loop_inv_step main_inv_step node_inv_step argv_inv_step by metis
qed

section \<open>Properties\<close>

text \<open>
  C8. A slave starts a child only after it has joined the parent it dialled, and gives every child
  the identifier that parent assigned. It handles one command at a time: no child is started before
  the one before it was answered. Its registry is what the slaves that joined made it, and
  every child was answered from the slaves that had joined by then; commands do not change it, so
  a slave that a child found dead stays registered.
\<close>
theorem slave_run:
  assumes "ssteps conf env asks (runSlave uid conf) ls s"
  shows "(srStarted s \<noteq> [] \<longrightarrow> (\<exists>la ra sv i ms.
      ls = Dialled (masterAddr conf) la ra # Listening (peerAddr la) sv # JoinReply (Some i) # ms \<and>
      set (srStarted s) = {childArgv conf i})) \<and>
    length (srAnswered s) \<le> length (srStarted s) \<and> length (srStarted s) \<le> Suc (length (srAnswered s)) \<and>
    (srLoop s = AtAccept \<longrightarrow> length (srStarted s) = length (srAnswered s)) \<and>
    (srEnd s = None \<longrightarrow> joinAll (joinsOf ls) startMaster = Inr (srNode s)) \<and>
    (\<forall>(ne, a)\<in>set (srAnswered s). \<exists>ls1 ls2 m. ls = ls1 @ Answers # ls2 \<and>
       joinAll (joinsOf ls1) startMaster = Inr m \<and> answerNodes env m ne = Inr a)"
proof -
  note inv = ssteps_inv [OF assms]
  have "\<exists>la ra sv i ms. ls = Dialled (masterAddr conf) la ra # Listening (peerAddr la) sv # JoinReply (Some i) # ms \<and>
      set (srStarted s) = {childArgv conf i}" if "srStarted s \<noteq> []"
  proof -
    from that inv have m: "srMain s = AtMaster" unfolding argv_inv_def main_inv_def by blast
    with inv obtain la ra sv ms where
      "ls = Dialled (masterAddr conf) la ra # Listening (peerAddr la) sv # JoinReply (Some (srId s)) # ms"
      by (auto simp: main_inv_def)
    moreover from that inv have "set (srStarted s) = {childArgv conf (srId s)}"
      unfolding argv_inv_def by (metis set_empty subset_singletonD)
    ultimately show ?thesis by blast
  qed
  moreover have "length (srAnswered s) \<le> length (srStarted s) \<and> length (srStarted s) \<le> Suc (length (srAnswered s))"
    using inv by (auto simp: loop_inv_def split: acceptPc.splits)
  moreover have "srLoop s = AtAccept \<longrightarrow> length (srStarted s) = length (srAnswered s)"
    using inv by (auto simp: loop_inv_def)
  ultimately show ?thesis using inv unfolding node_inv_def by blast
qed

lemma joinsOf_sub: "ls = ls1 @ ls2 \<Longrightarrow> \<exists>js. joinsOf ls = joinsOf ls1 @ js"
  by (simp add: joinsOf_append)


text \<open>The run that serves one command.\<close>

lemma serve_one:
  assumes "srEnd s = None" and "srLoop s = AtAccept" and "Nodes ne \<noteq> []" and "asks (childArgv conf (srId s)) ne"
  shows "\<exists>t. ssteps conf env asks s [StartChild c, Asks ne, Answers, ChildEnds, Waited] t \<and>
    srEnd t = None \<and> srLoop t = AtAccept \<and> srNode t = srNode s \<and> srId t = srId s \<and>
    srAnswered t = srAnswered s @
      [(ne, ne\<lparr>Nodes := selectNodes env (nDials (srNode s)) (nSlaves (srNode s)) (Nodes ne)\<rparr>)]"
proof -
  let ?a = "ne\<lparr>Nodes := selectNodes env (nDials (srNode s)) (nSlaves (srNode s)) (Nodes ne)\<rparr>"
  let ?ch = "\<lparr>chAlive = True, chAsked = False, chPipe = None\<rparr>"
  let ?s1 = "s\<lparr>srLoop := AtRecv c, srStarted := srStarted s @ [childArgv conf (srId s)], srWriter := True,
               srChild := Some ?ch\<rparr>"
  let ?s2 = "?s1\<lparr>srChild := Some (?ch\<lparr>chAsked := True, chPipe := Some ne\<rparr>)\<rparr>"
  let ?s3 = "?s2\<lparr>srLoop := AtWait c, srChild := Some (?ch\<lparr>chAsked := True\<rparr>),
               srAnswered := srAnswered s @ [(ne, ?a)]\<rparr>"
  let ?s4 = "?s3\<lparr>srChild := Some (?ch\<lparr>chAsked := True, chAlive := False\<rparr>)\<rparr>"
  let ?s5 = "?s4\<lparr>srLoop := AtAccept, srChild := None\<rparr>"
  have "sstep conf env asks s (StartChild c) ?s1"
    by (rule sstep.Loop [OF assms(1)]) (rule start_child [OF assms(2)])
  moreover have "sstep conf env asks ?s1 (Asks ne) ?s2"
    by (rule sstep.World) (use assms child_asks [of ?s1 ?ch asks ne] in simp_all)
  moreover have "sstep conf env asks ?s2 Answers ?s3"
    by (rule sstep.Loop) (use assms answer [of ?s2 c "?ch\<lparr>chAsked := True, chPipe := Some ne\<rparr>" ne env ?a]
      in \<open>simp_all add: answerNodes_def ServIntersect_select\<close>)
  moreover have "sstep conf env asks ?s3 ChildEnds ?s4"
    by (rule sstep.World) (use assms(1) child_ends [of ?s3 "?ch\<lparr>chAsked := True\<rparr>" asks] in simp_all)
  moreover have "sstep conf env asks ?s4 Waited ?s5"
    by (rule sstep.Loop) (use assms(1) waited [of ?s4 c "?ch\<lparr>chAsked := True, chAlive := False\<rparr>" conf env] in simp_all)
  ultimately have "ssteps conf env asks s [StartChild c, Asks ne, Answers, ChildEnds, Waited] ?s5"
    by (intro ssteps_Cons [OF _ ssteps_Cons [OF _ ssteps_Cons [OF _ ssteps_Cons [OF _ ssteps_Cons [OF _ NoSteps]]]]])
  then show ?thesis using assms(1) by (intro exI [of _ ?s5]) simp
qed


section \<open>The child process of this program\<close>

text \<open>
  The lists that gproc itself sends when it is started as a child: those \<^verbatim>\<open>slaveProc\<close> asks for, if
  \<^verbatim>\<open>main\<close> takes the role with these arguments.
\<close>

definition gprocAsks :: "string option \<Rightarrow> string list \<Rightarrow> nodeExecList \<Rightarrow> bool" where
  "gprocAsks host argv ne \<longleftrightarrow>
     (\<exists>conf listen (env :: unit env) ce received st run st'.
        mainStart host (tl argv) = Some (Started conf listen RoleRun) \<and>
        slaveProc conf env ce received (st :: unit node) = Some (run, st') \<and> crAsked run = Some ne)"

lemma childArgv_silent: "\<not> gprocAsks host (childArgv conf i) ne"
  by (simp add: gprocAsks_def mainStart_def childArgv_none)

definition silent_inv :: "'c slaveRun \<Rightarrow> bool" where
  "silent_inv s \<longleftrightarrow> srAnswered s = [] \<and> (\<forall>ch. srChild s = Some ch \<longrightarrow> chPipe ch = None) \<and>
     (\<forall>c. srLoop s \<noteq> AtWait c) \<and>
     (srChild s \<noteq> None \<longrightarrow> srStarted s \<noteq> [])"

lemma silent_inv_step:
  assumes "sstep conf env (gprocAsks host) s l t" and inv: "silent_inv s"
    and argv: "argv_inv conf s"
  shows "silent_inv t"
  using assms(1)
proof cases
  case Main
  from Main(2) show ?thesis by cases (use inv in \<open>simp_all add: silent_inv_def\<close>)
next
  case Register
  from Register(2) show ?thesis by cases (use inv in \<open>simp_all add: silent_inv_def\<close>)
next
  case Loop
  from Loop(2) show ?thesis by cases (use inv in \<open>auto simp: silent_inv_def\<close>)
next
  case World
  from World(2) show ?thesis
  proof cases
    case (child_asks ch ne)
    with inv have "last (srStarted s) \<in> set (srStarted s)" by (simp add: silent_inv_def)
    with argv have "last (srStarted s) = childArgv conf (srId s)" unfolding argv_inv_def by blast
    with child_asks show ?thesis using childArgv_silent by metis
  qed (use inv in \<open>auto simp: silent_inv_def\<close>)
qed

text \<open>
  C9. The slave of this program starts one child at most and answers none: its child refuses its
  arguments and ends without asking for its nodes, and the goroutine that started it never
  accepts another connection. It blocks on the pipe whose writing end it holds itself, or
  returns when the collector has closed that end.
\<close>
theorem slave_serves_once:
  assumes "ssteps conf env (gprocAsks host) (runSlave uid conf) ls s"
  shows "srAnswered s = [] \<and> length (srStarted s) \<le> 1 \<and> (srStarted s \<noteq> [] \<longrightarrow> srLoop s \<noteq> AtAccept)"
proof -
  have "silent_inv s"
    using assms
  proof (induction rule: ssteps.induct)
    case NoSteps
    show ?case by (simp add: silent_inv_def runSlave_def)
  next
    case (OneMore ls t l u)
    then show ?case using silent_inv_step ssteps_inv by metis
  qed
  then have none: "srAnswered s = []" by (simp add: silent_inv_def)
  from ssteps_inv [OF assms] have "loop_inv s" by blast
  with none show ?thesis by (auto simp: loop_inv_def split: acceptPc.splits)
qed

section \<open>An example\<close>

definition demoSlaveConf :: config where
  "demoSlaveConf = defaultConfig\<lparr>cfDoPrivateMount := False, cfParent := ''10.0.0.1'', cfMyAddress := ''10.0.0.7'', cfMyId := ''7''\<rparr>"

definition demoJoin :: "unit slabel list" where
  "demoJoin = [Dialled ''10.0.0.1:6666'' ''10.0.0.7:40'' ''10.0.0.1:6666'', Listening ''10.0.0.7:0'' ''10.0.0.7:50'',
     JoinReply (Some ''7''), RegListening, Join ''10.0.0.1:41'' () vd1]"

lemma demo_joins:
  "\<exists>s. ssteps demoSlaveConf calmEnv asks (runSlave 0 demoSlaveConf) demoJoin s \<and> srEnd s = None \<and>
     srLoop s = AtAccept \<and> srId s = ''7'' \<and> srStarted s = [] \<and> srAnswered s = []"
proof -
  let ?c = demoSlaveConf
  have a: "masterAddr ?c = ''10.0.0.1:6666''" "peerAddr ''10.0.0.7:40'' = ''10.0.0.7:0''" "slaveChecks 0 ?c = None"
    by (simp_all add: demoSlaveConf_def defaultConfig_def masterAddr_def peerAddr_def slaveChecks_def split_def)
  let ?s0 = "runSlave 0 ?c :: unit slaveRun"
  let ?s1 = "?s0\<lparr>srMain := AtListen ''10.0.0.7:40'' ''10.0.0.1:6666''\<rparr>"
  let ?s2 = "?s1\<lparr>srMain := AtJoin (slaveVital ?c ''10.0.0.7:40'' ''10.0.0.1:6666'' ''10.0.0.7:50'')\<rparr>"
  let ?s3 = "?s2\<lparr>srMain := AtMaster, srId := ''7'', srReg := RegListen, srLoop := AtAccept\<rparr>"
  let ?s4 = "?s3\<lparr>srReg := RegLoop, srNode := (srNode ?s3)\<lparr>nSlaves := newSlaves\<rparr>\<rparr>"
  obtain resp m where r: "registerSlave ''10.0.0.1:41'' () (Some vd1) (srNode ?s4) = (Inr resp, m)"
    by (simp add: registerSlave_def fixServerAddr_def vd1_def Add_def Let_def)
  let ?s5 = "?s4\<lparr>srNode := m\<rparr>"
  have e: "srEnd ?s0 = None" by (simp add: runSlave_def a)
  have "sstep ?c calmEnv asks ?s0 (Dialled ''10.0.0.1:6666'' ''10.0.0.7:40'' ''10.0.0.1:6666'') ?s1"
    by (rule sstep.Main [OF e]) (rule dialled [of ?s0 ?c, unfolded a], simp add: runSlave_def)
  moreover have "sstep ?c calmEnv asks ?s1 (Listening ''10.0.0.7:0'' ''10.0.0.7:50'') ?s2"
    by (rule sstep.Main) (simp add: e, rule listening [of ?s1 "''10.0.0.7:40''" _ ?c, unfolded a], simp)
  moreover have "sstep ?c calmEnv asks ?s2 (JoinReply (Some ''7'')) ?s3"
    by (rule sstep.Main) (simp add: e, rule joined, simp, simp add: initSlave_def)
  moreover have "sstep ?c calmEnv asks ?s3 RegListening ?s4"
    by (rule sstep.Register) (simp add: e, rule reg_listening, simp)
  moreover have "sstep ?c calmEnv asks ?s4 (Join ''10.0.0.1:41'' () vd1) ?s5"
    by (rule sstep.Register) (simp add: e, rule join [OF _ r], simp)
  ultimately have "ssteps ?c calmEnv asks ?s0 demoJoin ?s5"
    unfolding demoJoin_def
    by (intro ssteps_Cons [OF _ ssteps_Cons [OF _ ssteps_Cons [OF _ ssteps_Cons [OF _ ssteps_Cons [OF _ NoSteps]]]]])
  then show ?thesis by (intro exI [of _ ?s5]) (simp add: e, simp add: runSlave_def)
qed

definition demoDot :: nodeExecList where
  "demoDot = \<lparr>Nodes = [''.''], Subnodes = []\<rparr>"

text \<open>The slave joins its parent, a slave joins it, and a child asks for all nodes.\<close>

lemma demo_served:
  "\<exists>s a. ssteps demoSlaveConf calmEnv (\<lambda>_ ne. ne = demoDot) (runSlave 0 demoSlaveConf)
      (demoJoin @ [StartChild (), Asks demoDot, Answers, ChildEnds, Waited]) s \<and>
     srEnd s = None \<and> srLoop s = AtAccept \<and> srAnswered s = [(demoDot, a)] \<and> srStarted s \<noteq> []"
proof -
  obtain s where s: "ssteps demoSlaveConf calmEnv (\<lambda>_ ne. ne = demoDot) (runSlave 0 demoSlaveConf) demoJoin s"
      "srEnd s = None" "srLoop s = AtAccept" "srAnswered s = []"
    using demo_joins by blast
  obtain t a where t: "ssteps demoSlaveConf calmEnv (\<lambda>_ ne. ne = demoDot) s
        [StartChild (), Asks demoDot, Answers, ChildEnds, Waited] t"
      "srEnd t = None" "srLoop t = AtAccept" "srAnswered t = [(demoDot, a)]"
    using serve_one [OF s(2,3), of demoDot "\<lambda>_ ne. ne = demoDot" demoSlaveConf calmEnv "()"] s(4)
    by (auto simp: demoDot_def)
  note run = ssteps_trans [OF t(1) s(1)]
  have "loop_inv t" using ssteps_inv [OF run] by blast
  with t(3,4) have "srStarted t \<noteq> []" by (auto simp: loop_inv_def)
  with run t show ?thesis by blast
qed

theorem slave_run_witness:
  "\<exists>s. ssteps demoSlaveConf calmEnv (\<lambda>_ ne. ne = demoDot) (runSlave 0 demoSlaveConf)
      (demoJoin @ [StartChild (), Asks demoDot, Answers, ChildEnds, Waited]) s \<and>
     set (srStarted s) = {childArgv demoSlaveConf ''7''} \<and> length (srStarted s) = 1"
proof -
  from demo_served obtain s a where
    s: "ssteps demoSlaveConf calmEnv (\<lambda>_ ne. ne = demoDot) (runSlave 0 demoSlaveConf)
      (demoJoin @ [StartChild (), Asks demoDot, Answers, ChildEnds, Waited]) s"
      "srLoop s = AtAccept" "srAnswered s = [(demoDot, a)]" "srStarted s \<noteq> []" by blast
  from slave_run [OF s(1)] s(2-4) have "length (srStarted s) = 1" "set (srStarted s) = {childArgv demoSlaveConf ''7''}"
    by (auto simp: demoJoin_def)
  with s(1) show ?thesis by blast
qed



theorem slave_serves_once_witness:
  "\<exists>s. ssteps demoSlaveConf calmEnv (gprocAsks (Some ''n7'')) (runSlave 0 demoSlaveConf) (demoJoin @ [StartChild ()]) s \<and>
     length (srStarted s) = 1 \<and> srLoop s \<noteq> AtAccept \<and> srAnswered s = []"
proof -
  obtain s where s: "ssteps demoSlaveConf calmEnv (gprocAsks (Some ''n7'')) (runSlave 0 demoSlaveConf) demoJoin s"
      "srEnd s = None" "srLoop s = AtAccept" "srStarted s = []"
    using demo_joins by blast
  let ?t = "s\<lparr>srLoop := AtRecv (), srStarted := srStarted s @ [childArgv demoSlaveConf (srId s)], srWriter := True,
         srChild := Some \<lparr>chAlive = True, chAsked = False, chPipe = None\<rparr>\<rparr>"
  have "sstep demoSlaveConf calmEnv (gprocAsks (Some ''n7'')) s (StartChild ()) ?t"
    by (rule sstep.Loop [OF s(2)]) (rule start_child [OF s(3)])
  with s(1) have run: "ssteps demoSlaveConf calmEnv (gprocAsks (Some ''n7'')) (runSlave 0 demoSlaveConf)
      (demoJoin @ [StartChild ()]) ?t" by (rule OneMore)
  from slave_serves_once [OF run] have "srAnswered ?t = []" by blast
  with run s(4) show ?thesis by (intro exI [of _ ?t]) simp
qed

end
