(* ===== verification/Rpc.thy ===== *)
theory Rpc
  imports FileTransfer
begin

text \<open>
  The connections of gproc (\<^verbatim>\<open>src/src/gproc/common.go\<close>): how they are opened, and the pairs of an
  encoder and a decoder through which every message goes. The network is a parameter, a
  computation for each call of package \<^verbatim>\<open>net\<close>; a hook is a function on its state.
\<close>

section \<open>Opening connections\<close>

record ('a, 'c, 'l, 'f, 's) network =
  ntResolve :: "string \<Rightarrow> (string + 'a)"
  ntZeroAddr :: 'a
  ntDialTCP :: "string \<Rightarrow> 'a option \<Rightarrow> 'a option \<Rightarrow> ('s, string, 'c) gm"
  ntDial :: "string \<Rightarrow> string \<Rightarrow> ('s, string, 'c) gm"
  ntListen :: "string \<Rightarrow> string \<Rightarrow> ('s, string, 'l) gm"
  ntAccept :: "'l \<Rightarrow> ('s, string, 'c) gm"
  ntFile :: "'c \<Rightarrow> ('s, string, 'f) gm"
  ntClose :: "'c \<Rightarrow> 's \<Rightarrow> 's"

definition callHook :: "('h \<Rightarrow> 's \<Rightarrow> 's) option \<Rightarrow> 'h \<Rightarrow> 's \<Rightarrow> 's" where
  "callHook hook x s = (case hook of None \<Rightarrow> s | Some h \<Rightarrow> h x s)"

text \<open>The result of a function whose error is dropped.\<close>

definition orNil :: "'e + 'a \<Rightarrow> 'a option" where
  "orNil r = (case r of Inl _ \<Rightarrow> None | Inr a \<Rightarrow> Some a)"

definition Dial ::
  "('a, 'c, 'l, 'f, 's) network \<Rightarrow> (string \<times> string \<times> string \<Rightarrow> 's \<Rightarrow> 's) option \<Rightarrow> string \<Rightarrow> string \<Rightarrow> string
     \<Rightarrow> ('s, string, 'c) gm" where
  "Dial net hook fam laddr raddr s =
     (let s0 = callHook hook (fam, laddr, raddr) s
      in if fam = ''tcp''
         then ntDialTCP net fam (orNil (ntResolve net laddr)) (orNil (ntResolve net raddr)) s0
         else ntDial net fam raddr s0)"

definition Listen ::
  "('a, 'c, 'l, 'f, 's) network \<Rightarrow> (string \<times> string \<Rightarrow> 's \<Rightarrow> 's) option \<Rightarrow> string \<Rightarrow> string \<Rightarrow> ('s, string, 'l) gm" where
  "Listen net hook fam laddr s = ntListen net fam laddr (callHook hook (fam, laddr) s)"

definition acceptConn ::
  "('a, 'c, 'l, 'f, 's) network \<Rightarrow> ('c \<Rightarrow> 's \<Rightarrow> 's) option \<Rightarrow> 'l \<Rightarrow> ('s, string, 'c) gm" where
  "acceptConn net hook l s =
     (case ntAccept net l s of
        (Inl e, t) \<Rightarrow> (Inl e, t)
      | (Inr c, t) \<Rightarrow> (Inr c, callHook hook c t))"

definition fileTcpDial ::
  "('a, 'c, 'l, 'f, 's) network \<Rightarrow> string \<Rightarrow> string \<Rightarrow> ('s, string, 'f \<times> 'c) gm" where
  "fileTcpDial net fam server s =
     (case ntResolve net server of
        Inl e \<Rightarrow> (Inl e, s)
      | Inr raddr \<Rightarrow>
          (case ntDialTCP net fam (Some (ntZeroAddr net)) (Some raddr) s of
             (Inl e, t) \<Rightarrow> (Inl e, t)
           | (Inr c, t) \<Rightarrow>
               (case ntFile net c t of
                  (Inl e, u) \<Rightarrow> (Inl e, ntClose net c u)
                | (Inr f, u) \<Rightarrow> (Inr (f, c), u))))"

text \<open>
  What package \<^verbatim>\<open>net\<close> does to the open connections and files of the process: a call that
  fails opens nothing, one that succeeds opens what it returns.
\<close>

definition lawfulNet :: "('a, 'c, 'l, 'f, 's) network \<Rightarrow> ('s \<Rightarrow> 'c set) \<Rightarrow> ('s \<Rightarrow> 'f set) \<Rightarrow> bool" where
  "lawfulNet net conns files \<longleftrightarrow>
     (\<forall>fam la ra s. case ntDialTCP net fam la ra s of
        (Inl _, t) \<Rightarrow> conns t = conns s \<and> files t = files s
      | (Inr c, t) \<Rightarrow> c \<notin> conns s \<and> conns t = insert c (conns s) \<and> files t = files s) \<and>
     (\<forall>c s. case ntFile net c s of
        (Inl _, t) \<Rightarrow> conns t = conns s \<and> files t = files s
      | (Inr f, t) \<Rightarrow> f \<notin> files s \<and> conns t = conns s \<and> files t = insert f (files s)) \<and>
     (\<forall>c s. conns (ntClose net c s) = conns s - {c} \<and> files (ntClose net c s) = files s)"

lemma lawfulNet_dial: "lawfulNet net conns files \<Longrightarrow> ntDialTCP net fam la ra s = (r, t) \<Longrightarrow>
    case r of Inl _ \<Rightarrow> conns t = conns s \<and> files t = files s
    | Inr c \<Rightarrow> c \<notin> conns s \<and> conns t = insert c (conns s) \<and> files t = files s"
  unfolding lawfulNet_def by (metis (mono_tags, lifting) case_prod_conv)

lemma lawfulNet_file: "lawfulNet net conns files \<Longrightarrow> ntFile net c s = (r, t) \<Longrightarrow>
    case r of Inl _ \<Rightarrow> conns t = conns s \<and> files t = files s
    | Inr f \<Rightarrow> f \<notin> files s \<and> conns t = conns s \<and> files t = insert f (files s)"
  unfolding lawfulNet_def by (metis (mono_tags, lifting) case_prod_conv)

lemma lawfulNet_close: "lawfulNet net conns files \<Longrightarrow>
    conns (ntClose net c s) = conns s - {c} \<and> files (ntClose net c s) = files s"
  unfolding lawfulNet_def by blast

section \<open>What is written to the log about a message\<close>

datatype iokind = ConnIo string string | FileIo nat | OtherIo

abbreviation sendDir :: goint where "sendDir \<equiv> 0"
abbreviation recvDir :: goint where "recvDir \<equiv> 1"

text \<open>\<^verbatim>\<open>%8s\<close>.\<close>

definition pad8 :: "string \<Rightarrow> string" where
  "pad8 s = replicate (8 - length s) CHR '' '' @ s"

definition IoString :: "iokind \<Rightarrow> goint \<Rightarrow> string" where
  "IoString i dir =
     (case i of
        ConnIo la ra \<Rightarrow>
          (if dir = sendDir then pad8 la @ '' -> '' @ pad8 ra
           else if dir = recvDir then pad8 la @ '' <- '' @ pad8 ra
           else ''<unknown io>'')
      | FileIo fd \<Rightarrow> digits fd
      | OtherIo \<Rightarrow> ''<unknown io>'')"

datatype 'e rpcLine =
    SendPrint string string
  | SendError string encerr
  | RecvPrint string iokind
  | RecvError string "'e decerr"

section \<open>Encoder and decoder of a connection\<close>

record ('x, 'w, 'o, 'e) rpc =
  rpcE :: "'x \<Rightarrow> ('w, encerr, unit) gm"
  rpcD :: "'x gobmsg list \<Rightarrow> 'o \<Rightarrow> ('e decerr + 'x \<times> fmFile list) \<times> 'x gobmsg list \<times> 'o"

definition NewEncoder ::
  "('x gobmsg \<Rightarrow> ('w, encerr, unit) gm) \<Rightarrow> disk \<Rightarrow> ('x \<Rightarrow> fmFile list) \<Rightarrow> 'x \<Rightarrow> ('w, encerr, unit) gm" where
  "NewEncoder enc disk filesOf = Encode enc disk filesOf"

definition NewDecoder ::
  "('o, 'e) os \<Rightarrow> string \<Rightarrow> ('x \<Rightarrow> fmFile list) \<Rightarrow> 'x gobmsg list \<Rightarrow> 'o
     \<Rightarrow> ('e decerr + 'x \<times> fmFile list) \<times> 'x gobmsg list \<times> 'o" where
  "NewDecoder os root filesOf = Decode os root filesOf"

definition NewRpcClientServer ::
  "('x gobmsg \<Rightarrow> ('w, encerr, unit) gm) \<Rightarrow> ('o, 'e) os \<Rightarrow> disk \<Rightarrow> ('x \<Rightarrow> fmFile list) \<Rightarrow> string
     \<Rightarrow> ('x, 'w, 'o, 'e) rpc" where
  "NewRpcClientServer enc os disk filesOf root =
     \<lparr>rpcE = NewEncoder enc disk filesOf, rpcD = NewDecoder os root filesOf\<rparr>"

text \<open>
  \<^verbatim>\<open>Send\<close> logs an error and does not return it. The pair itself is what \<^verbatim>\<open>SendPrint\<close> gives to
  \<^verbatim>\<open>IoString\<close>, so the line never names the connection.
\<close>

definition Send :: "('x, 'w, 'o, 'e) rpc \<Rightarrow> string \<Rightarrow> 'x \<Rightarrow> 'w \<Rightarrow> 'w \<times> 'e rpcLine list" where
  "Send r funcname arg w =
     (case rpcE r arg w of
        (Inl err, w') \<Rightarrow> (w', [SendPrint funcname (IoString OtherIo sendDir), SendError funcname err])
      | (Inr _, w') \<Rightarrow> (w', [SendPrint funcname (IoString OtherIo sendDir)]))"

definition Recv ::
  "('x, 'w, 'o, 'e) rpc \<Rightarrow> string \<Rightarrow> 'x gobmsg list \<Rightarrow> 'o
     \<Rightarrow> (('e decerr + 'x \<times> fmFile list) \<times> 'x gobmsg list \<times> 'o) \<times> 'e rpcLine list" where
  "Recv r funcname ms s =
     (case rpcD r ms s of
        (Inl err, ms', t) \<Rightarrow> ((Inl err, ms', t), [RecvError funcname err])
      | (Inr v, ms', t) \<Rightarrow> ((Inr v, ms', t), [RecvPrint funcname OtherIo]))"

fun sendAll :: "('x, 'w, 'o, 'e) rpc \<Rightarrow> string \<Rightarrow> 'x list \<Rightarrow> 'w \<Rightarrow> 'w \<times> 'e rpcLine list" where
  "sendAll r funcname [] w = (w, [])"
| "sendAll r funcname (x # xs) w =
     (case Send r funcname x w of (w1, ls1) \<Rightarrow>
      case sendAll r funcname xs w1 of (w2, ls2) \<Rightarrow> (w2, ls1 @ ls2))"

lemma Send_cut:
  assumes enc: "lawfulEncoder out (\<lambda>m. [m]) enc"
    and send: "Send (NewRpcClientServer enc os disk filesOf root) fn x w = (w', ls)"
  shows "\<exists>k. out w' = out w @ take k (wireOf disk filesOf x) \<and>
    ((\<forall>e. SendError fn e \<notin> set ls) \<longrightarrow> length (wireOf disk filesOf x) \<le> k)"
proof -
  have s: "sendsE UNIV out (Encode enc disk filesOf x) (concat (map (\<lambda>m. [m]) (wireOf disk filesOf x)))"
    by (rule Encode_sendsE [OF enc]) simp_all
  obtain r w1 where e: "Encode enc disk filesOf x w = (r, w1)" by (cases "Encode enc disk filesOf x w")
  show ?thesis
  proof (cases r)
    case (Inl err)
    with sends_Inl [OF s, of w err w1] e obtain k where "out w1 = out w @ take k (wireOf disk filesOf x)" by auto
    with e Inl send show ?thesis
      by (intro exI [of _ k]) (auto simp: Send_def NewRpcClientServer_def NewEncoder_def)
  next
    case (Inr u)
    with sends_Inr [OF s] e have "out w1 = out w @ wireOf disk filesOf x" by auto
    with e Inr send show ?thesis
      by (intro exI [of _ "length (wireOf disk filesOf x)"])
        (auto simp: Send_def NewRpcClientServer_def NewEncoder_def)
  qed
qed

lemma sendAll_cuts:
  assumes enc: "lawfulEncoder out (\<lambda>m. [m]) enc"
  shows "sendAll (NewRpcClientServer enc os disk filesOf root) fn xs w = (w', ls) \<Longrightarrow>
    \<exists>xks. map fst xks = xs \<and>
      out w' = out w @ concat (map (\<lambda>(x, k). take k (wireOf disk filesOf x)) xks) \<and>
      ((\<forall>e. SendError fn e \<notin> set ls) \<longrightarrow> (\<forall>(x, k)\<in>set xks. length (wireOf disk filesOf x) \<le> k))"
proof (induction xs arbitrary: w ls)
  case Nil
  then show ?case by simp
next
  case (Cons x xs)
  let ?r = "NewRpcClientServer enc os disk filesOf root"
  obtain w1 ls1 where a: "Send ?r fn x w = (w1, ls1)" by (cases "Send ?r fn x w")
  obtain ls2 where b: "sendAll ?r fn xs w1 = (w', ls2)" and ls: "ls = ls1 @ ls2"
    using Cons.prems a by (auto split: prod.splits)
  from Send_cut [OF enc a] obtain k where k: "out w1 = out w @ take k (wireOf disk filesOf x)"
    "(\<forall>e. SendError fn e \<notin> set ls1) \<longrightarrow> length (wireOf disk filesOf x) \<le> k" by blast
  from Cons.IH [OF b] obtain xks where x: "map fst xks = xs"
    "out w' = out w1 @ concat (map (\<lambda>(x, k). take k (wireOf disk filesOf x)) xks)"
    "(\<forall>e. SendError fn e \<notin> set ls2) \<longrightarrow> (\<forall>(x, k)\<in>set xks. length (wireOf disk filesOf x) \<le> k)" by blast
  show ?case by (rule exI [of _ "(x, k) # xks"]) (use k x ls in auto)
qed

section \<open>Properties\<close>

text \<open>
  C18. Values sent one after the other, with every error of sending dropped as \<^verbatim>\<open>Send\<close> does:
  whatever part of each value the connection took and whichever files could not be opened, the
  receiver, up to its first error, gets a subsequence of the values that were sent, each of them whole
  and with its files, and nothing that is made of parts of two. Without an error in sending
  it gets all of them.
\<close>
theorem rpc_subsequence:
  fixes enc :: "'x gobmsg \<Rightarrow> ('w, encerr, unit) gm" and fails :: "oscall list \<Rightarrow> oscall \<Rightarrow> 'e option"
  assumes enc: "lawfulEncoder out (\<lambda>m. [m]) enc" and "out w = []" and ok: "dataOk fails" "\<forall>x\<in>set xs. linksOk (filesOf x)"
    and sent: "sendAll (NewRpcClientServer enc (logOs fails) disk filesOf root) fn xs w = (w', ls)"
  shows "\<exists>ys. subseq ys xs \<and>
    fst (getN (\<lambda>ms s. fst (Recv (NewRpcClientServer enc (logOs fails) disk filesOf root) fn ms s))
      (Suc (length xs)) (out w') log) = map (\<lambda>x. (x, delivered root (filesOf x))) ys \<and>
    ((\<forall>e. SendError fn e \<notin> set ls) \<longrightarrow> ys = xs)"
proof -
  let ?len = "\<lambda>x. length (wireOf disk filesOf x)"
  have recv: "(\<lambda>ms s. fst (Recv (NewRpcClientServer enc (logOs fails) disk filesOf root) fn ms s)) =
      Decode (logOs fails) root filesOf"
    by (intro ext) (simp add: Recv_def NewRpcClientServer_def NewDecoder_def split: prod.split sum.split)
  from sendAll_cuts [OF enc sent] obtain xks where xks: "map fst xks = xs"
    "out w' = concat (map (\<lambda>(x, k). take k (wireOf disk filesOf x)) xks)"
    "(\<forall>e. SendError fn e \<notin> set ls) \<longrightarrow> (\<forall>(x, k)\<in>set xks. ?len x \<le> k)" using assms(2) by auto
  have sub: "subseq (kept ?len xks) xs" using kept_subseq [of ?len xks] xks(1) by simp
  have "\<forall>(x, k)\<in>set xks. dataOk fails \<and> linksOk (filesOf x)" using ok xks(1) by force
  then have "fst (getN (Decode (logOs fails) root filesOf) (Suc (length xs))
      (concat (map (\<lambda>(x, k). take k (wireOf disk filesOf x)) xks)) log) =
      map (\<lambda>x. (x, delivered root (filesOf x))) (kept ?len xks)"
    by (rule filecuts.getN_cuts) (use list_emb_length [OF sub] in simp)
  moreover have "kept ?len xks = xs" if "\<forall>(x, k)\<in>set xks. ?len x \<le> k"
  proof -
    have "0 < k" if "?len x \<le> k" for x k using that by (cases k) (simp_all add: wireOf_def Let_def)
    with that have "\<forall>(x, k)\<in>set xks. 0 < k \<and> ?len x \<le> k" by blast
    from kept_all [of xks ?len, OF this] xks(1) show ?thesis by simp
  qed
  ultimately show ?thesis using sub xks(2,3) unfolding recv by auto
qed

text \<open>
  \<^verbatim>\<open>fileTcpDial\<close> leaks nothing: when it returns an error the open connections and files are those
  of before, also where the connection was made and only the file failed; otherwise exactly
  the connection and the file it returns were added.
\<close>
theorem fileTcpDial_handles:
  assumes "lawfulNet net conns files" and "fileTcpDial net fam server s = (r, t)"
  shows "case r of
      Inl _ \<Rightarrow> conns t = conns s \<and> files t = files s
    | Inr (f, c) \<Rightarrow> c \<notin> conns s \<and> f \<notin> files s \<and> conns t = insert c (conns s) \<and> files t = insert f (files s)"
proof (cases "ntResolve net server")
  case (Inr raddr)
  obtain d u where d: "ntDialTCP net fam (Some (ntZeroAddr net)) (Some raddr) s = (d, u)"
    by (cases "ntDialTCP net fam (Some (ntZeroAddr net)) (Some raddr) s")
  note dial = lawfulNet_dial [OF assms(1) d]
  show ?thesis
  proof (cases d)
    case (Inr c)
    obtain g v where g: "ntFile net c u = (g, v)" by (cases "ntFile net c u")
    note lawfulNet_file [OF assms(1) g] lawfulNet_close [OF assms(1), of c v]
    with dial Inr \<open>ntResolve net server = Inr raddr\<close> d g assms(2) show ?thesis
      by (cases g) (auto simp: fileTcpDial_def)
  qed (use Inr d dial assms(2) in \<open>auto simp: fileTcpDial_def\<close>)
qed (use assms(2) in \<open>auto simp: fileTcpDial_def\<close>)

section \<open>Examples\<close>

text \<open>A network whose connections and files are numbered; making a file of a connection fails.\<close>

definition demoNet :: "(string, nat, unit, nat, nat set \<times> nat set) network" where
  "demoNet =
     \<lparr>ntResolve = Inr, ntZeroAddr = [],
      ntDialTCP = (\<lambda>fam la ra (cs, fs). if 5 \<in> cs then (Inl ''refused'', (cs, fs)) else (Inr 5, (insert 5 cs, fs))),
      ntDial = (\<lambda>fam ra s. (Inl ''refused'', s)), ntListen = (\<lambda>fam la s. (Inr (), s)),
      ntAccept = (\<lambda>l s. (Inl ''closed'', s)), ntFile = (\<lambda>c s. (Inl ''no file'', s)),
      ntClose = (\<lambda>c (cs, fs). (cs - {c}, fs))\<rparr>"

theorem fileTcpDial_handles_witness:
  "fileTcpDial demoNet ''tcp4'' ''10.0.0.1:80'' ({}, {}) = (Inl ''no file'', ({}, {}))"
proof -
  have "lawfulNet demoNet fst snd" by (auto simp: lawfulNet_def demoNet_def split: prod.split)
  moreover obtain r t where r: "fileTcpDial demoNet ''tcp4'' ''10.0.0.1:80'' ({}, {}) = (r, t)"
    by (cases "fileTcpDial demoNet ''tcp4'' ''10.0.0.1:80'' ({}, {})")
  moreover from r have "r = Inl ''no file''" by (auto simp: fileTcpDial_def demoNet_def)
  ultimately show ?thesis
    using fileTcpDial_handles [of demoNet fst snd "''tcp4''" "''10.0.0.1:80''" "({}, {})" r t] by (simp add: prod_eq_iff)
qed

theorem rpc_subsequence_witness:
  "\<exists>w' ls ys. sendAll (NewRpcClientServer demoEnc (logOs (\<lambda>_ _. None :: unit option)) demoDisk (\<lambda>_. [demoFile]) ''/r'')
        ''f'' [5 :: nat, 6] (5, []) = (w', ls) \<and>
     subseq ys [5, 6] \<and>
     fst (getN (\<lambda>ms s. fst (Recv (NewRpcClientServer demoEnc (logOs (\<lambda>_ _. None :: unit option)) demoDisk (\<lambda>_. [demoFile]) ''/r'')
        ''f'' ms s)) 3 (snd w') []) = map (\<lambda>x. (x, [demoFile])) ys"
proof -
  let ?r = "NewRpcClientServer demoEnc (logOs (\<lambda>_ _. None :: unit option)) demoDisk (\<lambda>_. [demoFile]) ''/r''"
  have l: "\<forall>x\<in>set [5 :: nat, 6]. linksOk [demoFile]" by (simp add: demoLinks)
  obtain w' ls where s: "sendAll ?r ''f'' [5 :: nat, 6] (5, []) = (w', ls)"
    by (cases "sendAll ?r ''f'' [5 :: nat, 6] (5, [])")
  have d: "delivered ''/r'' [demoFile] = [demoFile]"
    by (simp add: delivered_def demoFirsts demoFields rooted_def)
  have len: "Suc (length [5 :: nat, 6]) = 3" by simp
  have out: "snd (5 :: nat, []) = []" by simp
  from rpc_subsequence [where filesOf = "\<lambda>_. [demoFile]" and xs = "[5 :: nat, 6]" and log = "[]", OF demoEnc_lawful out demoOk l s]
  obtain ys where "subseq ys [5, 6]"
    "fst (getN (\<lambda>ms s. fst (Recv ?r ''f'' ms s)) 3 (snd w') []) = map (\<lambda>x. (x, [demoFile])) ys"
    unfolding d len by (elim exE conjE) (rule that)
  with s show ?thesis by (intro exI conjI)
qed

end
