(* ===== verification/Platform.thy ===== *)
theory Platform
  imports Slave
begin

text \<open>
  The private mount of a child process: \<^verbatim>\<open>doPrivateMount\<close> of \<^verbatim>\<open>src/src/gproc/common.go\<close> with \<^verbatim>\<open>unshare\<close>
  and \<^verbatim>\<open>privatemount\<close> of \<^verbatim>\<open>bproc_linux.go\<close> and \<^verbatim>\<open>bproc_darwin.go\<close>, and the beginning of \<^verbatim>\<open>slaveProc\<close>
  that calls it. The kernel is the parameter \<open>sys\<close>, which gives the error number of a call. Last, \<^verbatim>\<open>ucred\<close> of the five builds
  and \<^verbatim>\<open>getIfc\<close>, which nothing calls.
\<close>

section \<open>Operations\<close>

datatype platform = Linux | Darwin

datatype syscall =
    Mkdir string "32 word"
  | Unshare "64 word"
  | Unmount string goint
  | Mount string string string "64 word" "64 word" "64 word"

datatype mountPanic = MountIndex | MountError string

type_synonym 's kernel = "syscall \<Rightarrow> 's \<Rightarrow> goint \<times> 's"

text \<open>
  \<^verbatim>\<open>mount\<close> is given the addresses of byte slices, and the kernel reads on to the next zero byte: \<open>after\<close>
  has what lies in memory behind each of the three slices.
\<close>

definition kernelString :: "string \<Rightarrow> string \<Rightarrow> string" where
  "kernelString bytes behind = takeWhile (\<lambda>c. c \<noteq> CHR 0x00) (bytes @ behind)"

definition linuxhack :: "64 word" where
  "linuxhack = 0xC0ED0000"

definition unshare :: "platform \<Rightarrow> 's kernel \<Rightarrow> ('s, mountPanic, goint) gm" where
  "unshare pl sys s =
     (case pl of
        Linux \<Rightarrow> (case sys (Unshare 0x20000) s of (e, t) \<Rightarrow> (Inr e, t))
      | Darwin \<Rightarrow> (Inl (MountError ''privatemount called on OSX''), s))"

definition privatemount ::
  "platform \<Rightarrow> 's kernel \<Rightarrow> (nat \<Rightarrow> string) \<Rightarrow> string \<Rightarrow> ('s, mountPanic, goint) gm" where
  "privatemount pl sys after pathbase s =
     (case pl of
        Linux \<Rightarrow>
          (if pathbase = [] then (Inl MountIndex, s)
           else (case sys (Mount (kernelString ''none'' (after 0)) (kernelString pathbase (after 1))
                            (kernelString ''tmpfs'' (after 2)) linuxhack 0 0) s of
                   (e, t) \<Rightarrow> (Inr e, t)))
      | Darwin \<Rightarrow> (Inl (MountError ''privatemount called on OSX''), s))"

text \<open>The argument is not used; the results of \<^verbatim>\<open>unshare\<close> and \<^verbatim>\<open>Unmount\<close> are dropped.\<close>

definition doPrivateMount ::
  "platform \<Rightarrow> 's kernel \<Rightarrow> (nat \<Rightarrow> string) \<Rightarrow> config \<Rightarrow> string \<Rightarrow> ('s, mountPanic, unit) gm" where
  "doPrivateMount pl sys after conf pathbase =
     andThen (unshare pl sys) (\<lambda>_.
     andThen (modify (\<lambda>s. snd (sys (Unmount (cfBinRoot conf) 0) s))) (\<lambda>_.
     andThen (privatemount pl sys after (cfBinRoot conf)) (\<lambda>syscallerr.
     if syscallerr \<noteq> 0 then raise (MountError (''Mount failed  '' @ itoa syscallerr)) else ret ())))"

definition prepareRoot :: "platform \<Rightarrow> 's kernel \<Rightarrow> (nat \<Rightarrow> string) \<Rightarrow> config \<Rightarrow> ('s, mountPanic, unit) gm" where
  "prepareRoot pl sys after conf =
     andThen (modify (\<lambda>s. snd (sys (Mkdir (cfBinRoot conf) 0x1C0) s))) (\<lambda>_.
     if cfDoPrivateMount conf then doPrivateMount pl sys after conf (cfBinRoot conf) else ret ())"

section \<open>Properties\<close>

lemma kernelString_ends: "CHR 0x00 \<notin> set bytes \<Longrightarrow> kernelString bytes (CHR 0x00 # r) = bytes"
  by (simp add: kernelString_def takeWhile_append_sep)

text \<open>Where the memory behind the path is not zero, another path is mounted.\<close>

lemma kernelString_beyond:
  "CHR 0x00 \<notin> set bytes \<Longrightarrow> c \<noteq> CHR 0x00 \<Longrightarrow> \<exists>r. kernelString bytes (c # behind) = bytes @ c # r"
  by (simp add: kernelString_def takeWhile_append)

text \<open>A kernel that keeps a record of its calls.\<close>

definition traced :: "(syscall list \<Rightarrow> syscall \<Rightarrow> goint) \<Rightarrow> syscall list kernel" where
  "traced err c log = (err log c, log @ [c])"

text \<open>
  Before it reads its request a child makes its root, leaves the name space of the node, and mounts an
  empty file system of its own there, in this order, provided that the memory behind the path
  is zero. It stops exactly if the last of these calls fails: when it could not leave the name
  space, the mount is done in that of the node and covers the root of every other child.
\<close>
theorem prepareRoot_calls:
  assumes "cfBinRoot conf \<noteq> []" and "CHR 0x00 \<notin> set (cfBinRoot conf)" and "\<And>n. \<exists>r. after n = CHR 0x00 # r"
  shows "prepareRoot Linux (traced err) after conf log =
    (let mk = Mkdir (cfBinRoot conf) 0x1C0; un = Unshare 0x20000; um = Unmount (cfBinRoot conf) 0;
         mt = Mount ''none'' (cfBinRoot conf) ''tmpfs'' 0xC0ED0000 0 0; e = err (log @ [mk, un, um]) mt
     in if cfDoPrivateMount conf
        then (if e = 0 then Inr () else Inl (MountError (''Mount failed  '' @ itoa e)), log @ [mk, un, um, mt])
        else (Inr (), log @ [mk]))"
proof -
  have k: "kernelString s (after n) = s" if "CHR 0x00 \<notin> set s" for s n
    using assms(3) [of n] kernelString_ends [OF that] by auto
  have "kernelString ''none'' (after 0) = ''none''" "kernelString ''tmpfs'' (after 2) = ''tmpfs''"
    "kernelString (cfBinRoot conf) (after 1) = cfBinRoot conf"
    by (rule k, simp add: assms(2))+
  with assms(1) show ?thesis
    by (simp add: prepareRoot_def doPrivateMount_def unshare_def privatemount_def traced_def linuxhack_def
        andThen_def Let_def)
qed

theorem prepareRoot_calls_witness:
  "fst (prepareRoot Linux (traced (\<lambda>_ c. if c = Unshare 0x20000 then 1 else 0)) (\<lambda>_. [CHR 0x00]) defaultConfig []) = Inr ()"
proof -
  have a: "cfBinRoot defaultConfig \<noteq> []" "CHR 0x00 \<notin> set (cfBinRoot defaultConfig)"
    by (simp_all add: defaultConfig_def)
  show ?thesis
    by (subst prepareRoot_calls [OF a]) (simp_all add: Let_def)
qed

section \<open>Credentials\<close>

text \<open>
  \<^verbatim>\<open>ucred\<close> of \<^verbatim>\<open>bproc_linux_386.go\<close>, \<^verbatim>\<open>bproc_linux_amd64.go\<close> and \<^verbatim>\<open>bproc_linux_arm.go\<close>, for the width of
  an \<^verbatim>\<open>int\<close> there, with little-endian memory. The parameter \<open>call\<close> is the system call 102: what it
  writes to the buffer for the credentials, and the error number, which is unsigned.
\<close>

datatype 'a sockArg = WordArg 'a | CredsBuf | LengthBuf

definition ucredArgs :: "'w::len word sockArg list" where
  "ucredArgs = [WordArg 1, WordArg 17, CredsBuf, LengthBuf, WordArg 0, WordArg 0]"

definition intAt :: "byte list \<Rightarrow> nat \<Rightarrow> 'w::len word" where
  "intAt mem i = word_rcat (rev (take (LENGTH('w) div 8) (drop (i * (LENGTH('w) div 8)) mem)))"

definition ucred ::
  "(nat \<Rightarrow> 'w word sockArg list \<Rightarrow> 'w word \<Rightarrow> byte list \<times> 'w word) \<Rightarrow> 'w word \<Rightarrow> 'w::len word \<times> 'w word \<times> 'w word" where
  "ucred call fd =
     (case call 15 ucredArgs 12 of (written, e1) \<Rightarrow>
        (let mem = written @ drop (length written) (replicate (3 * (LENGTH('w) div 8)) 0)
         in if e1 < 0 then (- 1, - 1, - 1) else (intAt mem 0, intAt mem 1, intAt mem 2)))"

lemma rcat_zeros: "word_rcat (replicate n (0 :: byte)) = (0 :: 'w::len word)"
proof -
  have "horner_sum uint (2 ^ LENGTH(8)) (replicate n (0 :: byte)) = 0" by (induction n) simp_all
  then show ?thesis by (simp add: word_rcat_def)
qed

text \<open>
  The file descriptor is not among the arguments of the call, so the level is read where the option
  stands. A kernel that knows no such level writes nothing, the error is not
  noticed because it cannot be negative, and every peer has the credentials of root.
\<close>
theorem ucred_root:
  fixes call :: "nat \<Rightarrow> 'w::len word sockArg list \<Rightarrow> 'w word \<Rightarrow> byte list \<times> 'w word"
  assumes kernel: "\<And>args len. args ! 1 \<noteq> WordArg 1 \<Longrightarrow> fst (call 15 args len) = []" and width: "5 \<le> LENGTH('w)"
  shows "ucred call fd = (0, 0, 0)"
proof -
  have "(16 :: 'w word) = word_of_nat (2 ^ 4)" by simp
  also have "\<dots> \<noteq> 0" unfolding word_of_nat_eq_0_iff
    using power_increasing [OF width, of "2 :: nat"] by (auto dest: dvd_imp_le)
  finally have "(17 :: 'w word) \<noteq> 1" using add_right_cancel [of "16 :: 'w word" 1 0] by simp
  then have "fst (call 15 ucredArgs 12) = []" by (intro kernel) (simp add: ucredArgs_def)
  then show ?thesis by (cases "call 15 ucredArgs 12") (simp add: ucred_def intAt_def rcat_zeros Let_def)
qed

theorem ucred_root_witness:
  "ucred (\<lambda>c args len. if args ! 1 = WordArg 1 then (replicate 12 1, 0) else ([], 22)) (7 :: 32 word) = (0, 0, 0)"
  by (rule ucred_root) simp_all

text \<open>The copies of \<^verbatim>\<open>ucred\<close> for the three builds on Linux, and the one of \<^verbatim>\<open>bproc_darwin.go\<close>, whose body is a comment.\<close>

type_synonym 'w credsCall = "nat \<Rightarrow> 'w word sockArg list \<Rightarrow> 'w word \<Rightarrow> byte list \<times> 'w word"

definition ucred_amd64 :: "64 credsCall \<Rightarrow> 64 word \<Rightarrow> 64 word \<times> 64 word \<times> 64 word" where
  "ucred_amd64 = ucred"

definition ucred_arm :: "32 credsCall \<Rightarrow> 32 word \<Rightarrow> 32 word \<times> 32 word \<times> 32 word" where
  "ucred_arm = ucred"

definition ucred_darwin :: "'w::len word \<Rightarrow> 'w word \<times> 'w word \<times> 'w word" where
  "ucred_darwin fd = (0, 0, 0)"

section \<open>The interfaces of Darwin\<close>

text \<open>
  \<^verbatim>\<open>getIfc\<close> of \<^verbatim>\<open>bproc_darwin_386.go\<close>, without its lines in the log. \<^verbatim>\<open>tcpSockDial\<close> and the two requests are declared
  nowhere in the program and are parameters. A call of \<open>ioctl\<close> is given the address of the
  bytes of a slice, or that of its header (\<^verbatim>\<open>&ifc\<close>); it gives its error number, which is unsigned, and the
  bytes that \<^verbatim>\<open>ifc\<close> then has. \<open>p\<close> is the address of the header of \<^verbatim>\<open>ifcbuf\<close>. The results are the value returned
  and the requests made.
\<close>

datatype ifcArg = SliceBytes "byte list" | SliceHeader "byte list"

definition putUint32 :: "32 word \<Rightarrow> byte list" where
  "putUint32 p = map (\<lambda>i. ucast (drop_bit (8 * i) p)) [0, 1, 2, 3]"

definition getIfc ::
  "(string \<Rightarrow> 32 word) \<Rightarrow> (32 word \<Rightarrow> 32 word \<Rightarrow> ifcArg \<Rightarrow> 32 word \<times> byte list) \<Rightarrow> 32 word \<Rightarrow> 32 word \<Rightarrow> 32 word
     \<Rightarrow> 32 word \<times> (32 word \<times> ifcArg) list" where
  "getIfc tcpSockDial ioctl SIOCGIFADDR SIOCGIFCONF p =
     (let sock = tcpSockDial ''74.125.87.99:80''
      in if sint sock < 0 then (- 1, [])
         else
           let arg = SliceBytes (replicate 256 0)
           in case ioctl sock SIOCGIFADDR arg of (e1, ifc) \<Rightarrow>
             if e1 < 0 then (- 1, [(SIOCGIFADDR, arg)])
             else
               let arg0 = SliceHeader (putUint32 128 @ putUint32 p @ drop 8 ifc)
               in case ioctl sock SIOCGIFCONF arg0 of (e0, ifc0) \<Rightarrow>
                 (if e0 < 0 then - 1 else 0, [(SIOCGIFADDR, arg), (SIOCGIFCONF, arg0)]))"

definition getIfc_amd64 :: "64 word" where
  "getIfc_amd64 = 0"

text \<open>No error of \<open>ioctl\<close> is noticed, and the second call always gets the header of a slice where a structure is due.\<close>

lemma getIfc_errors:
  assumes "0 \<le> sint (tcpSockDial ''74.125.87.99:80'')"
  shows "\<exists>ifc. getIfc tcpSockDial ioctl a c p =
    (0, [(a, SliceBytes (replicate 256 0)), (c, SliceHeader (putUint32 128 @ putUint32 p @ drop 8 ifc))])"
  using assms by (auto simp: getIfc_def Let_def split: prod.split)

end
