(* ===== verification/GoFmt.thy ===== *)
theory GoFmt
  imports GoStrings
begin

text \<open>
  What gproc uses of Go's package \<^verbatim>\<open>fmt\<close>: \<^verbatim>\<open>Sprint\<close>, which puts a blank between two operands when neither
  is a string, \<^verbatim>\<open>Sprintln\<close> with a blank between any two, and the default format of lists. Package \<^verbatim>\<open>log\<close>
  writes its lines with the second.
\<close>

datatype fmtArg = FmtString string | FmtOther string

fun fmtText :: "fmtArg \<Rightarrow> string" where
  "fmtText (FmtString s) = s"
| "fmtText (FmtOther s) = s"

fun isFmtString :: "fmtArg \<Rightarrow> bool" where
  "isFmtString (FmtString s) \<longleftrightarrow> True"
| "isFmtString (FmtOther s) \<longleftrightarrow> False"

fun Sprint :: "fmtArg list \<Rightarrow> string" where
  "Sprint [] = []"
| "Sprint [a] = fmtText a"
| "Sprint (a # b # as) =
     fmtText a @ (if isFmtString a \<or> isFmtString b then [] else '' '') @ Sprint (b # as)"

definition Sprintln :: "fmtArg list \<Rightarrow> string" where
  "Sprintln as = join CHR '' '' (map fmtText as) @ ''\<newline>''"

definition fmtList :: "string list \<Rightarrow> string" where
  "fmtList ss = CHR ''['' # join CHR '' '' ss @ '']''"

definition fmtBytes :: "string \<Rightarrow> string" where
  "fmtBytes b = fmtList (map (\<lambda>c. digits (of_char c)) b)"

text \<open>\<^verbatim>\<open>Sprint\<close> of strings is their concatenation.\<close>

lemma Sprint_strings: "\<forall>a\<in>set as. isFmtString a \<Longrightarrow> Sprint as = concat (map fmtText as)"
  by (induction as rule: Sprint.induct) simp_all

end
