(* ===== verification/Web.thy ===== *)
theory Web
  imports SlaveProps GoFmt
begin

text \<open>
  The web pages (\<^verbatim>\<open>src/src/gproc/web.go\<close>): the start of the server, its two handlers, and the formatter
  for names in links, with the two escapes of Go's library it uses. The server's only call is
  commented out in \<^verbatim>\<open>master.go\<close>. The templates' files and the socket are parameters.
\<close>

section \<open>The formatter\<close>

definition unreserved :: "char \<Rightarrow> bool" where
  "unreserved c \<longleftrightarrow> c \<in> set ''abcdefghijklmnopqrstuvwxyzABCDEFGHIJKLMNOPQRSTUVWXYZ0123456789-_.~''"

definition upperhex :: string where
  "upperhex = ''0123456789ABCDEF''"

definition hexPair :: "char \<Rightarrow> string" where
  "hexPair c = [upperhex ! (of_char c div 16), upperhex ! (of_char c mod 16)]"

text \<open>\<^verbatim>\<open>url.QueryEscape\<close> and \<^verbatim>\<open>template.HTMLEscape\<close>, on bytes.\<close>

fun QueryEscape :: "string \<Rightarrow> string" where
  "QueryEscape [] = []"
| "QueryEscape (c # s) =
     (if unreserved c then [c] else if c = CHR '' '' then ''+'' else CHR ''%'' # hexPair c) @ QueryEscape s"

fun HTMLEscape :: "string \<Rightarrow> string" where
  "HTMLEscape [] = []"
| "HTMLEscape (c # s) =
     (if c = CHR 0x22 then ''&#34;'' else if c = CHR 0x27 then ''&#39;'' else if c = CHR ''&'' then ''&amp;''
      else if c = CHR ''<'' then ''&lt;'' else if c = CHR ''>'' then ''&gt;''
      else if c = CHR 0x00 then [CHR 0xEF, CHR 0xBF, CHR 0xBD] else [c]) @ HTMLEscape s"

datatype formatArg = StringArg string | OtherArg

fun UrlHtmlFormatter :: "formatArg list \<Rightarrow> runtime_error + string" where
  "UrlHtmlFormatter [] = Inl IndexOutOfRange"
| "UrlHtmlFormatter (StringArg s # v) = Inr (HTMLEscape (QueryEscape s))"
| "UrlHtmlFormatter (OtherArg # v) = Inl TypeAssertion"

section \<open>The server\<close>

text \<open>
  A function for templates is known here by the number of its results. \<^verbatim>\<open>template.Funcs\<close> panics unless it
  is one, or two with an error.
\<close>

definition fmap :: "(string \<times> nat) list" where
  "fmap = [(''html'', 1), (''url+html'', 0)]"

definition templFuncs :: "(string \<times> nat) list \<Rightarrow> string + unit" where
  "templFuncs fm =
     (case List.find (\<lambda>(name, results). results \<noteq> 1) fm of
        None \<Rightarrow> Inr ()
      | Some (name, results) \<Rightarrow> Inl (''can'' @ CHR 0x27 # ''t install function '' @ name))"

datatype page = HomePage | StatusPage | SlavesPage

text \<open>
  The routes in the order of their registration, and the server's own choice among them: the longest
  pattern, where one that ends in a slash stands for all that begin with it.
\<close>

definition webRoutes :: "(string \<times> page) list" where
  "webRoutes = [(''/'', HomePage), (''/status'', StatusPage), (''/extended-slave-information'', SlavesPage)]"

definition patternMatch :: "string \<Rightarrow> string \<Rightarrow> bool" where
  "patternMatch pat path \<longleftrightarrow> (if last pat = CHR ''/'' then take (length pat) path = pat else path = pat)"

definition muxFind :: "(string \<times> 'p) list \<Rightarrow> string \<Rightarrow> 'p option" where
  "muxFind routes path =
     map_option snd (foldl (\<lambda>best (pat, p). if patternMatch pat path \<and> (case best of None \<Rightarrow> True | Some (old, _) \<Rightarrow> length old < length pat)
         then Some (pat, p) else best) None routes)"

text \<open>
  \<^verbatim>\<open>parse\<close> is \<^verbatim>\<open>ParseFiles\<close>, which gives no template for a file it cannot read; \<open>listenErr\<close> is the error with which
  \<^verbatim>\<open>ListenAndServe\<close> ends. The results are a panic, no server, or the address, the routes and the line that
  is logged at the end.
\<close>

datatype webEnd = WebPanic string | NotStarting | WebServed string "(string \<times> page) list" "string option"

definition web :: "(string \<times> nat) list \<Rightarrow> (string \<Rightarrow> 't option) \<Rightarrow> string option \<Rightarrow> webEnd" where
  "web fm parse listenErr =
     (case templFuncs fm of Inl e \<Rightarrow> WebPanic e | Inr _ \<Rightarrow>
      let templStatus = parse ''html/status.template'';
          templExtendedSlaveInformation = parse ''html/extended-slave-information.template'';
          templHeader = parse ''html/header.template'';
          templFooter = parse ''html/footer.template''
      in if templStatus = None \<or> templExtendedSlaveInformation = None \<or> templHeader = None \<or> templFooter = None
         then NotStarting
         else WebServed '':9000'' webRoutes (map_option (\<lambda>err. Sprintln [FmtString ''ListenAndServe:'', FmtOther err]) listenErr))"

section \<open>The handlers\<close>

definition statusArgv :: "string list" where
  "statusArgv = [''-locale=etchosts'', ''-localbin=true'', ''-merger=true'', ''-iopp=4445'', ''e'', ''././././././.'',
     ''/bin/echo'', ''up'']"

text \<open>What a page is made from: templates, each executed with the same data.\<close>

datatype 'c webValue = WebString string | WebSlaves "'c slaveInfo list"

type_synonym 'c webPage = "(string \<times> (string \<times> 'c webValue) list) list"

definition webPage :: "string \<Rightarrow> (string \<times> 'c webValue) list \<Rightarrow> 'c webPage" where
  "webPage templ d = [(''templHeader'', d), (templ, d), (''templFooter'', d)]"

text \<open>\<open>output\<close> runs the program with arguments and gives what it wrote and its error; an error is only logged.\<close>

definition Status :: "(string list \<Rightarrow> string \<times> string option) \<Rightarrow> 'c webPage \<times> string list" where
  "Status output =
     (case output statusArgv of (b, err) \<Rightarrow>
        (webPage ''templStatus'' [(''title'', WebString ''Status''), (''return'', WebString b)],
         case err of None \<Rightarrow> [] | Some e \<Rightarrow>
              [Sprintln [FmtString ''status failed: '', FmtOther (fmtBytes b), FmtString '' with err: '', FmtOther e]]))"

definition slavesOut :: "string list \<Rightarrow> 'c slaves \<Rightarrow> 'c slaveInfo list" where
  "slavesOut order sv = map (\<lambda>k. the (Slaves sv k)) order"

definition ExtendedSlaveInformation :: "string list \<Rightarrow> 'c slaves \<Rightarrow> 'c webPage" where
  "ExtendedSlaveInformation order sv =
     webPage ''templExtendedSlaveInformation''
       [(''title'', WebString ''Extended Slave Information''), (''slavesOut'', WebSlaves (slavesOut order sv))]"

section \<open>Properties\<close>

text \<open>What a browser makes of an escaped name.\<close>

definition hexVal :: "char \<Rightarrow> nat" where
  "hexVal c = (if c \<in> set ''ABCDEF'' then of_char c - 55 else of_char c - 48)"

fun QueryUnescape :: "string \<Rightarrow> string" where
  "QueryUnescape [] = []"
| "QueryUnescape (c # s) =
     (if c = CHR ''+'' then CHR '' '' # QueryUnescape s
      else if c = CHR ''%'' then
        (case s of a # b # r \<Rightarrow> char_of (16 * hexVal a + hexVal b) # QueryUnescape r | _ \<Rightarrow> [])
      else c # QueryUnescape s)"

lemma hexVal_upperhex: "n < 16 \<Longrightarrow> hexVal (upperhex ! n) = n"
proof -
  assume "n < 16"
  then have "n \<in> set [0..<16]" by simp
  moreover have "\<forall>n\<in>set [0..<16]. hexVal (upperhex ! n) = n" by code_simp
  ultimately show ?thesis by blast
qed

lemma nibbles: "of_char c div 16 < (16 :: nat)" "of_char c mod 16 < (16 :: nat)"
proof -
  have "of_char c < (256 :: nat)" by simp
  then show "of_char c div 16 < (16 :: nat)" using less_mult_imp_div_less [of "of_char c" 16 16] by simp
qed simp

lemma hexPair_val: "16 * hexVal (hexPair c ! 0) + hexVal (hexPair c ! 1) = of_char c"
  using hexVal_upperhex [OF nibbles(1), of c] hexVal_upperhex [OF nibbles(2), of c] by (simp add: hexPair_def)

definition plainUrl :: "char \<Rightarrow> bool" where
  "plainUrl c \<longleftrightarrow> unreserved c \<or> c = CHR ''+'' \<or> c = CHR ''%''"

lemma upperhex_plain: "n < 16 \<Longrightarrow> plainUrl (upperhex ! n)"
proof -
  assume "n < 16"
  then have "n \<in> set [0..<16]" by simp
  moreover have "\<forall>n\<in>set [0..<16]. plainUrl (upperhex ! n)" by code_simp
  ultimately show ?thesis by blast
qed

lemma QueryEscape_plain: "c \<in> set (QueryEscape s) \<Longrightarrow> plainUrl c"
proof (induction s)
  case (Cons a s)
  have "plainUrl x" if "x \<in> set (hexPair a)" for x
    using that upperhex_plain nibbles [of a] by (auto simp: hexPair_def)
  moreover have "plainUrl (CHR ''+'')" "plainUrl (CHR ''%'')" by (simp_all add: plainUrl_def)
  ultimately show ?case using Cons by (auto simp: plainUrl_def split: if_splits)
qed simp

lemma special_plain: "\<not> plainUrl (CHR 0x22)" "\<not> plainUrl (CHR 0x27)" "\<not> plainUrl (CHR ''&'')"
  "\<not> plainUrl (CHR ''<'')" "\<not> plainUrl (CHR ''>'')" "\<not> plainUrl (CHR 0x00)"
  by code_simp+

lemma HTMLEscape_plain: "\<forall>c\<in>set s. plainUrl c \<Longrightarrow> HTMLEscape s = s"
  using special_plain by (induction s) auto

lemma QueryUnescape_Escape: "QueryUnescape (QueryEscape s) = s"
proof (induction s)
  case (Cons c s)
  have "\<not> unreserved (CHR ''+'')" "\<not> unreserved (CHR ''%'')" by code_simp+
  then have u: "c \<noteq> CHR ''+'' \<and> c \<noteq> CHR ''%''" if "unreserved c" using that by auto
  have "char_of (16 * hexVal (hexPair c ! 0) + hexVal (hexPair c ! 1)) = c"
    unfolding hexPair_val by simp
  with Cons u show ?case by (simp add: hexPair_def)
qed simp

text \<open>
  What the formatter writes has only letters, digits and harmless signs, so that no name can
  end a link or begin a tag, and the browser reads the name from it again.
\<close>
theorem formatter_roundtrip:
  "\<exists>out. UrlHtmlFormatter (StringArg s # v) = Inr out \<and> (\<forall>c\<in>set out. plainUrl c) \<and> QueryUnescape out = s"
proof -
  have "HTMLEscape (QueryEscape s) = QueryEscape s"
    using QueryEscape_plain by (intro HTMLEscape_plain) blast
  then show ?thesis using QueryEscape_plain QueryUnescape_Escape by auto
qed

text \<open>The server never starts: one of its functions has no result.\<close>

lemma web_panics: "web fmap parse listenErr = WebPanic (''can'' @ CHR 0x27 # ''t install function url+html'')"
  by (simp add: web_def templFuncs_def fmap_def)

text \<open>With functions that have results it would start if all four templates can be read.\<close>

lemma web_serves:
  "\<forall>(name, results)\<in>set fm. results = 1 \<Longrightarrow>
   web fm parse e \<in> range (WebServed '':9000'' webRoutes) \<longleftrightarrow>
     (\<forall>f\<in>{''status'', ''extended-slave-information'', ''header'', ''footer''}. parse (''html/'' @ f @ ''.template'') \<noteq> None)"
proof -
  assume "\<forall>(name, results)\<in>set fm. results = 1"
  then have "List.find (\<lambda>(name, results). results \<noteq> 1) fm = None" by (auto simp: find_None_iff)
  then show ?thesis by (auto simp: web_def templFuncs_def Let_def)
qed

text \<open>Every path has a page, and only the two registered paths have one of their own.\<close>

lemma muxFind_routes:
  assumes "path \<noteq> []" and "hd path = CHR ''/''"
  shows "muxFind webRoutes path = Some (if path = ''/status'' then StatusPage
    else if path = ''/extended-slave-information'' then SlavesPage else HomePage)"
  using assms by (cases path) (auto simp: muxFind_def webRoutes_def patternMatch_def)

text \<open>The command of the status page has flags that gproc does not know, so the page is empty.\<close>

lemma status_rejected: "parseArgs defaultConfig statusArgv = None"
  by (simp add: statusArgv_def flagNameValue_def splitN2_def boolFlags_def stringFlags_def)

lemma status_empty:
  assumes "\<And>argv. mainStart host argv = Some Exit2 \<Longrightarrow> output argv = ([], Some ''exit status 2'')"
  shows "Status output = (webPage ''templStatus'' [(''title'', WebString ''Status''), (''return'', WebString [])],
    [''status failed:  []  with err:  exit status 2\<newline>''])"
proof -
  have "mainStart host statusArgv = Some Exit2" by (simp add: mainStart_def status_rejected)
  from assms [OF this] show ?thesis by (simp add: Status_def Sprintln_def fmtBytes_def fmtList_def)
qed

lemma slavesOut_all:
  assumes "slaves_inv sv" and "keyOrder order (Slaves sv)"
  shows "distinct (map siId (slavesOut order sv)) \<and> set (slavesOut order sv) = {s. member sv s}"
proof -
  have k: "siId (the (Slaves sv k)) = k" if "k \<in> set order" for k
    using that assms(2) slaves_invD(1) [OF assms(1)] by force
  have ids: "map siId (slavesOut order sv) = order"
    by (rule nth_equalityI) (simp_all add: slavesOut_def k)
  have "{s. member sv s} = (\<lambda>k. the (Slaves sv k)) ` set order"
  proof (intro equalityI subsetI)
    fix s assume "s \<in> {s. member sv s}"
    then have "Slaves sv (siId s) = Some s" by (simp add: member_def)
    with assms(2) show "s \<in> (\<lambda>k. the (Slaves sv k)) ` set order" by force
  next
    fix s assume "s \<in> (\<lambda>k. the (Slaves sv k)) ` set order"
    then obtain k t where "Slaves sv k = Some t" "s = t" using assms(2) by force
    with slaves_invD(1) [OF assms(1)] show "s \<in> {s. member sv s}" by (simp add: member_def)
  qed
  with ids assms(2) show ?thesis by (simp add: slavesOut_def)
qed

end
