(* ===== verification/Logging.thy ===== *)
theory Logging
  imports GoStrings
begin

text \<open>
  The log of gproc: \<^verbatim>\<open>log_prologue\<close>, \<^verbatim>\<open>log_epilogue\<close>, \<^verbatim>\<open>log_info\<close> and \<^verbatim>\<open>log_error\<close> of
  \<^verbatim>\<open>src/src/gproc/common.go\<close>. They change the prefix of package \<^verbatim>\<open>log\<close> for the time of a line and
  keep the old one in a variable of the package, so calls of different goroutines get into
  each other's way: the second half of the theory has the calls in single steps.
\<close>

section \<open>One call\<close>

text \<open>
  The prefix and flags of package \<^verbatim>\<open>log\<close>, the variable \<^verbatim>\<open>log_prefix\<close> and the lines written. With
  flags that are not zero a line has a time stamp behind the prefix.
\<close>

record logState =
  lsPrefix :: string
  lsFlags :: goint
  lsSaved :: string
  lsOut :: "string list"

text \<open>The loop that looks for the last slash; it does not look at the first character.\<close>

fun shortFrom :: "string \<Rightarrow> nat \<Rightarrow> string" where
  "shortFrom path 0 = path"
| "shortFrom path (Suc i) = (if path ! Suc i = CHR ''/'' then drop (Suc (Suc i)) path else shortFrom path i)"

definition shortName :: "string \<Rightarrow> string" where
  "shortName path = shortFrom path (length path - 1)"

text \<open>A call: where it stands in the source, and its message with the final line feed.\<close>

record call =
  clFile :: string
  clLine :: goint
  clMsg :: string

definition tag :: "call \<Rightarrow> string" where
  "tag c = '':'' @ shortName (clFile c) @ '':'' @ itoa (clLine c) @ '': ''"

definition log_prologue :: "call \<Rightarrow> logState \<Rightarrow> logState" where
  "log_prologue c s =
     (let s1 = s\<lparr>lsSaved := lsPrefix s\<rparr>;
          s2 = s1\<lparr>lsFlags := 0\<rparr>;
          p = lsPrefix s2
      in s2\<lparr>lsPrefix := p @ tag c\<rparr>)"

definition log_epilogue :: "logState \<Rightarrow> logState" where
  "log_epilogue s = s\<lparr>lsPrefix := lsSaved s\<rparr>"

definition logPrint :: "string \<Rightarrow> string \<Rightarrow> logState \<Rightarrow> logState" where
  "logPrint stamp msg s =
     s\<lparr>lsOut := lsOut s @ [lsPrefix s @ (if lsFlags s = 0 then [] else stamp) @ msg]\<rparr>"

definition log_info :: "bool \<Rightarrow> string \<Rightarrow> call \<Rightarrow> logState \<Rightarrow> logState" where
  "log_info debug stamp c s =
     (if debug then log_epilogue (logPrint stamp (clMsg c) (log_prologue c s)) else s)"

text \<open>\<^verbatim>\<open>log.Panicln\<close> writes the line and panics with the message.\<close>

definition logPanic :: "string \<Rightarrow> string \<Rightarrow> (logState, string, unit) gm" where
  "logPanic stamp msg = andThen (modify (logPrint stamp msg)) (\<lambda>_. raise msg)"

definition log_error :: "string \<Rightarrow> call \<Rightarrow> (logState, string, unit) gm" where
  "log_error stamp c =
     andThen (modify (log_prologue c)) (\<lambda>_.
     andThen (logPanic stamp (clMsg c)) (\<lambda>_.
     modify log_epilogue))"

lemma shortFrom_slash:
  "CHR ''/'' \<notin> set base \<Longrightarrow> dir \<noteq> [] \<Longrightarrow> length dir \<le> Suc i \<Longrightarrow> i < length dir + length base \<Longrightarrow>
     shortFrom (dir @ CHR ''/'' # base) (Suc i) = base"
proof (induction i)
  case 0
  then have "length dir = 1" by (cases dir) auto
  then show ?case by (simp add: nth_append)
next
  case (Suc i)
  show ?case
  proof (cases "length dir = Suc (Suc i)")
    case False
    with Suc.prems have le: "length dir \<le> Suc i" and lt: "Suc i - length dir < length base" by auto
    have "(dir @ CHR ''/'' # base) ! Suc (Suc i) = base ! (Suc i - length dir)"
      using le by (simp add: nth_append Suc_diff_le)
    moreover have "base ! (Suc i - length dir) \<noteq> CHR ''/''"
      using Suc.prems(1) lt by (metis nth_mem)
    ultimately show ?thesis using Suc.IH Suc.prems le by simp
  qed (simp add: nth_append)
qed

lemma shortName_slash:
  assumes "CHR ''/'' \<notin> set base" and "dir \<noteq> []"
  shows "shortName (dir @ CHR ''/'' # base) = base"
proof -
  have "length (dir @ CHR ''/'' # base) - 1 = Suc (length dir + length base - 1)"
    using assms(2) by (cases dir) auto
  moreover have "length dir + length base - 1 < length dir + length base" "length dir \<le> Suc (length dir + length base - 1)"
    using assms(2) by (cases dir; simp)+
  ultimately show ?thesis unfolding shortName_def using shortFrom_slash [OF assms] by metis
qed

lemma shortFrom_none:
  "\<forall>k. 0 < k \<and> k \<le> i \<longrightarrow> path ! k \<noteq> CHR ''/'' \<Longrightarrow> shortFrom path i = path"
  by (induction i) auto

lemma shortName_plain: "CHR ''/'' \<notin> set (tl path) \<Longrightarrow> shortName path = path"
proof -
  assume "CHR ''/'' \<notin> set (tl path)"
  moreover have "path ! k \<in> set (tl path)" if "0 < k" "k \<le> length path - 1" for k
  proof -
    have "k - 1 < length (tl path)" "Suc (k - 1) = k" using that by auto
    then show ?thesis using nth_tl [of "k - 1" path] nth_mem [of "k - 1" "tl path"] by simp
  qed
  ultimately have "path ! k \<noteq> CHR ''/''" if "0 < k" "k \<le> length path - 1" for k
    using that by metis
  then show ?thesis unfolding shortName_def by (intro shortFrom_none) blast
qed

text \<open>
  A line of the log has the prefix of the process, the name of the file without its
  directory, the number of the line and the message; the prefix is as before afterwards. Without the
  debug flag nothing happens. An error is written in any case, ends in a panic with its
  message, and leaves the prefix changed.
\<close>
theorem log_calls:
  assumes "clFile c = dir @ CHR ''/'' # base" and "CHR ''/'' \<notin> set base" and "dir \<noteq> []"
  shows "log_info debug stamp c s =
      (if debug
       then s\<lparr>lsFlags := 0, lsSaved := lsPrefix s,
              lsOut := lsOut s @ [lsPrefix s @ '':'' @ base @ '':'' @ itoa (clLine c) @ '': '' @ clMsg c]\<rparr>
       else s) \<and>
    log_error stamp c s =
      (Inl (clMsg c),
       s\<lparr>lsFlags := 0, lsSaved := lsPrefix s, lsPrefix := lsPrefix s @ '':'' @ base @ '':'' @ itoa (clLine c) @ '': '',
         lsOut := lsOut s @ [lsPrefix s @ '':'' @ base @ '':'' @ itoa (clLine c) @ '': '' @ clMsg c]\<rparr>)"
  using shortName_slash [OF assms(2,3)] assms(1)
  by (simp_all add: log_info_def log_error_def logPanic_def log_prologue_def log_epilogue_def logPrint_def tag_def
      Let_def andThen_apply)

theorem log_calls_witness:
  "fst (log_error [] \<lparr>clFile = ''/src/gproc/slave.go'', clLine = 64, clMsg = ''no''\<rparr>
      \<lparr>lsPrefix = ''slave 7: '', lsFlags = 3, lsSaved = [], lsOut = []\<rparr>) = Inl ''no''"
  using log_calls [of "\<lparr>clFile = ''/src/gproc/slave.go'', clLine = 64, clMsg = ''no''\<rparr>" "''/src/gproc''" "''slave.go''"]
  by simp


section \<open>Calls of several goroutines\<close>

text \<open>
  Where a goroutine is inside a call: before it saves the prefix, before it clears the flags,
  before it reads the prefix again, with the prefix in hand, before it prints, and before it
  restores the prefix.
\<close>

datatype logPc =
    Saving call | Flagging call | Reading call | Setting call string | Printing call | Restoring

fun logStep :: "string \<Rightarrow> logPc \<Rightarrow> logState \<Rightarrow> logPc option \<times> logState" where
  "logStep stamp (Saving c) s = (Some (Flagging c), s\<lparr>lsSaved := lsPrefix s\<rparr>)"
| "logStep stamp (Flagging c) s = (Some (Reading c), s\<lparr>lsFlags := 0\<rparr>)"
| "logStep stamp (Reading c) s = (Some (Setting c (lsPrefix s)), s)"
| "logStep stamp (Setting c p) s = (Some (Printing c), s\<lparr>lsPrefix := p @ tag c\<rparr>)"
| "logStep stamp (Printing c) s = (Some Restoring, logPrint stamp (clMsg c) s)"
| "logStep stamp Restoring s = (None, s\<lparr>lsPrefix := lsSaved s\<rparr>)"

text \<open>A goroutine calls \<^verbatim>\<open>log_info\<close>, takes a step, or sets a prefix with \<^verbatim>\<open>log.SetPrefix\<close>.\<close>

datatype logLabel = Call nat call | Step nat | Rename string

type_synonym logging = "(nat \<Rightarrow> logPc option) \<times> logState"

inductive lrun :: "string \<Rightarrow> logging \<Rightarrow> logLabel list \<Rightarrow> logging \<Rightarrow> bool" for stamp g where
  Quiet: "lrun stamp g [] g"
| Enter: "lrun stamp g ls (ts, s) \<Longrightarrow> ts i = None \<Longrightarrow>
    lrun stamp g (ls @ [Call i c]) (ts(i \<mapsto> Saving c), s)"
| Advance: "lrun stamp g ls (ts, s) \<Longrightarrow> ts i = Some pc \<Longrightarrow> logStep stamp pc s = (pc', s') \<Longrightarrow>
    lrun stamp g (ls @ [Step i]) (ts(i := pc'), s')"
| Change: "lrun stamp g ls (ts, s) \<Longrightarrow> lrun stamp g (ls @ [Rename p]) (ts, s\<lparr>lsPrefix := p\<rparr>)"

lemma lrun_trans: "lrun stamp h ms k \<Longrightarrow> lrun stamp g ls h \<Longrightarrow> lrun stamp g (ls @ ms) k"
  by (induction rule: lrun.induct) (auto simp flip: append_assoc intro: lrun.intros)

lemma lrun_steps:
  "lrun stamp (ts, s) [Step i] (ts(i := pc'), s')" if "ts i = Some pc" "logStep stamp pc s = (pc', s')"
  using lrun.Advance [OF lrun.Quiet [of stamp "(ts, s)"] that] by simp

text \<open>One goroutine alone does what \<^verbatim>\<open>log_info\<close> does.\<close>

lemma lrun_Step:
  "ts i = Some pc \<Longrightarrow> lrun stamp (ts(i := fst (logStep stamp pc s)), snd (logStep stamp pc s)) ls h \<Longrightarrow>
     lrun stamp (ts, s) (Step i # ls) h"
  using lrun_trans [of stamp "(ts(i := fst (logStep stamp pc s)), snd (logStep stamp pc s))" ls h "(ts, s)" "[Step i]"]
    lrun_steps [of ts i pc stamp s "fst (logStep stamp pc s)" "snd (logStep stamp pc s)"]
  by simp

lemma lrun_Call: "ts i = None \<Longrightarrow> lrun stamp (ts(i \<mapsto> Saving c), s) ls h \<Longrightarrow> lrun stamp (ts, s) (Call i c # ls) h"
  using lrun_trans [of stamp "(ts(i \<mapsto> Saving c), s)" ls h "(ts, s)" "[Call i c]"]
    lrun.Enter [OF lrun.Quiet [of stamp "(ts, s)"], of i c] by simp

lemma lrun_log_info:
  assumes "ts i = None"
  shows "lrun stamp (ts, s) [Call i c, Step i, Step i, Step i, Step i, Step i, Step i]
    (ts, log_info True stamp c s)"
proof -
  have "ts(i := None) = ts" using assms by (simp add: fun_upd_idem)
  moreover have "lrun stamp (ts, s) [Call i c, Step i, Step i, Step i, Step i, Step i, Step i]
      (ts(i := None), log_info True stamp c s)"
    by (intro lrun_Call lrun_Step)
      (auto simp: assms log_info_def log_prologue_def log_epilogue_def logPrint_def Let_def
        intro: lrun.Quiet)
  ultimately show ?thesis by simp
qed

section \<open>What holds in every run\<close>

fun called :: "logLabel list \<Rightarrow> call set" where
  "called [] = {}"
| "called (Call i c # ls) = insert c (called ls)"
| "called (_ # ls) = called ls"

fun renamed :: "logLabel list \<Rightarrow> string set" where
  "renamed [] = {}"
| "renamed (Rename p # ls) = insert p (renamed ls)"
| "renamed (_ # ls) = renamed ls"

lemma called_append [simp]: "called (ls @ ms) = called ls \<union> called ms"
  by (induction ls rule: called.induct) auto

lemma renamed_append [simp]: "renamed (ls @ ms) = renamed ls \<union> renamed ms"
  by (induction ls rule: renamed.induct) auto

text \<open>A prefix the process was given, with the marks of some calls behind it.\<close>

definition marked :: "string set \<Rightarrow> call set \<Rightarrow> string \<Rightarrow> bool" where
  "marked ps cs x \<longleftrightarrow> (\<exists>p\<in>ps. \<exists>ts. set ts \<subseteq> cs \<and> x = p @ concat (map tag ts))"

lemma marked_mono: "marked ps cs x \<Longrightarrow> ps \<subseteq> ps' \<Longrightarrow> cs \<subseteq> cs' \<Longrightarrow> marked ps' cs' x"
  unfolding marked_def by blast

lemma marked_tag: "marked ps cs x \<Longrightarrow> c \<in> cs \<Longrightarrow> marked ps cs (x @ tag c)"
  unfolding marked_def by (elim bexE exE conjE) (rule bexI, rule_tac x = "ts @ [c]" in exI, auto)

lemma marked_base: "p \<in> ps \<Longrightarrow> marked ps cs p"
  unfolding marked_def by (intro bexI exI [of _ "[]"]) auto

fun pcOk :: "string set \<Rightarrow> call set \<Rightarrow> goint \<Rightarrow> logPc \<Rightarrow> bool" where
  "pcOk ps cs f (Saving c) \<longleftrightarrow> c \<in> cs"
| "pcOk ps cs f (Flagging c) \<longleftrightarrow> c \<in> cs"
| "pcOk ps cs f (Reading c) \<longleftrightarrow> c \<in> cs \<and> f = 0"
| "pcOk ps cs f (Setting c p) \<longleftrightarrow> c \<in> cs \<and> f = 0 \<and> marked ps cs p"
| "pcOk ps cs f (Printing c) \<longleftrightarrow> c \<in> cs \<and> f = 0"
| "pcOk ps cs f Restoring \<longleftrightarrow> True"

lemma pcOk_mono: "pcOk ps cs f pc \<Longrightarrow> ps \<subseteq> ps' \<Longrightarrow> cs \<subseteq> cs' \<Longrightarrow> f' = f \<or> f' = 0 \<Longrightarrow> pcOk ps' cs' f' pc"
  by (cases pc) (auto intro: marked_mono)

lemma pcOk_flags: "pcOk ps cs f pc \<Longrightarrow> pcOk ps cs 0 pc"
  by (cases pc) auto

definition log_inv :: "string set \<Rightarrow> call set \<Rightarrow> logState \<Rightarrow> logging \<Rightarrow> bool" where
  "log_inv ps cs s0 g \<longleftrightarrow> (case g of (ts, s) \<Rightarrow>
     marked ps cs (lsPrefix s) \<and> marked ps cs (lsSaved s) \<and>
     (\<forall>i pc. ts i = Some pc \<longrightarrow> pcOk ps cs (lsFlags s) pc) \<and>
     (\<exists>new. lsOut s = lsOut s0 @ new \<and>
        (\<forall>l\<in>set new. \<exists>p c. marked ps cs p \<and> c \<in> cs \<and> l = p @ clMsg c)))"

lemma log_inv_mono: "log_inv ps cs s0 g \<Longrightarrow> ps \<subseteq> ps' \<Longrightarrow> cs \<subseteq> cs' \<Longrightarrow> log_inv ps' cs' s0 g"
  unfolding log_inv_def split_beta
  by (elim conjE exE, intro conjI, (erule (2) marked_mono)+, blast intro: pcOk_mono)
    (rule exI, erule conjI, blast intro: marked_mono)

lemma log_inv_step:
  assumes inv: "log_inv ps cs s0 (ts, s)" and pc: "ts i = Some pc" and step: "logStep stamp pc s = (pc', s')"
  shows "log_inv ps cs s0 (ts(i := pc'), s')"
proof -
  from inv pc have ok: "pcOk ps cs (lsFlags s) pc" unfolding log_inv_def by blast
  show ?thesis
  proof (cases pc)
    case (Printing c)
    from inv obtain new where new: "lsOut s = lsOut s0 @ new"
      "\<forall>l\<in>set new. \<exists>p c. marked ps cs p \<and> c \<in> cs \<and> l = p @ clMsg c" unfolding log_inv_def by blast
    have "\<exists>new. lsOut s' = lsOut s0 @ new \<and> (\<forall>l\<in>set new. \<exists>p c. marked ps cs p \<and> c \<in> cs \<and> l = p @ clMsg c)"
      using new inv ok step Printing
      by (intro exI [of _ "new @ [lsPrefix s @ clMsg c]"]) (auto simp: logPrint_def log_inv_def)
    with inv step Printing show ?thesis unfolding log_inv_def by (auto simp: logPrint_def)
  next
    case (Flagging c)
    from inv have "\<forall>j pc. ts j = Some pc \<longrightarrow> pcOk ps cs 0 pc" unfolding log_inv_def using pcOk_flags by blast
    with inv ok step Flagging show ?thesis by (auto simp: log_inv_def)
  qed (use inv ok step marked_tag in \<open>auto simp: log_inv_def\<close>)
qed

lemma lrun_inv:
  assumes "lrun stamp (\<lambda>_. None, s0) ls g" and "lsSaved s0 = lsPrefix s0"
  shows "log_inv (insert (lsPrefix s0) (renamed ls)) (called ls) s0 g"
  using assms(1)
proof (induction rule: lrun.induct)
  case Quiet
  show ?case using assms(2) by (simp add: log_inv_def marked_base)
next
  case (Enter ls ts s i c)
  have "log_inv (insert (lsPrefix s0) (renamed ls)) (insert c (called ls)) s0 (ts, s)"
    by (rule log_inv_mono [OF Enter.IH]) auto
  then show ?case by (auto simp: log_inv_def)
next
  case (Advance ls ts s i pc pc' s')
  from log_inv_step [OF Advance.IH Advance.hyps(2,3)] show ?case by simp
next
  case (Change ls ts s p)
  have "log_inv (insert (lsPrefix s0) (insert p (renamed ls))) (called ls) s0 (ts, s)"
    by (rule log_inv_mono [OF Change.IH]) auto
  then show ?case by (auto simp: log_inv_def intro: marked_base)
qed


text \<open>
  Two goroutines that log at the same time leave a mark in the prefix for ever: the second saves
  the prefix while it has the mark of the first, and puts it back after the first is done.
\<close>

lemma lrun_overlap:
  assumes "ts 0 = None" and "ts 1 = None"
  shows "\<exists>ls s'. lrun stamp (ts, s) ls (ts, s') \<and> lsPrefix s' = lsPrefix s @ tag c"
proof -
  let ?ls = "[Call 0 c, Step 0, Step 0, Step 0, Step 0, Call 1 c, Step 1, Step 1, Step 1, Step 1,
    Step 0, Step 0, Step 1, Step 1]"
  let ?p = "lsPrefix s @ tag c"
  let ?s = "s\<lparr>lsSaved := ?p, lsFlags := 0, lsOut := lsOut s @ [?p @ tag c @ clMsg c, ?p @ clMsg c], lsPrefix := ?p\<rparr>"
  have n: "(1 :: nat) \<noteq> 0" by simp
  have "ts(0 := None, Suc 0 := None) = ts" using assms by (auto simp: fun_eq_iff)
  moreover have "lrun stamp (ts, s) ?ls (ts(0 := None, Suc 0 := None), ?s)"
    by (intro lrun_Call lrun_Step) (auto simp: assms assms(2) [unfolded One_nat_def] logPrint_def fun_upd_twist [OF n] intro: lrun.Quiet)
  ultimately show ?thesis by (intro exI [of _ ?ls] exI [of _ ?s]) simp
qed

lemma log_leaks:
  "\<exists>ls s'. lrun stamp (\<lambda>_. None, s) ls (\<lambda>_. None, s') \<and> lsPrefix s' = lsPrefix s @ concat (replicate n (tag c))"
proof (induction n)
  case 0
  show ?case by (intro exI [of _ "[]"] exI [of _ s]) (simp add: lrun.Quiet)
next
  case (Suc n)
  then obtain ls s1 where s1: "lrun stamp (\<lambda>_. None, s) ls (\<lambda>_. None, s1)"
    "lsPrefix s1 = lsPrefix s @ concat (replicate n (tag c))" by blast
  obtain ms s2 where s2: "lrun stamp (\<lambda>_. None, s1) ms (\<lambda>_. None, s2)" "lsPrefix s2 = lsPrefix s1 @ tag c"
    using lrun_overlap [of "\<lambda>_. None" stamp s1 c] by blast
  have "lsPrefix s2 = lsPrefix s @ concat (replicate (Suc n) (tag c))"
    by (simp add: s2(2) s1(2) flip: replicate_append_same)
  with lrun_trans [OF s2(1) s1(1)] show ?case by blast
qed


end
