(* ===== verification/Helpers.thy ===== *)
theory Helpers
  imports Requests Logging GoFmt
begin

text \<open>
  The text of the messages in the log (the methods \<^verbatim>\<open>String\<close> of \<^verbatim>\<open>src/src/gproc/common.go\<close>) and the functions
  that nothing calls: \<^verbatim>\<open>WaitAllChildren\<close>, the helpers of \<^verbatim>\<open>misc.go\<close>, and the texts of the error numbers in
  \<^verbatim>\<open>bproc_linux_arm.go\<close>.
\<close>

section \<open>The text of messages\<close>

definition slaveRespString :: "string \<Rightarrow> string" where
  "slaveRespString i = Sprint [FmtString ''id: '', FmtString i]"

definition cmdString :: "cmdToExec \<Rightarrow> string" where
  "cmdString a = Sprint [FmtString (cmCurrentName a)]"

definition reqString :: "startReq \<Rightarrow> string" where
  "reqString s =
     Sprint [FmtString (rqNodes s), FmtString '' '', FmtOther (fmtList (rqPeers s)), FmtString '' '',
       FmtOther (fmtList (rqArgs s)), FmtString '' '', FmtOther (fmtList (map cmdString (rqCmds s)))]"

definition slaveString :: "'c slaveInfo option \<Rightarrow> string" where
  "slaveString s = (case s of None \<Rightarrow> ''<nil>'' | Some s \<Rightarrow> Sprint [FmtString (siId s), FmtString ''@'', FmtString (siAddr s)])"

text \<open>A slave is told by its text when no identifier has the sign between the two parts.\<close>

lemma slaveString_split: "CHR ''@'' \<notin> set (siId s) \<Longrightarrow> splitN2 CHR ''@'' (slaveString (Some s)) = [siId s, siAddr s]"
  by (simp add: slaveString_def)

text \<open>Not so a request: blanks in its arguments are not marked.\<close>

lemma reqString_same:
  "reqString (zeroReq\<lparr>rqArgs := [''a'', ''b'']\<rparr>) = reqString (zeroReq\<lparr>rqArgs := [''a b'']\<rparr>)"
  by (simp add: reqString_def fmtList_def zeroReq_def)

section \<open>Waiting for children\<close>

text \<open>
  \<open>wait4\<close> is the system call: a process that has ended with its status, or an error. Every process is logged, with the format
  as it is written.
\<close>

partial_function (option) WaitAllChildren ::
  "('s \<Rightarrow> (goint \<times> 32 word) option \<times> 's) \<Rightarrow> bool \<Rightarrow> string \<Rightarrow> string \<Rightarrow> 's \<Rightarrow> logState \<Rightarrow> ('s \<times> logState) option" where
  "WaitAllChildren wait4 debug stamp file s lg =
     (case wait4 s of
        (None, t) \<Rightarrow> Some (t, lg)
      | (Some (pid, status), t) \<Rightarrow>
          WaitAllChildren wait4 debug stamp file t
            (log_info debug stamp
               \<lparr>clFile = file, clLine = 321,
                clMsg = Sprintln [FmtString ''wait4 returns pid %v status %v\<newline>'', FmtOther (itoa pid), FmtOther (itoa status)]\<rparr> lg))"

text \<open>A kernel that gives one result after the other, and an error from then on.\<close>

fun results :: "'a option list \<Rightarrow> 'a option \<times> 'a option list" where
  "results [] = (None, [])"
| "results (r # rs) = (r, rs)"

definition childCall :: "string \<Rightarrow> goint \<times> 32 word \<Rightarrow> call" where
  "childCall file = (\<lambda>(pid, status). \<lparr>clFile = file, clLine = 321,
     clMsg = Sprintln [FmtString ''wait4 returns pid %v status %v\<newline>'', FmtOther (itoa pid), FmtOther (itoa status)]\<rparr>)"

text \<open>It reaps the children up to the first error; an interrupted call leaves the others.\<close>

lemma WaitAllChildren_reaps:
  "WaitAllChildren results debug stamp file (map Some cs @ None # rest) lg =
     Some (rest, fold (\<lambda>c. log_info debug stamp (childCall file c)) cs lg)"
  by (induction cs arbitrary: lg)
    (subst WaitAllChildren.simps, simp add: childCall_def split: prod.split)+

lemma WaitAllChildren_all:
  "WaitAllChildren results debug stamp file (map Some cs) lg =
     Some ([], fold (\<lambda>c. log_info debug stamp (childCall file c)) cs lg)"
  by (induction cs arbitrary: lg)
    (subst WaitAllChildren.simps, simp add: childCall_def split: prod.split)+

section \<open>Reading a file, and the answer to a message\<close>

text \<open>
  The errors of \<^verbatim>\<open>os.Stat\<close> and \<^verbatim>\<open>os.Open\<close> are dropped: a method of the information that is not there panics, and
  a file that is not open gives no bytes. The size is taken below the root, the contents are not.
\<close>

definition readitin ::
  "(string \<Rightarrow> nat option) \<Rightarrow> (string \<Rightarrow> byte list option) \<Rightarrow> string \<Rightarrow> string \<Rightarrow> runtime_error + byte list" where
  "readitin stat open s root =
     (case stat (root @ s) of
        None \<Rightarrow> Inl NilDereference
      | Some n \<Rightarrow>
          (let got = (case open s of None \<Rightarrow> [] | Some b \<Rightarrow> take n b)
           in Inr (got @ replicate (n - length got) 0)))"

definition Ping :: "string \<Rightarrow> resp \<Rightarrow> resp" where
  "Ping msg r = r\<lparr>rsMsg := msg\<rparr>"

lemma readitin_own: "stat s = Some (length b) \<Longrightarrow> open s = Some b \<Longrightarrow> readitin stat open s [] = Inr b"
  by (simp add: readitin_def)

lemma readitin_missing:
  "stat (root @ s) = Some n \<Longrightarrow> open s = None \<Longrightarrow> readitin stat open s root = Inr (replicate n 0)"
  by (simp add: readitin_def)

section \<open>Texts of error numbers\<close>

text \<open>The table of the ARM build, as it is written, and the list that it denotes.\<close>

definition errorEntries :: "(nat \<times> string) list" where
  "errorEntries =
     [(7, ''argument list too long''),
      (13, ''permission denied''),
      (98, ''address already in use''),
      (99, ''cannot assign requested address''),
      (68, ''advertise error''),
      (97, ''address family not supported by protocol''),
      (11, ''resource temporarily unavailable''),
      (114, ''operation already in progress''),
      (52, ''invalid exchange''),
      (9, ''bad file descriptor''),
      (77, ''file descriptor in bad state''),
      (74, ''bad message''),
      (53, ''invalid request descriptor''),
      (56, ''invalid request code''),
      (57, ''invalid slot''),
      (59, ''bad font file format''),
      (16, ''device or resource busy''),
      (125, ''operation canceled''),
      (10, ''no child processes''),
      (44, ''channel number out of range''),
      (70, ''communication error on send''),
      (103, ''software caused connection abort''),
      (111, ''connection refused''),
      (104, ''connection reset by peer''),
      (35, ''resource deadlock avoided''),
      (89, ''destination address required''),
      (33, ''numerical argument out of domain''),
      (73, ''RFS specific error''),
      (122, ''disk quota exceeded''),
      (17, ''file exists''),
      (14, ''bad address''),
      (27, ''file too large''),
      (112, ''host is down''),
      (113, ''no route to host''),
      (43, ''identifier removed''),
      (84, ''invalid or incomplete multibyte or wide character''),
      (115, ''operation now in progress''),
      (4, ''interrupted system call''),
      (22, ''invalid argument''),
      (5, ''input/output error''),
      (106, ''transport endpoint is already connected''),
      (21, ''is a directory''),
      (120, ''is a named type file''),
      (127, ''unknown error 127''),
      (129, ''unknown error 129''),
      (128, ''unknown error 128''),
      (51, ''level 2 halted''),
      (45, ''level 2 not synchronized''),
      (46, ''level 3 halted''),
      (47, ''level 3 reset''),
      (79, ''can not access a needed shared library''),
      (80, ''accessing a corrupted shared library''),
      (83, ''cannot exec a shared library directly''),
      (82, ''attempting to link in too many shared libraries''),
      (81, ''.lib section in a.out corrupted''),
      (48, ''link number out of range''),
      (40, ''too many levels of symbolic links''),
      (124, ''wrong medium type''),
      (24, ''too many open files''),
      (31, ''too many links''),
      (90, ''message too long''),
      (72, ''multihop attempted''),
      (36, ''file name too long''),
      (119, ''no XENIX semaphores available''),
      (100, ''network is down''),
      (102, ''network dropped connection on reset''),
      (101, ''network is unreachable''),
      (23, ''too many open files in system''),
      (55, ''no anode''),
      (105, ''no buffer space available''),
      (50, ''no CSI structure available''),
      (61, ''no data available''),
      (19, ''no such device''),
      (2, ''no such file or directory''),
      (8, ''exec format error''),
      (126, ''unknown error 126''),
      (37, ''no locks available''),
      (67, ''link has been severed''),
      (123, ''no medium found''),
      (12, ''cannot allocate memory''),
      (42, ''no message of desired type''),
      (64, ''machine is not on the network''),
      (65, ''package not installed''),
      (92, ''protocol not available''),
      (28, ''no space left on device''),
      (63, ''out of streams resources''),
      (60, ''device not a stream''),
      (38, ''function not implemented''),
      (15, ''block device required''),
      (107, ''transport endpoint is not connected''),
      (20, ''not a directory''),
      (39, ''directory not empty''),
      (118, ''not a XENIX named type file''),
      (131, ''unknown error 131''),
      (88, ''socket operation on non-socket''),
      (95, ''operation not supported''),
      (25, ''inappropriate ioctl for device''),
      (76, ''name not unique on network''),
      (6, ''no such device or address''),
      (75, ''value too large for defined data type''),
      (130, ''unknown error 130''),
      (1, ''operation not permitted''),
      (96, ''protocol family not supported''),
      (32, ''broken pipe''),
      (71, ''protocol error''),
      (93, ''protocol not supported''),
      (91, ''protocol wrong type for socket''),
      (34, ''numerical result out of range''),
      (78, ''remote address changed''),
      (66, ''object is remote''),
      (121, ''remote I/O error''),
      (85, ''interrupted system call should be restarted''),
      (30, ''read-only file system''),
      (108, ''cannot send after transport endpoint shutdown''),
      (94, ''socket type not supported''),
      (29, ''illegal seek''),
      (3, ''no such process''),
      (69, ''srmount error''),
      (116, ''stale NFS file handle''),
      (86, ''streams pipe error''),
      (62, ''timer expired''),
      (110, ''connection timed out''),
      (109, ''too many references: cannot splice''),
      (26, ''text file busy''),
      (117, ''structure needs cleaning''),
      (49, ''protocol driver not attached''),
      (87, ''too many users''),
      (18, ''invalid cross-device link''),
      (54, ''exchange full'')]"

definition errors :: "string list" where
  "errors = map (\<lambda>i. case map_of errorEntries i of None \<Rightarrow> [] | Some t \<Rightarrow> t)
     [0..<Suc (fold max (map fst errorEntries) 0)]"

text \<open>No number has two texts, and of the numbers up to 131 only three have none.\<close>

lemma errorEntries_numbers: "sort (map fst errorEntries) = [1..<41] @ [42..<58] @ [59..<132]"
  by (simp add: errorEntries_def upt_rec)

lemma errorEntries_distinct: "distinct (map fst errorEntries)"
proof -
  have "distinct (sort (map fst errorEntries))" unfolding errorEntries_numbers by auto
  then show ?thesis by (simp only: distinct_sort)
qed

end
