(* ===== verification/Spec2Isabelle.thy ===== *)
theory Spec2Isabelle
  imports ForthProps PackProps IoProxy Messages Delivery MasterConcProps SlaveRuns Rpc Platform Web Helpers
begin

text \<open>
  gproc starts programs on the nodes of a cluster. This development models its packages
  \<^verbatim>\<open>forth\<close>, \<^verbatim>\<open>filemarshal\<close>, \<^verbatim>\<open>typeapply\<close> and \<^verbatim>\<open>ldd\<close>, the command itself (\<^verbatim>\<open>src/src/gproc\<close>) and its
  launchers (\<^verbatim>\<open>src/src/utils\<close>), and proves what makes each of them correct.

  \<^bold>\<open>How the parts work together.\<close> A launcher starts gproc on every node through \<^verbatim>\<open>ssh\<close>, with
  expressions for the node's identifier, address and parent. \<^verbatim>\<open>main\<close> reads the flags, evaluates
  the three expressions and takes a role. A slave sends its vital data to its parent, which
  enters it in its registry; the parent is the master or another slave, so the nodes form a
  tree. A user's \<^verbatim>\<open>gproc e\<close> gathers the program, the libraries it needs and other files, and
  sends one request to the master. The master resolves the first level of the node list in
  its registry and sends the request on with the files. A slave starts a child process for
  each request, which receives the files, runs the program, and does with the rest of the
  node list what the master did. The output comes back through proxies, one for each level.

  \<^bold>\<open>Ground.\<close> \<^verbatim>\<open>GoBase\<close> has Go's machine integers (\<^verbatim>\<open>int\<close> is a 64-bit word, its division panics at
  zero), the counting loop, and functions from a state to a panic or result and a new state.
  \<^verbatim>\<open>GoStrings\<close> has \<^verbatim>\<open>strings.Split\<close>, \<^verbatim>\<open>SplitN\<close>, the trimming functions, \<^verbatim>\<open>strconv.Atoi\<close> and \<^verbatim>\<open>Itoa\<close>;
  \<^verbatim>\<open>GoPath\<close> has \<^verbatim>\<open>path.Clean\<close>, \<^verbatim>\<open>Join\<close> and \<^verbatim>\<open>Split\<close>. Splitting and joining, and printing and reading
  a number, are inverse to each other; the first is a locale with an interpretation for each
  separator.

  \<^bold>\<open>Expressions\<close> (\<^verbatim>\<open>forth/forth.go\<close>). \<^verbatim>\<open>Forth\<close> has the stack, the operators, the words a program
  defines, \<^verbatim>\<open>iEval\<close>, \<^verbatim>\<open>errRecover\<close> and \<^verbatim>\<open>Eval\<close>. \<^verbatim>\<open>ForthProps\<close>: a command that is the postfix form of
  an expression has the expression's value; the depth of the stack is the static one; a word
  is its definition inlined; evaluation ends when words are not recursive; which panics
  become errors; \<^verbatim>\<open>roundup\<close> is the least multiple. Fuel counts the nesting of words: a program
  without words of its own needs none, otherwise the rank of its words is enough.

  \<^bold>\<open>Start\<close> (\<^verbatim>\<open>main.go\<close>, \<^verbatim>\<open>utils/start*.go\<close>). \<^verbatim>\<open>Config\<close> has the flags, package \<^verbatim>\<open>flag\<close>'s reading of
  them, and \<^verbatim>\<open>main\<close> up to the choice of the role. \<^verbatim>\<open>Bootstrap\<close> has the four launchers: the tree that
  \<^verbatim>\<open>startkane\<close> builds, and why the command lines of \<^verbatim>\<open>startstrongbox\<close>, \<^verbatim>\<open>startkf\<close> and \<^verbatim>\<open>start\<close> do
  not give the nodes their numbers. Of the remote shell only the removal of quotes and blanks
  is used. \<^verbatim>\<open>Cluster\<close> lets the nodes of \<^verbatim>\<open>startkane\<close> join whom they dial and runs a command in the
  tree this gives.

  \<^bold>\<open>Registry and node lists\<close> (\<^verbatim>\<open>common.go\<close>). \<^verbatim>\<open>NodeList\<close> has \<^verbatim>\<open>parseNodeList\<close> with its errors and its
  endless loop, and relates it to the syntax of node lists. \<^verbatim>\<open>Registry\<close> has \<^verbatim>\<open>Slaves\<close> with \<^verbatim>\<open>Add\<close>,
  \<^verbatim>\<open>Remove\<close>, \<^verbatim>\<open>Get\<close> and \<^verbatim>\<open>ServIntersect\<close>; \<^verbatim>\<open>Add\<close> and \<^verbatim>\<open>Remove\<close> refine the update and deletion of an
  abstract map. The order in which Go iterates over a map is a parameter.

  \<^bold>\<open>Messages and files.\<close> \<^verbatim>\<open>Requests\<close> (\<^verbatim>\<open>common.go\<close>) has the messages and the relaying of a request.
  \<^verbatim>\<open>TypeApply\<close> (\<^verbatim>\<open>typeapply/typeapply.go\<close>) has the table of types, \<^verbatim>\<open>canReach\<close>, the construction and
  the running of traversers, and \<^verbatim>\<open>Do\<close>; \<^verbatim>\<open>TypeApplyProps\<close> proves what \<^verbatim>\<open>canReach\<close> decides, for
  recursive types too, and \<^verbatim>\<open>TypeApplyDo\<close> that \<^verbatim>\<open>Do\<close> calls the function on exactly the
  occurrences. \<^verbatim>\<open>Messages\<close> applies this to the messages of gproc: the files found in them are
  those the model of the transfer uses. \<^verbatim>\<open>FileMarshal\<close> (\<^verbatim>\<open>filemarshal/filemarshal.go\<close>) has \<^verbatim>\<open>Encode\<close>
  and \<^verbatim>\<open>Decode\<close> with every system call of the receiver; \<^verbatim>\<open>FileMarshalProps\<close> describes what is sent,
  \<^verbatim>\<open>FileTransfer\<close> the transfer from one to the other, with the case of a file that cannot be
  opened, and \<^verbatim>\<open>Contents\<close> the contents the files have then. \<^verbatim>\<open>Rpc\<close> (\<^verbatim>\<open>common.go\<close>) has the
  connections and the pairs of encoder and decoder on them: \<^verbatim>\<open>Send\<close> drops errors, and the receiver
  still gets whole values only. The fuel of \<^verbatim>\<open>typeapply\<close> bounds the
  depth of types: 8 is enough for every message.

  \<^bold>\<open>Commands\<close> (\<^verbatim>\<open>mexec.go\<close>, \<^verbatim>\<open>info.go\<close>, \<^verbatim>\<open>ldd/ldd.go\<close>). \<^verbatim>\<open>Pack\<close> has the walk over the files with its
  visitor; \<^verbatim>\<open>PackProps\<close>: a walk lists exactly what its root leads to, without links nothing
  twice, and it ends where links and directories are well-founded. \<^verbatim>\<open>Ldd\<close> has the search for
  libraries: it lists exactly what the program needs, and when it ends or is a deadlock.
  \<^verbatim>\<open>Exec\<close> has \<^verbatim>\<open>startExecution\<close> and \<^verbatim>\<open>getInfo\<close>, and \<^verbatim>\<open>ExecProps\<close> follows a program from there to the path
  that a node starts. The fuel of a walk bounds its depth, that of the search the names taken
  from the channel; the theorems on termination give the amount that is enough.

  \<^bold>\<open>Master and slaves\<close> (\<^verbatim>\<open>master.go\<close>, \<^verbatim>\<open>slave.go\<close>, \<^verbatim>\<open>common.go\<close>). \<^verbatim>\<open>Master\<close> has the sending to node
  sets, the commands of a user's connection and the registration of slaves; \<^verbatim>\<open>MasterProps\<close>
  describes the sending, and \<^verbatim>\<open>MasterRuns\<close> every sequence of registrations, connections and
  commands. \<^verbatim>\<open>Slave\<close> has the joining, the child process and \<^verbatim>\<open>runLocal\<close>, with the handshake in
  \<^verbatim>\<open>SlaveProps\<close>; \<^verbatim>\<open>SlaveRuns\<close> has the whole process of a slave, its three goroutines and the child as
  steps in any order, with what holds in every run. \<^verbatim>\<open>Platform\<close> has the private mount of a child
  (\<^verbatim>\<open>bproc_linux.go\<close>, \<^verbatim>\<open>bproc_darwin.go\<close>). \<^verbatim>\<open>Tree\<close> composes master and slaves: a command with a node list of several levels
  runs on exactly the nodes of the tree the list denotes. \<^verbatim>\<open>IoProxy\<close> has the goroutines that
  bring the output back, as steps in any order. \<^verbatim>\<open>Session\<close> puts a user and the master together: a
  command from the command line to all nodes, and the list of nodes. \<^verbatim>\<open>Delivery\<close> carries the files through the
  whole tree, each hop an \<^verbatim>\<open>Encode\<close> and a \<^verbatim>\<open>Decode\<close>: what a node starts is the user's program with the contents it
  has on the user's host. \<^verbatim>\<open>MasterConc\<close> has the goroutines of the master in single steps, and shows that
  one that is not disturbed does what \<^verbatim>\<open>Master\<close> says in one piece; \<^verbatim>\<open>MasterConcProps\<close> has what holds under every
  interleaving, and what the missing locks lose. A step there is one operation on what the goroutines share, taken to be
  atomic.

  \<^bold>\<open>Log and web pages.\<close> \<^verbatim>\<open>Logging\<close> (\<^verbatim>\<open>common.go\<close>) has the log, also with the calls of several goroutines
  in single steps: they mix their prefixes. \<^verbatim>\<open>GoFmt\<close> has what is used of package \<^verbatim>\<open>fmt\<close>, and \<^verbatim>\<open>Helpers\<close> the texts of the
  messages in the log and the functions that nothing calls (\<^verbatim>\<open>misc.go\<close>, \<^verbatim>\<open>WaitAllChildren\<close>, the error texts of
  \<^verbatim>\<open>bproc_linux_arm.go\<close>). \<^verbatim>\<open>Web\<close> (\<^verbatim>\<open>web.go\<close>) has the start of the server, which ends in a panic, its two handlers, and the
  formatter for names, which loses nothing.

  \<^bold>\<open>What the code does not do.\<close> Where the code does not do what its comments say, the model
  follows the code, and lemmas show it. The most important case is the command line of the
  child process, which its own flag parser refuses (\<^verbatim>\<open>SlaveProps\<close>), so that a slave runs no command
  at all (\<^verbatim>\<open>SlaveRuns\<close>): the theorems on trees are about the handlers as they are written, given
  that their processes start. Others are the traverser
  of a recursive type and the types below a map (\<^verbatim>\<open>TypeApplyDo\<close>), the contents of files that were
  there before (\<^verbatim>\<open>Contents\<close>), a slave that registers again while the master removes it (\<^verbatim>\<open>MasterConcProps\<close>), links that lead to each other (\<^verbatim>\<open>PackProps\<close>), a slave that cannot be
  dialled (\<^verbatim>\<open>Tree\<close>) and a slave that registers twice (\<^verbatim>\<open>Registry\<close>).

  \<^bold>\<open>Parameters.\<close> Sockets, the file systems, \<^verbatim>\<open>ssh\<close>, the encoding by package \<^verbatim>\<open>gob\<close>, ELF files and the
  host name are parameters, with what is used of them as hypotheses: that an encoder sends
  each value as one message, that names are trimmed, that an order of a map lists its keys.

  \<^bold>\<open>Not modelled.\<close> What the template library makes of the data of a web page, and the HTTP library; the
  lines in the log, except those of connections, the status page and \<^verbatim>\<open>WaitAllChildren\<close>; the output of usage
  texts; data races within one operation on a map. The loop of \<^verbatim>\<open>runSlave\<close> with its sleep is never reached a
  second time, because \<^verbatim>\<open>startSlave\<close> ends in a panic or with \<^verbatim>\<open>os.Exit\<close>. \<^verbatim>\<open>ucred\<close> and \<^verbatim>\<open>getIfc\<close> (\<^verbatim>\<open>Platform\<close>) are
  modelled although nothing calls them, and \<^verbatim>\<open>getIfc\<close> and the ARM build do not compile.
\<close>

end
